(* ===== verification/Prelude.thy ===== *)
theory Prelude
  imports Main "HOL-Library.Word" "HOL-Library.Monad_Syntax"
begin

text \<open>
  Shared vocabulary of the development: the machine integers of the Rust sources, text as
  byte strings and as lists of Unicode scalar values, results with an error side, truncating
  division, decimal numerals, and the generic facts on lists and options that the component
  theories use. Facts the component proofs share are collected in named theorems:
  \<open>bounds\<close> for numeric ranges and \<open>roundtrips\<close> for decode-after-encode equations.
\<close>

named_theorems bounds \<open>ranges of computed values\<close>
named_theorems roundtrips \<open>decoding undoes encoding\<close>

subsection \<open>Machine integers and text\<close>

type_synonym u8 = "8 word"
type_synonym u16 = "16 word"
type_synonym u32 = "32 word"
type_synonym u64 = "64 word"
type_synonym u128 = "128 word"

text \<open>
  A Rust \<open>&str\<close> read by \<open>chars()\<close> is a list of scalar values, here \<open>nat\<close>s; one read by
  \<open>as_bytes()\<close> is a byte string, an Isabelle \<open>string\<close> (a \<open>char\<close> is one byte).
\<close>

type_synonym scalar = nat
type_synonym ustr = "scalar list"

abbreviation sc :: "char \<Rightarrow> scalar" where
  "sc c \<equiv> of_char c"

definition lit :: "string \<Rightarrow> ustr" where
  "lit s = map of_char s"

lemma lit_simps [simp]: "lit [] = []" "lit (c # s) = of_char c # lit s"
  by (simp_all add: lit_def)

subsection \<open>Integer division as Rust does it\<close>

text \<open>Rust's \<open>/\<close> and \<open>%\<close> on signed integers round toward zero.\<close>

definition tdiv :: "int \<Rightarrow> int \<Rightarrow> int" where
  "tdiv a b = sgn a * sgn b * (\<bar>a\<bar> div \<bar>b\<bar>)"

definition trem :: "int \<Rightarrow> int \<Rightarrow> int" where
  "trem a b = a - b * tdiv a b"

lemma tdiv_nonneg [simp]: "0 \<le> a \<Longrightarrow> 0 < b \<Longrightarrow> tdiv a b = a div b"
  by (cases "a = 0") (simp_all add: tdiv_def)

lemma trem_nonneg [simp]: "0 \<le> a \<Longrightarrow> 0 < b \<Longrightarrow> trem a b = a mod b"
  by (simp add: trem_def minus_mult_div_eq_mod)

subsection \<open>ASCII classes\<close>

definition is_digit :: "char \<Rightarrow> bool" where
  "is_digit c \<longleftrightarrow> 48 \<le> (of_char c :: nat) \<and> (of_char c :: nat) \<le> 57"

definition digit_char :: "nat \<Rightarrow> char" where
  "digit_char d = char_of (48 + d)"

lemma of_char_digit_char [simp]: "d < 10 \<Longrightarrow> (of_char (digit_char d) :: nat) = 48 + d"
  by (simp add: digit_char_def of_char_of)

lemma of_char_digit_char_int [simp]: "d < 10 \<Longrightarrow> (of_char (digit_char d) :: int) = 48 + int d"
  by (metis int_ops(5) of_char_digit_char of_nat_numeral of_nat_of_char)

lemma is_digit_digit_char [simp]: "d < 10 \<Longrightarrow> is_digit (digit_char d)"
  by (simp add: is_digit_def)

subsection \<open>Decimal numerals\<close>

text \<open>\<open>dec n\<close> is what \<open>{}\<close> shows of an unsigned integer; \<open>digits_value\<close> reads digits back.\<close>

fun dec :: "nat \<Rightarrow> string" where
  "dec n = (if n < 10 then [digit_char n] else dec (n div 10) @ [digit_char (n mod 10)])"

declare dec.simps [simp del]

definition digits_value :: "string \<Rightarrow> nat" where
  "digits_value s = foldl (\<lambda>n d. n * 10 + (of_char d - 48)) 0 s"

lemma digits_value_Nil [simp]: "digits_value [] = 0"
  by (simp add: digits_value_def)

lemma digits_value_snoc [simp]:
  "digits_value (s @ [c]) = digits_value s * 10 + (of_char c - 48)"
  by (simp add: digits_value_def)

lemma digits_value_dec [simp, roundtrips]: "digits_value (dec n) = n"
proof (induction n rule: dec.induct)
  case (1 n)
  show ?case
  proof (cases "n < 10")
    case True
    then show ?thesis
      using digits_value_snoc [of "[]" "digit_char n"] by (simp add: dec.simps [of n])
  next
    case False
    with 1 show ?thesis by (simp add: dec.simps [of n])
  qed
qed

lemma dec_digits: "\<forall>c \<in> set (dec n). is_digit c"
proof (induction n rule: dec.induct)
  case (1 n)
  then show ?case by (subst dec.simps) (auto split: if_splits)
qed

lemma dec_not_Nil [simp]: "dec n \<noteq> []"
  by (subst dec.simps) simp

lemma length_dec_le: "n < 10 ^ k \<Longrightarrow> 0 < k \<Longrightarrow> length (dec n) \<le> k"
proof (induction k arbitrary: n)
  case (Suc k)
  show ?case
  proof (cases "n < 10")
    case True
    then show ?thesis by (simp add: dec.simps [of n])
  next
    case False
    with Suc.prems have "n div 10 < 10 ^ k" and "0 < k"
      by (auto simp: less_mult_imp_div_less mult.commute intro: gr0I)
    with Suc.IH have "length (dec (n div 10)) \<le> k" by simp
    with False show ?thesis by (simp add: dec.simps [of n])
  qed
qed simp

text \<open>\<open>{}\<close> of a signed integer.\<close>

definition dec_int :: "int \<Rightarrow> string" where
  "dec_int n = (if n < 0 then CHR ''-'' # dec (nat (- n)) else dec (nat n))"

text \<open>\<open>{:0w}\<close>: zeros to the left up to a width.\<close>

definition pad0 :: "nat \<Rightarrow> string \<Rightarrow> string" where
  "pad0 w s = replicate (w - length s) CHR ''0'' @ s"

definition pad0_int :: "nat \<Rightarrow> int \<Rightarrow> string" where
  "pad0_int w n =
     (if n < 0 then CHR ''-'' # pad0 (w - 1) (dec (nat (- n))) else pad0 w (dec (nat n)))"

lemma length_pad0: "length s \<le> w \<Longrightarrow> length (pad0 w s) = w"
  by (simp add: pad0_def)

lemma digits_value_zeros [simp]: "digits_value (replicate k CHR ''0'' @ s) = digits_value s"
  by (induction k) (simp_all add: digits_value_def)

lemma digits_value_pad0 [simp]: "digits_value (pad0 w s) = digits_value s"
  by (simp add: pad0_def)

lemma is_digit_zero [simp]: "is_digit CHR ''0''"
  by (simp add: is_digit_def)

lemma pad0_digits: "(\<forall>c \<in> set s. is_digit c) \<Longrightarrow> \<forall>c \<in> set (pad0 w s). is_digit c"
  by (auto simp: pad0_def)

text \<open>The same on scalars.\<close>

definition sc_digit :: "scalar \<Rightarrow> bool" where
  "sc_digit c \<longleftrightarrow> 48 \<le> c \<and> c \<le> 57"

definition sc_value :: "ustr \<Rightarrow> nat" where
  "sc_value s = foldl (\<lambda>n d. n * 10 + (d - 48)) 0 s"

lemma sc_value_lit [simp]: "sc_value (lit s) = digits_value s"
  by (simp add: sc_value_def digits_value_def lit_def foldl_map)

lemma sc_digit_lit: "list_all sc_digit (lit s) \<longleftrightarrow> (\<forall>c \<in> set s. is_digit c)"
  by (induction s) (simp_all add: sc_digit_def is_digit_def)

lemma lit_dec_digits [simp]: "list_all sc_digit (lit (dec n))"
  by (simp add: sc_digit_lit dec_digits)

lemma lit_eq_Nil [simp]: "lit s = [] \<longleftrightarrow> s = []"
  by (simp add: lit_def)

subsection \<open>Lists\<close>

text \<open>Rust's \<open>xs.get(i)\<close> and \<open>xs.get(a..b)\<close>.\<close>

definition get :: "'a list \<Rightarrow> nat \<Rightarrow> 'a option" where
  "get xs i = (if i < length xs then Some (xs ! i) else None)"

definition get_range :: "'a list \<Rightarrow> nat \<Rightarrow> nat \<Rightarrow> 'a list option" where
  "get_range xs a b =
     (if a \<le> b \<and> b \<le> length xs then Some (take (b - a) (drop a xs)) else None)"

lemma get_append_right [simp]: "get (xs @ ys) (length xs + i) = get ys i"
  by (simp add: get_def)

lemma get_Cons [simp]: "get (x # xs) 0 = Some x" "get (x # xs) (Suc i) = get xs i" "get [] i = None"
  by (simp_all add: get_def)

lemma get_range_append:
  "get_range (xs @ ys @ zs) (length xs) (length xs + length ys) = Some ys"
  by (simp add: get_range_def)

text \<open>Case splits over a short range of integers.\<close>

lemma int_upto_11:
  "0 \<le> x \<Longrightarrow> x \<le> 11 \<Longrightarrow> x \<in> {0, 1, 2, 3, 4, 5, 6, 7, 8, 9, 10, 11}" for x :: int
  by auto arith

subsection \<open>Slices in chunks, positions, bytes of integers\<close>

text \<open>\<open>xs.chunks(k)\<close> and \<open>xs.iter().position(p)\<close>.\<close>

fun chunks :: "nat \<Rightarrow> 'a list \<Rightarrow> 'a list list" where
  "chunks k xs = (if xs = [] \<or> k = 0 then [] else take k xs # chunks k (drop k xs))"

declare chunks.simps [simp del]

lemma chunks_Nil [simp]: "chunks k [] = []"
  by (simp add: chunks.simps)

lemma concat_chunks: "0 < k \<Longrightarrow> concat (chunks k xs) = xs"
proof (induction k xs rule: chunks.induct)
  case (1 k xs)
  then show ?case by (cases "xs = []") (simp_all add: chunks.simps [of k xs])
qed

lemma length_chunks: "0 < k \<Longrightarrow> c \<in> set (chunks k xs) \<Longrightarrow> c \<noteq> [] \<and> length c \<le> k"
proof (induction k xs rule: chunks.induct)
  case (1 k xs)
  then show ?case
    by (cases "xs = []") (auto simp: chunks.simps [of k xs])
qed

fun position :: "('a \<Rightarrow> bool) \<Rightarrow> 'a list \<Rightarrow> nat option" where
  "position P [] = None"
| "position P (x # xs) = (if P x then Some 0 else map_option Suc (position P xs))"

lemma position_SomeD: "position P xs = Some i \<Longrightarrow> i < length xs \<and> P (xs ! i) \<and> (\<forall>j < i. \<not> P (xs ! j))"
  by (induction xs arbitrary: i) (auto split: if_splits simp: less_Suc_eq_0_disj)

lemma position_None: "position P xs = None \<longleftrightarrow> (\<forall>x \<in> set xs. \<not> P x)"
  by (induction xs) auto

lemma position_nth: "distinct xs \<Longrightarrow> i < length xs \<Longrightarrow> position (\<lambda>x. x = xs ! i) xs = Some i"
proof (induction xs arbitrary: i)
  case (Cons x xs)
  then show ?case by (cases i) auto
qed simp

text \<open>A byte is its eight bits.\<close>

lemma u8_eqI:
  fixes x y :: u8
  assumes "bit x 0 = bit y 0" "bit x 1 = bit y 1" "bit x 2 = bit y 2" "bit x 3 = bit y 3"
    "bit x 4 = bit y 4" "bit x 5 = bit y 5" "bit x 6 = bit y 6" "bit x 7 = bit y 7"
  shows "x = y"
proof (rule bit_word_eqI)
  fix n :: nat
  assume "n < LENGTH(8)"
  then have "n \<in> {0, 1, 2, 3, 4, 5, 6, 7}" by auto
  with assms show "bit x n = bit y n" by auto
qed

lemma u8_no_bit: "8 \<le> n \<Longrightarrow> \<not> bit (x :: u8) n"
  using bit_imp_le_length [of x n] by auto

text \<open>The bytes of a string.\<close>

definition bytes :: "string \<Rightarrow> u8 list" where
  "bytes s = map of_char s"

lemma bytes_simps [simp]: "bytes [] = []" "bytes (c # s) = of_char c # bytes s"
  by (simp_all add: bytes_def)

text \<open>\<open>to_be_bytes\<close> of \<open>u16\<close> and \<open>u32\<close>.\<close>

definition be16 :: "u16 \<Rightarrow> u8 list" where
  "be16 w = [ucast (drop_bit 8 w), ucast w]"

definition be32 :: "u32 \<Rightarrow> u8 list" where
  "be32 w = [ucast (drop_bit 24 w), ucast (drop_bit 16 w), ucast (drop_bit 8 w), ucast w]"

subsection \<open>UTF-8\<close>

text \<open>\<open>str::from_utf8\<close> accepts the byte sequences of table 3-7 of the Unicode standard.\<close>

definition cont :: "u8 \<Rightarrow> bool" where
  "cont b \<longleftrightarrow> 0x80 \<le> b \<and> b \<le> 0xBF"

fun utf8 :: "u8 list \<Rightarrow> bool" where
  "utf8 [] = True"
| "utf8 (a # s) =
     (if a < 0x80 then utf8 s
      else if 0xC2 \<le> a \<and> a \<le> 0xDF then (case s of b # s \<Rightarrow> cont b \<and> utf8 s | _ \<Rightarrow> False)
      else if 0xE0 \<le> a \<and> a \<le> 0xEF
      then (case s of b # c # s \<Rightarrow>
              cont b \<and> cont c \<and> (a = 0xE0 \<longrightarrow> 0xA0 \<le> b) \<and> (a = 0xED \<longrightarrow> b \<le> 0x9F) \<and> utf8 s
            | _ \<Rightarrow> False)
      else if 0xF0 \<le> a \<and> a \<le> 0xF4
      then (case s of b # c # d # s \<Rightarrow>
              cont b \<and> cont c \<and> cont d \<and> (a = 0xF0 \<longrightarrow> 0x90 \<le> b) \<and> (a = 0xF4 \<longrightarrow> b \<le> 0x8F) \<and> utf8 s
            | _ \<Rightarrow> False)
      else False)"

end
