(* ===== verification/Civil.thy ===== *)
theory Civil
  imports Prelude
begin

text \<open>
  \<^verbatim>\<open>crates/tondo-runtime/src/civil.rs\<close>: dates as counts of days from 1970-01-01 and
  as RFC 3339 text. \<open>days_from_civil\<close> and \<open>civil_from_days\<close> are Hinnant's algorithms over
  integers (\<open>i64\<close> in the source; \<open>Spec2Isabelle\<close> states the ranges in which it cannot
  overflow); \<open>format_time\<close> and \<open>parse_time\<close> are \<open>format\<close> and \<open>parse\<close>. The lemmas show that
  the two conversions are inverse on the proleptic Gregorian calendar, by cutting a
  400 year era into its years and checking the finitely many year starts and month starts
  by evaluation, and that parsing undoes formatting.
\<close>

subsection \<open>Days and civil dates\<close>

definition days_from_civil :: "int \<Rightarrow> int \<Rightarrow> int \<Rightarrow> int" where
  "days_from_civil year0 month day =
     (let year = (if month \<le> 2 then year0 - 1 else year0);
          era = year div 400;
          of_era = year - era * 400;
          of_year = tdiv (153 * (month + (if month > 2 then -3 else 9)) + 2) 5 + day - 1;
          of_cycle = of_era * 365 + tdiv of_era 4 - tdiv of_era 100 + of_year
      in era * 146097 + of_cycle - 719468)"

definition civil_from_days :: "int \<Rightarrow> int \<times> int \<times> int" where
  "civil_from_days days0 =
     (let days = days0 + 719468;
          era = days div 146097;
          of_era = days - era * 146097;
          of_cycle = tdiv (of_era - tdiv of_era 1460 + tdiv of_era 36524 - tdiv of_era 146096) 365;
          of_year = of_era - (365 * of_cycle + tdiv of_cycle 4 - tdiv of_cycle 100);
          shifted = tdiv (5 * of_year + 2) 153;
          day = of_year - tdiv (153 * shifted + 2) 5 + 1;
          month = (if shifted < 10 then shifted + 3 else shifted - 9);
          year = of_cycle + era * 400 + (if month \<le> 2 then 1 else 0)
      in (year, month, day))"

text \<open>The calendar the conversions are about.\<close>

definition leap :: "int \<Rightarrow> bool" where
  "leap y \<longleftrightarrow> y mod 4 = 0 \<and> (y mod 100 \<noteq> 0 \<or> y mod 400 = 0)"

definition month_days :: "int \<Rightarrow> int \<Rightarrow> int" where
  "month_days y m =
     (if m = 2 then if leap y then 29 else 28
      else if m \<in> {4, 6, 9, 11} then 30 else 31)"

definition valid_date :: "int \<Rightarrow> int \<Rightarrow> int \<Rightarrow> bool" where
  "valid_date y m d \<longleftrightarrow> 1 \<le> m \<and> m \<le> 12 \<and> 1 \<le> d \<and> d \<le> month_days y m"

subsection \<open>Years inside an era\<close>

text \<open>
  A year here starts in March. \<open>year_start\<close> is the day of the era a year of it starts at, and
  \<open>year_of\<close> is the division with which the source finds the year of a day.
\<close>

definition year_start :: "int \<Rightarrow> int" where
  "year_start y = 365 * y + y div 4 - y div 100"

definition year_of :: "int \<Rightarrow> int" where
  "year_of d = (d - d div 1460 + d div 36524 - d div 146096) div 365"

definition year_end :: "int \<Rightarrow> int" where
  "year_end y = (if y = 399 then 146096 else year_start (y + 1) - 1)"

lemma year_of_numerator_step:
  fixes d :: int
  assumes "0 \<le> d" and "d < 146095"
  shows "d - d div 1460 + d div 36524 - d div 146096
       \<le> (d + 1) - (d + 1) div 1460 + (d + 1) div 36524 - (d + 1) div 146096"
proof -
  have "(d + 1) div 1460 \<le> d div 1460 + 1" by linarith
  moreover have "d div 36524 \<le> (d + 1) div 36524" by (simp add: zdiv_mono1)
  moreover have "d div 146096 = 0" "(d + 1) div 146096 = 0" using assms by simp_all
  ultimately show ?thesis by linarith
qed

lemma year_of_mono:
  fixes d :: int
  assumes "0 \<le> d" and "d \<le> e" and "e \<le> 146095"
  shows "year_of d \<le> year_of e"
  using assms(2,3)
proof (induction e rule: int_ge_induct)
  case (step e)
  with assms(1) have "year_of e \<le> year_of (e + 1)"
    unfolding year_of_def by (intro zdiv_mono1 year_of_numerator_step) auto
  with step show ?case by simp
qed simp

lemma year_of_ends:
  "list_all (\<lambda>y. year_of (year_start y) = y \<and> year_of (year_end y) = y) [0..399]"
  by code_simp

lemma year_of_ends':
  assumes "0 \<le> y" and "y \<le> 399"
  shows "year_of (year_start y) = y" "year_of (year_end y) = y"
  using year_of_ends assms by (simp_all add: list_all_iff)

lemma year_of_last [simp]: "year_of 146096 = 399"
  by (simp add: year_of_def)

lemma year_start_nonneg [bounds]: "0 \<le> y \<Longrightarrow> 0 \<le> year_start y"
  unfolding year_start_def by linarith

lemma year_end_le [bounds]: "0 \<le> y \<Longrightarrow> y \<le> 399 \<Longrightarrow> year_end y \<le> 146096"
  unfolding year_end_def year_start_def by auto

lemma year_of_inside:
  assumes "0 \<le> y" "y \<le> 399" "year_start y \<le> d" "d \<le> year_end y"
  shows "year_of d = y"
proof (cases "d = 146096")
  case True
  have "y = 399"
    using assms True by (cases "y = 399") (auto simp: year_end_def year_start_def)
  with True show ?thesis by simp
next
  case False
  have range: "0 \<le> year_start y" "year_end y \<le> 146096"
    using assms by (auto intro: bounds)
  have "year_of (year_start y) \<le> year_of d"
    using range assms False by (intro year_of_mono) auto
  moreover have "year_of d \<le> y"
  proof (cases "y = 399")
    case True
    have "year_of d \<le> year_of 146095" using assms range False True by (intro year_of_mono) auto
    then show ?thesis using True by (simp add: year_of_def)
  next
    case F: False
    then have "year_end y \<le> 146095" using assms by (auto simp: year_end_def year_start_def)
    then have "year_of d \<le> year_of (year_end y)"
      using assms range by (intro year_of_mono) auto
    then show ?thesis using assms year_of_ends' by simp
  qed
  ultimately show ?thesis using assms year_of_ends' by simp
qed

lemma year_exists:
  assumes "0 \<le> d" and "d \<le> 146096"
  shows "\<exists>y. 0 \<le> y \<and> y \<le> 399 \<and> year_start y \<le> d \<and> d \<le> year_end y"
proof -
  have "\<exists>y. 0 \<le> y \<and> y \<le> n \<and> year_start y \<le> d \<and> d \<le> year_end y"
    if "0 \<le> n" "n \<le> 399" "d \<le> year_end n" for n
    using that
  proof (induction n rule: int_ge_induct)
    case base
    then show ?case using assms by (intro exI [of _ 0]) (simp add: year_start_def)
  next
    case (step n)
    show ?case
    proof (cases "year_start (n + 1) \<le> d")
      case True
      then show ?thesis using step by (intro exI [of _ "n + 1"]) auto
    next
      case False
      then have "d \<le> year_end n" using step by (auto simp: year_end_def)
      then show ?thesis using step by force
    qed
  qed
  from this [of 399] assms show ?thesis by (simp add: year_end_def)
qed

lemma year_of_range:
  assumes "0 \<le> d" and "d \<le> 146096"
  shows "0 \<le> year_of d \<and> year_of d \<le> 399 \<and> year_start (year_of d) \<le> d \<and> d \<le> year_end (year_of d)"
  using year_exists [OF assms] year_of_inside by blast

subsection \<open>Months inside a year\<close>

definition month_start :: "int \<Rightarrow> int" where
  "month_start s = (153 * s + 2) div 5"

definition month_of :: "int \<Rightarrow> int" where
  "month_of d = (5 * d + 2) div 153"

text \<open>The length of the year and of the months, counted from March.\<close>

definition shifted_days :: "bool \<Rightarrow> int \<Rightarrow> int" where
  "shifted_days lp s =
     (if s = 11 then if lp then 29 else 28 else if s \<in> {1, 3, 6, 8} then 30 else 31)"

lemma months_cut:
  "list_all (\<lambda>d. let s = month_of d; k = d - month_start s in
      0 \<le> s \<and> s \<le> 11 \<and> 0 \<le> k \<and> k < shifted_days True s \<and> (d < 365 \<longrightarrow> k < shifted_days False s)) [0..365]"
  by code_simp

lemma months_join:
  "list_all (\<lambda>s. list_all (\<lambda>k. k < shifted_days True s \<longrightarrow>
       month_of (month_start s + k) = s \<and> month_start s + k < 366 \<and>
       (k < shifted_days False s \<longrightarrow> month_start s + k < 365)) [0..30]) [0..11]"
  by code_simp

lemma month_cut:
  assumes "0 \<le> d" "d \<le> 364 \<or> lp \<and> d \<le> 365"
  shows "0 \<le> month_of d" "month_of d \<le> 11" "month_start (month_of d) \<le> d"
    "d - month_start (month_of d) < shifted_days lp (month_of d)"
proof -
  have "let s = month_of d; k = d - month_start s in
      0 \<le> s \<and> s \<le> 11 \<and> 0 \<le> k \<and> k < shifted_days True s \<and> (d < 365 \<longrightarrow> k < shifted_days False s)"
    using months_cut assms by (auto simp: list_all_iff)
  then show "0 \<le> month_of d" "month_of d \<le> 11" "month_start (month_of d) \<le> d"
    "d - month_start (month_of d) < shifted_days lp (month_of d)"
    using assms by (cases lp; auto simp: Let_def)+
qed

lemma month_join:
  assumes "0 \<le> s" "s \<le> 11" "0 \<le> k" "k < shifted_days lp s"
  shows "month_of (month_start s + k) = s" "month_start s + k \<le> 364 \<or> lp \<and> month_start s + k \<le> 365"
proof -
  have "k < shifted_days True s" and "k \<le> 30"
    using assms by (auto simp: shifted_days_def split: if_splits)
  then have "month_of (month_start s + k) = s \<and> month_start s + k < 366 \<and>
       (k < shifted_days False s \<longrightarrow> month_start s + k < 365)"
    using months_join assms(1-3) by (auto simp: list_all_iff)
  then show "month_of (month_start s + k) = s"
    "month_start s + k \<le> 364 \<or> lp \<and> month_start s + k \<le> 365"
    using assms by (cases lp; auto)+
qed

subsection \<open>The two conversions\<close>

lemma year_lengths:
  "list_all (\<lambda>y. year_end y - year_start y = (if leap (y + 1) then 365 else 364)) [0..399]"
  by code_simp

lemma year_length:
  assumes "0 \<le> y" "y \<le> 399"
  shows "year_end y = year_start y + (if leap (y + 1) then 365 else 364)"
proof -
  have "year_end y - year_start y = (if leap (y + 1) then 365 else 364)"
    using year_lengths assms by (simp add: list_all_iff del: if_split)
  then show ?thesis by simp
qed

lemma leap_mod_era: "leap (y mod 400 + 1) = leap (y + 1)"
proof -
  have "(y mod 400 + 1) mod k = (y + 1) mod k" if "k dvd 400" for k :: int
    using that by (subst (1 2) mod_add_left_eq [symmetric]) (simp add: mod_mod_cancel)
  from this [of 4] this [of 100] this [of 400] show ?thesis by (simp add: leap_def)
qed

text \<open>The source's conversions, in terms of the cuts above.\<close>

definition shift_month :: "int \<Rightarrow> int" where
  "shift_month m = m + (if m > 2 then -3 else 9)"

definition shift_year :: "int \<Rightarrow> int \<Rightarrow> int" where
  "shift_year y m = (if m \<le> 2 then y - 1 else y)"

lemma days_from_civil_cut:
  assumes "1 \<le> m" "m \<le> 12"
  shows "days_from_civil y m d =
    shift_year y m div 400 * 146097 + year_start (shift_year y m mod 400)
      + month_start (shift_month m) + d - 1 - 719468"
proof -
  have "0 \<le> 153 * shift_month m + 2" using assms by (simp add: shift_month_def)
  moreover have "shift_year y m - shift_year y m div 400 * 400 = shift_year y m mod 400"
    by (simp add: minus_div_mult_eq_mod)
  ultimately show ?thesis
    by (simp add: days_from_civil_def shift_year_def [symmetric] shift_month_def [symmetric]
        Let_def year_start_def month_start_def)
qed

lemma civil_from_days_cut:
  fixes n :: int
  defines "of_era \<equiv> (n + 719468) mod 146097" and "era \<equiv> (n + 719468) div 146097"
  defines "s \<equiv> month_of (of_era - year_start (year_of of_era))"
  shows "civil_from_days n =
    (let m = (if s < 10 then s + 3 else s - 9) in
     (year_of of_era + era * 400 + (if m \<le> 2 then 1 else 0), m,
      of_era - year_start (year_of of_era) - month_start s + 1))"
proof -
  have e: "0 \<le> of_era" "of_era \<le> 146096" by (auto simp: of_era_def)
  have era: "n + 719468 - era * 146097 = of_era"
    by (simp add: of_era_def era_def minus_div_mult_eq_mod)
  note yr = year_of_range [OF e]
  have nonneg: "0 \<le> of_era - of_era div 1460 + of_era div 36524 - of_era div 146096"
    using e by linarith
  have s0: "0 \<le> s"
    using yr by (simp add: s_def month_of_def pos_imp_zdiv_nonneg_iff)
  have cyc: "tdiv (of_era - tdiv of_era 1460 + tdiv of_era 36524 - tdiv of_era 146096) 365
      = year_of of_era"
    using e nonneg by (simp add: year_of_def)
  have shifted: "tdiv (5 * (of_era - (365 * year_of of_era + tdiv (year_of of_era) 4
      - tdiv (year_of of_era) 100)) + 2) 153 = s"
    using yr by (simp add: s_def month_of_def year_start_def)
  have diff: "of_era - (365 * year_of of_era + tdiv (year_of of_era) 4
      - tdiv (year_of of_era) 100) = of_era - year_start (year_of of_era)"
    using yr by (simp add: year_start_def)
  show ?thesis
    unfolding civil_from_days_def Let_def era_def [symmetric] era cyc
    unfolding shifted
    unfolding diff
    using s0 by (simp add: month_start_def)
qed

lemma valid_shifted:
  assumes "valid_date y m d"
  shows "0 \<le> shift_month m" "shift_month m \<le> 11" "0 \<le> d - 1"
    "d - 1 < shifted_days (leap (shift_year y m + 1)) (shift_month m)"
proof -
  have "m - 1 \<in> {0, 1, 2, 3, 4, 5, 6, 7, 8, 9, 10, 11}"
    using assms by (intro int_upto_11) (auto simp: valid_date_def)
  then have "m \<in> {1, 2, 3, 4, 5, 6, 7, 8, 9, 10, 11, 12}" by auto
  then show "0 \<le> shift_month m" "shift_month m \<le> 11" "0 \<le> d - 1"
    "d - 1 < shifted_days (leap (shift_year y m + 1)) (shift_month m)"
    using assms
    by (auto simp: valid_date_def month_days_def shifted_days_def shift_month_def shift_year_def
        split: if_splits)
qed

lemma civil_from_days_from_civil [roundtrips]:
  assumes "valid_date y m d"
  shows "civil_from_days (days_from_civil y m d) = (y, m, d)"
proof -
  let ?y = "shift_year y m" and ?s = "shift_month m"
  let ?o = "?y mod 400" and ?k = "month_start (shift_month m) + (d - 1)"
  have m: "1 \<le> m" "m \<le> 12" using assms by (auto simp: valid_date_def)
  note v = valid_shifted [OF assms]
  note j = month_join [OF v]
  have o: "0 \<le> ?o" "?o \<le> 399" by auto
  have k0: "0 \<le> ?k" using v by (simp add: month_start_def pos_imp_zdiv_nonneg_iff)
  have inside: "year_start ?o + ?k \<le> year_end ?o"
    using j(2) year_length [OF o] by (auto simp: leap_mod_era)
  have doe: "0 \<le> year_start ?o + ?k" "year_start ?o + ?k \<le> 146096"
    using k0 o inside year_end_le [OF o] year_start_nonneg [OF o(1)] by auto
  have yo: "year_of (year_start ?o + ?k) = ?o"
    using o k0 inside by (intro year_of_inside) auto
  have n: "days_from_civil y m d + 719468 = (year_start ?o + ?k) + ?y div 400 * 146097"
    using days_from_civil_cut [OF m] by simp
  have cut: "(days_from_civil y m d + 719468) mod 146097 = year_start ?o + ?k"
    "(days_from_civil y m d + 719468) div 146097 = ?y div 400"
    unfolding n using doe by simp_all
  have "?y mod 400 + ?y div 400 * 400 = ?y" by simp
  then show ?thesis
    unfolding civil_from_days_cut cut yo using j(1) m
    by (auto simp: Let_def shift_month_def shift_year_def)
qed

lemma civil_from_days_valid [bounds]:
  assumes "civil_from_days n = (y, m, d)"
  shows "valid_date y m d" and "days_from_civil y m d = n"
proof -
  define oe where "oe = (n + 719468) mod 146097"
  define er where "er = (n + 719468) div 146097"
  define k where "k = oe - year_start (year_of oe)"
  define s where "s = month_of k"
  have e: "0 \<le> oe" "oe \<le> 146096" by (auto simp: oe_def)
  note yr = year_of_range [OF e]
  let ?lp = "leap (year_of oe + 1)"
  have k: "0 \<le> k" "k \<le> 364 \<or> ?lp \<and> k \<le> 365"
    using yr year_length [of "year_of oe"] by (auto simp: k_def split: if_splits)
  note c = month_cut [OF k]
  have m: "m = (if s < 10 then s + 3 else s - 9)"
    and y: "y = year_of oe + er * 400 + (if m \<le> 2 then 1 else 0)"
    and d: "d = k - month_start s + 1"
    using assms unfolding civil_from_days_cut
    by (auto simp: Let_def k_def s_def oe_def er_def)
  have sy: "shift_year y m = year_of oe + er * 400" and sm: "shift_month m = s"
    using m y c by (auto simp: shift_year_def shift_month_def s_def)
  have lp: "leap (shift_year y m + 1) = ?lp"
    using leap_mod_era [of "shift_year y m"] yr by (simp add: sy)
  have "month_days y m = shifted_days (leap (shift_year y m + 1)) s"
    using int_upto_11 [OF c(1,2)] m
    by (auto simp: month_days_def shifted_days_def shift_year_def s_def [symmetric])
  then show v: "valid_date y m d"
    using c m d lp by (auto simp: valid_date_def s_def [symmetric])
  have "days_from_civil y m d = er * 146097 + oe - 719468"
    using days_from_civil_cut [of m y d] v yr
    by (simp add: sy sm d k_def valid_date_def)
  then show "days_from_civil y m d = n" by (simp add: oe_def er_def)
qed

subsection \<open>Text\<close>

definition trim_end_zeros :: "string \<Rightarrow> string" where
  "trim_end_zeros s = rev (dropWhile (\<lambda>c. c = CHR ''0'') (rev s))"

definition format_time :: "int \<Rightarrow> nat \<Rightarrow> string" where
  "format_time seconds nanos =
     (let days = seconds div 86400; rest = seconds mod 86400;
          (year, month, day) = civil_from_days days;
          text1 = pad0_int 4 year @ ''-'' @ pad0_int 2 month @ ''-'' @ pad0_int 2 day @ ''T''
            @ pad0_int 2 (tdiv rest 3600) @ '':'' @ pad0_int 2 (trem (tdiv rest 60) 60)
            @ '':'' @ pad0_int 2 (trem rest 60);
          text2 = (if nanos > 0
            then text1 @ trim_end_zeros (''.'' @ pad0 9 (dec nanos)) else text1)
      in text2 @ ''Z'')"

text \<open>The closure \<open>number\<close> of \<open>parse\<close>: a run of exactly \<open>count\<close> digits.\<close>

definition number :: "string \<Rightarrow> nat \<Rightarrow> nat \<Rightarrow> int option" where
  "number text_bytes a count =
     do { digits \<leftarrow> get_range text_bytes a (a + count);
          if list_all is_digit digits then Some (int (digits_value digits)) else None }"

definition parse_offset :: "string \<Rightarrow> nat \<Rightarrow> int \<Rightarrow> nat \<Rightarrow> (int \<times> nat) option" where
  "parse_offset text_bytes at seconds nanos =
     (case get text_bytes at of
        None \<Rightarrow> if length text_bytes \<le> at + 1 then Some (seconds, nanos) else None
      | Some c \<Rightarrow>
          if c \<in> {CHR ''Z'', CHR ''z''} \<and> length text_bytes \<le> at + 1 then Some (seconds, nanos)
          else if c \<in> {CHR ''+'', CHR ''-''} \<and> length text_bytes = at + 6 \<and> text_bytes ! (at + 3) = CHR '':'' then
            do { h \<leftarrow> number text_bytes (at + 1) 2;
                 m \<leftarrow> number text_bytes (at + 4) 2;
                 let offset = h * 3600 + m * 60;
                 Some (seconds - (if c = CHR ''+'' then offset else - offset), nanos) }
          else None)"

definition parse_fraction :: "string \<Rightarrow> (nat \<times> nat) option" where
  "parse_fraction text_bytes =
     (if get text_bytes 19 = Some CHR ''.'' then
        let digits = takeWhile is_digit (drop 20 text_bytes); at = 20 + length digits
        in if digits = [] \<or> 9 < length digits then None
           else let nanos = digits_value (digits @ replicate (9 - length digits) CHR ''0'')
                in if nanos < 2 ^ 32 then Some (at, nanos) else None
      else Some (19, 0))"

definition parse_time :: "string \<Rightarrow> (int \<times> nat) option" where
  "parse_time text_bytes =
     do { year \<leftarrow> number text_bytes 0 4;
          month \<leftarrow> number text_bytes 5 2;
          day \<leftarrow> number text_bytes 8 2;
          if get text_bytes 4 \<noteq> Some CHR ''-'' \<or> get text_bytes 7 \<noteq> Some CHR ''-''
             \<or> \<not> (1 \<le> month \<and> month \<le> 12) \<or> \<not> (1 \<le> day \<and> day \<le> 31)
          then None
          else
            let seconds = days_from_civil year month day * 86400 in
            if length text_bytes = 10 then Some (seconds, 0)
            else if get text_bytes 10 \<notin> {Some CHR ''T'', Some CHR ''t'', Some CHR '' ''}
               \<or> get text_bytes 13 \<noteq> Some CHR '':'' \<or> get text_bytes 16 \<noteq> Some CHR '':''
            then None
            else do {
              hour \<leftarrow> number text_bytes 11 2;
              minute \<leftarrow> number text_bytes 14 2;
              second \<leftarrow> number text_bytes 17 2;
              let seconds = seconds + hour * 3600 + minute * 60 + second;
              (at, nanos) \<leftarrow> parse_fraction text_bytes;
              parse_offset text_bytes at seconds nanos } }"

lemma number_at:
  assumes "list_all is_digit ys" "length xs = a" "length ys = k"
  shows "number (xs @ ys @ zs) a k = Some (int (digits_value ys))"
  using assms get_range_append [of xs ys zs] by (auto simp: number_def)

lemma get_at: "length xs = a \<Longrightarrow> get (xs @ y # zs) a = Some y"
  using get_append_right [of xs "y # zs" 0] by simp

text \<open>Two and four digit fields.\<close>

lemma pad0_int_field:
  assumes "0 \<le> n" "n < 10 ^ w" "0 < w"
  shows "length (pad0_int w n) = w" "list_all is_digit (pad0_int w n)"
    "int (digits_value (pad0_int w n)) = n"
proof -
  have "nat n < 10 ^ w" using assms by (simp add: nat_less_iff)
  then show "length (pad0_int w n) = w"
    using assms by (simp add: pad0_int_def length_pad0 length_dec_le)
  show "list_all is_digit (pad0_int w n)"
    using assms pad0_digits [OF dec_digits] by (simp add: pad0_int_def list_all_iff)
  show "int (digits_value (pad0_int w n)) = n"
    using assms by (simp add: pad0_int_def)
qed

text \<open>What \<open>parse_time\<close> reads of a text with the layout of \<open>format_time\<close>.\<close>

lemma parse_time_layout:
  assumes Y: "length Y = 4" "list_all is_digit Y"
    and M: "length M = 2" "list_all is_digit M" "1 \<le> digits_value M" "digits_value M \<le> 12"
    and D: "length D = 2" "list_all is_digit D" "1 \<le> digits_value D" "digits_value D \<le> 31"
    and h: "length h = 2" "list_all is_digit h"
    and m: "length m = 2" "list_all is_digit m"
    and s: "length s = 2" "list_all is_digit s"
    and b: "b = Y @ ''-'' @ M @ ''-'' @ D @ ''T'' @ h @ '':'' @ m @ '':'' @ s @ rest" "rest \<noteq> []"
  shows "parse_time b =
    do { (at, nanos) \<leftarrow> parse_fraction b;
         parse_offset b at
           (days_from_civil (int (digits_value Y)) (int (digits_value M)) (int (digits_value D)) * 86400
             + int (digits_value h) * 3600 + int (digits_value m) * 60 + int (digits_value s)) nanos }"
proof -
  note len = Y(1) M(1) D(1) h(1) m(1) s(1)
  have fields:
    "number b 0 4 = Some (int (digits_value Y))"
    "number b 5 2 = Some (int (digits_value M))"
    "number b 8 2 = Some (int (digits_value D))"
    "number b 11 2 = Some (int (digits_value h))"
    "number b 14 2 = Some (int (digits_value m))"
    "number b 17 2 = Some (int (digits_value s))"
    using number_at [OF Y(2), of "[]" 0 4] number_at [OF M(2), of "Y @ ''-''" 5 2]
      number_at [OF D(2), of "Y @ ''-'' @ M @ ''-''" 8 2]
      number_at [OF h(2), of "Y @ ''-'' @ M @ ''-'' @ D @ ''T''" 11 2]
      number_at [OF m(2), of "Y @ ''-'' @ M @ ''-'' @ D @ ''T'' @ h @ '':''" 14 2]
      number_at [OF s(2), of "Y @ ''-'' @ M @ ''-'' @ D @ ''T'' @ h @ '':'' @ m @ '':''" 17 2]
    by (simp_all add: b len)
  have seps: "get b 4 = Some CHR ''-''" "get b 7 = Some CHR ''-''" "get b 10 = Some CHR ''T''"
    "get b 13 = Some CHR '':''" "get b 16 = Some CHR '':''"
    using get_at [of Y 4] get_at [of "Y @ ''-'' @ M" 7] get_at [of "Y @ ''-'' @ M @ ''-'' @ D" 10]
      get_at [of "Y @ ''-'' @ M @ ''-'' @ D @ ''T'' @ h" 13]
      get_at [of "Y @ ''-'' @ M @ ''-'' @ D @ ''T'' @ h @ '':'' @ m" 16]
    by (simp_all add: b len)
  have "length b \<noteq> 10" using b by (simp add: len)
  then show ?thesis
    using M(3,4) D(3,4) by (simp add: parse_time_def fields seps)
qed

lemma takeWhile_digits:
  "list_all is_digit ds \<Longrightarrow> takeWhile is_digit (ds @ CHR ''Z'' # r) = ds"
  by (simp add: takeWhile_append list_all_iff is_digit_def)

lemma trim_end_zeros_snoc [simp]:
  "trim_end_zeros (s @ [c]) = (if c = CHR ''0'' then trim_end_zeros s else s @ [c])"
  "trim_end_zeros [] = []"
  by (simp_all add: trim_end_zeros_def)

lemma trim_end_zeros_split: "\<exists>k. s = trim_end_zeros s @ replicate k CHR ''0''"
proof (induction s rule: rev_induct)
  case (snoc c s)
  then obtain k where s: "s = trim_end_zeros s @ replicate k CHR ''0''" by blast
  have "s @ [CHR ''0''] = trim_end_zeros s @ replicate (Suc k) CHR ''0''"
    by (subst s) (simp add: replicate_append_same)
  moreover have "\<exists>k. s @ [c] = (s @ [c]) @ replicate k CHR ''0''"
    by (rule exI [of _ 0]) simp
  ultimately show ?case
    unfolding trim_end_zeros_snoc(1) by metis
qed simp

text \<open>The fraction that \<open>format_time\<close> writes: a point and one to nine digits.\<close>

lemma fraction_written:
  assumes "0 < n" "n < 10 ^ 9"
  obtains ds where "trim_end_zeros (''.'' @ pad0 9 (dec n)) = CHR ''.'' # ds" "ds \<noteq> []"
    "list_all is_digit ds" "length ds \<le> 9"
    "digits_value (ds @ replicate (9 - length ds) CHR ''0'') = n"
proof -
  let ?w = "''.'' @ pad0 9 (dec n)" and ?p = "pad0 9 (dec n)"
  let ?t = "trim_end_zeros ?w"
  have len: "length ?p = 9" using assms by (simp add: length_pad0 length_dec_le)
  obtain k where split: "CHR ''.'' # ?p = ?t @ replicate k CHR ''0''"
    using trim_end_zeros_split [of ?w] by auto
  have "?t \<noteq> []"
  proof
    assume "?t = []"
    with split have "CHR ''.'' # ?p = replicate k CHR ''0''" by (simp only: append_Nil)
    then show False by (cases k) simp_all
  qed
  with split obtain ds where t: "?t = CHR ''.'' # ds"
    by (metis append_Cons list.exhaust list.inject)
  with split have p: "ds @ replicate k CHR ''0'' = ?p" by simp
  with len have "k = 9 - length ds" by (metis add_diff_cancel_left' length_append length_replicate)
  with p have p: "ds @ replicate (9 - length ds) CHR ''0'' = ?p" by simp
  have "list_all is_digit ?p" using pad0_digits [OF dec_digits] by (simp add: list_all_iff)
  then have digits: "list_all is_digit ds" by (metis list_all_append p)
  have "length ds \<le> 9" using p len by (metis le_add1 length_append)
  moreover have "digits_value (ds @ replicate (9 - length ds) CHR ''0'') = n"
    by (simp add: p)
  moreover have "ds \<noteq> []"
  proof
    assume "ds = []"
    then have "digits_value ?p = 0" using p digits_value_zeros [of 9 "[]"] by simp
    then show False using assms by simp
  qed
  ultimately show ?thesis using t digits that by blast
qed

lemma parse_after_fraction:
  assumes "length pre = 19"
  shows "parse_fraction (pre @ ''Z'') = Some (19, 0)"
    "ds \<noteq> [] \<Longrightarrow> list_all is_digit ds \<Longrightarrow> length ds \<le> 9 \<Longrightarrow>
     digits_value (ds @ replicate (9 - length ds) CHR ''0'') < 2 ^ 32 \<Longrightarrow>
     parse_fraction (pre @ CHR ''.'' # ds @ ''Z'') =
       Some (20 + length ds, digits_value (ds @ replicate (9 - length ds) CHR ''0''))"
  using assms takeWhile_digits [of ds "[]"]
  by (simp_all add: parse_fraction_def get_at Let_def)

lemma parse_offset_Z: "length pre = at \<Longrightarrow> parse_offset (pre @ ''Z'') at s n = Some (s, n)"
  by (simp add: parse_offset_def get_at)

text \<open>The years that take four digits, in seconds.\<close>

definition first_second :: int where "first_second = -62167219200"
definition last_second :: int where "last_second = 253402300799"


lemma year_bounds_days:
  assumes "valid_date y m d" "-719528 \<le> days_from_civil y m d" "days_from_civil y m d \<le> 2932896"
  shows "0 \<le> y" "y \<le> 9999"
proof -
  define s where "s = shift_year y m"
  define k where "k = month_start (shift_month m) + (d - 1)"
  have m: "1 \<le> m" "m \<le> 12" using assms by (auto simp: valid_date_def)
  note v = valid_shifted [OF assms(1)]
  have mod: "0 \<le> s mod 400" "s mod 400 \<le> 399" by auto
  have k: "0 \<le> k" "k \<le> 365"
    using v month_join [OF v] by (auto simp: k_def month_start_def pos_imp_zdiv_nonneg_iff)
  have n: "days_from_civil y m d + 719468 = s div 400 * 146097 + year_start (s mod 400) + k"
    using days_from_civil_cut [OF m, of y d] by (simp add: s_def k_def)
  have ys: "365 * (s mod 400) \<le> year_start (s mod 400)" "year_start (s mod 400) \<le> 365 * (s mod 400) + 96"
    using mod unfolding year_start_def by auto
  show "0 \<le> y"
  proof (rule ccontr)
    assume neg: "\<not> 0 \<le> y"
    then have "s \<le> -1" by (auto simp: s_def shift_year_def)
    moreover have "k \<le> 305" if "s = -1"
    proof -
      have "m > 2" using that neg by (auto simp: s_def shift_year_def split: if_splits)
      then show ?thesis
        using v(4) m int_upto_11 [OF v(1,2)]
        by (auto simp: k_def shift_month_def shifted_days_def month_start_def split: if_splits)
    qed
    moreover have "s mod 400 \<le> 398" if "s \<noteq> -1" "s div 400 = -1" using that by presburger
    moreover have "s div 400 \<le> -1" using \<open>s \<le> -1\<close> by presburger
    moreover have low: "-60 \<le> s div 400 * 146097 + year_start (s mod 400) + k"
      using n assms(2) by linarith
    moreover have "s mod 400 = 399 \<and> s div 400 = -1" if "s = -1" using that by simp
    moreover have "year_start 399 = 145731" by (simp add: year_start_def)
    ultimately consider "k \<le> 305" "s mod 400 = 399" "s div 400 = -1" "year_start (s mod 400) = 145731"
      | "s mod 400 \<le> 398" "s div 400 = -1" | "s div 400 \<le> -2"
      by (cases "s = -1"; cases "s div 400 = -1") auto
    then show False using low ys k mod by cases linarith+
  qed
  show "y \<le> 9999"
  proof (rule ccontr)
    assume big: "\<not> y \<le> 9999"
    then have s: "9999 \<le> s" by (auto simp: s_def shift_year_def)
    show False
    proof (cases "s = 9999")
      case True
      then have "m \<le> 2" using big by (auto simp: s_def shift_year_def split: if_splits)
      then have "306 \<le> k"
        using m v(3) by (auto simp: k_def shift_month_def month_start_def)
      with n True assms(3) show False by (simp add: year_start_def)
    next
      case False
      then have "25 \<le> s div 400" using s by presburger
      with n ys k mod assms(3) show False by linarith
    qed
  qed
qed

lemma format_time_fields:
  assumes "first_second \<le> t" "t \<le> last_second" "civil_from_days (t div 86400) = (y, m, d)"
  shows "0 \<le> y" "y \<le> 9999" "1 \<le> m" "m \<le> 12" "1 \<le> d" "d \<le> 31"
proof -
  note c = civil_from_days_valid [OF assms(3)]
  show "0 \<le> y" "y \<le> 9999"
    using year_bounds_days [OF c(1)] c(2) assms(1,2)
    by (simp_all add: first_second_def last_second_def)
  show "1 \<le> m" "m \<le> 12" "1 \<le> d" "d \<le> 31"
    using c(1) by (auto simp: valid_date_def month_days_def split: if_splits)
qed

lemma parse_time_format_time:
  assumes "first_second \<le> t" "t \<le> last_second" "n < 10 ^ 9"
  shows "parse_time (format_time t n) = Some (t, n)"
proof -
  define r where "r = t mod 86400"
  obtain y m d where ymd: "civil_from_days (t div 86400) = (y, m, d)" by (cases "civil_from_days (t div 86400)")
  note f = format_time_fields [OF assms(1,2) ymd]
  have r: "0 \<le> r" "r < 86400" by (auto simp: r_def)
  let ?Y = "pad0_int 4 y" and ?M = "pad0_int 2 m" and ?D = "pad0_int 2 d"
    and ?h = "pad0_int 2 (r div 3600)" and ?m = "pad0_int 2 (r div 60 mod 60)"
    and ?s = "pad0_int 2 (r mod 60)"
  define pre where "pre = ?Y @ ''-'' @ ?M @ ''-'' @ ?D @ ''T'' @ ?h @ '':'' @ ?m @ '':'' @ ?s"
  define rest where "rest = (if n > 0 then trim_end_zeros (''.'' @ pad0 9 (dec n)) else []) @ ''Z''"
  have hms: "r div 3600 < 10 ^ 2" "0 \<le> r div 3600" "0 \<le> r div 60 mod 60" "r div 60 mod 60 < 10 ^ 2"
    "0 \<le> r mod 60" "r mod 60 < 10 ^ 2"
  proof -
    have "x mod 60 < 10 ^ 2" for x :: int using pos_mod_bound [of 60 x] by simp
    then show "r div 60 mod 60 < 10 ^ 2" "r mod 60 < 10 ^ 2" by auto
    show "r div 3600 < 10 ^ 2" using r by simp
  qed (use r in \<open>simp_all add: pos_imp_zdiv_nonneg_iff\<close>)
  have small: "y < 10 ^ 4" "m < 10 ^ 2" "d < 10 ^ 2" "0 \<le> m" "0 \<le> d" using f by simp_all
  note Y = pad0_int_field [OF f(1) small(1)] and M = pad0_int_field [OF small(4,2)]
    and D = pad0_int_field [OF small(5,3)] and H = pad0_int_field [OF hms(2,1)]
    and I = pad0_int_field [OF hms(3,4)] and S = pad0_int_field [OF hms(5,6)]
  have written: "format_time t n = pre @ rest"
    using r by (simp add: format_time_def Let_def ymd r_def [symmetric] pre_def rest_def)
  have len: "length pre = 19"
    using Y(1) M(1) D(1) H(1) I(1) S(1) f by (simp add: pre_def)
  have "parse_time (format_time t n) =
      do { (at, nanos) \<leftarrow> parse_fraction (pre @ rest);
           parse_offset (pre @ rest) at t nanos }"
  proof -
    have "days_from_civil y m d * 86400 + r div 3600 * 3600 + r div 60 mod 60 * 60 + r mod 60 = t"
    proof -
      have "r div 3600 = r div 60 div 60" using zdiv_zmult2_eq [of 60 r 60] by simp
      then have "r div 3600 * 3600 + r div 60 mod 60 * 60 + r mod 60 = r"
        using div_mult_mod_eq [of "r div 60" 60] div_mult_mod_eq [of r 60] by linarith
      moreover have "t div 86400 * 86400 + r = t" by (simp add: r_def)
      ultimately show ?thesis using civil_from_days_valid(2) [OF ymd] by linarith
    qed
    moreover have "1 \<le> digits_value ?M" "digits_value ?M \<le> 12" "1 \<le> digits_value ?D"
      "digits_value ?D \<le> 31"
      using M(3) D(3) f by simp_all
    moreover have "pre @ rest = ?Y @ ''-'' @ ?M @ ''-'' @ ?D @ ''T'' @ ?h @ '':'' @ ?m @ '':'' @ ?s @ rest"
      "rest \<noteq> []"
      by (simp_all add: pre_def rest_def)
    ultimately show ?thesis
      using parse_time_layout [of ?Y ?M ?D ?h ?m ?s "pre @ rest" rest] Y M D H I S
      unfolding written by (simp only: zero_less_numeral simp_thms)
  qed
  also have "\<dots> = Some (t, n)"
  proof (cases "n = 0")
    case True
    then show ?thesis
      using parse_after_fraction(1) [OF len] parse_offset_Z [OF len] by (simp add: rest_def)
  next
    case False
    then obtain ds where ds: "trim_end_zeros (''.'' @ pad0 9 (dec n)) = CHR ''.'' # ds" "ds \<noteq> []"
      "list_all is_digit ds" "length ds \<le> 9"
      "digits_value (ds @ replicate (9 - length ds) CHR ''0'') = n"
      using fraction_written [of n] assms(3) by auto
    have "parse_offset ((pre @ CHR ''.'' # ds) @ ''Z'') (20 + length ds) t n = Some (t, n)"
      by (rule parse_offset_Z) (simp add: len)
    then show ?thesis
      using parse_after_fraction(2) [OF len ds(2-4)] ds assms(3) False
      by (simp add: rest_def)
  qed
  finally show ?thesis .
qed

subsection \<open>Properties\<close>


text \<open>C40: a time between the years 0 and 9999, with its nanoseconds, is read back from the RFC 3339
  text that \<open>format\<close> writes of it.\<close>

theorem time_text_roundtrip:
  assumes "first_second \<le> t" and "t \<le> last_second" and "n < 10 ^ 9"
  shows "parse_time (format_time t n) = Some (t, n)"
  using assms by (rule parse_time_format_time)

theorem time_text_roundtrip_witness:
  "parse_time (format_time 1792742400 500000000) = Some (1792742400, 500000000)"
  by (rule time_text_roundtrip) (simp_all add: first_second_def last_second_def)

end
