(* ===== verification/Codec.thy ===== *)
theory Codec
  imports Prelude
begin

text \<open>
  \<^verbatim>\<open>crates/tondo-runtime/src/codec.rs\<close>: Base64 (RFC 4648), hexadecimal and
  percent-encoded text. Every decoder is total and gives either the bytes or the offset where
  the text is wrong; the lemmas show that each undoes its encoder and that the offsets lie
  within the text.
\<close>

unbundle bit_operations_syntax

subsection \<open>Base64\<close>

definition STANDARD :: "u8 list" where
  "STANDARD = bytes ''ABCDEFGHIJKLMNOPQRSTUVWXYZabcdefghijklmnopqrstuvwxyz0123456789+/''"

definition URL :: "u8 list" where
  "URL = bytes ''ABCDEFGHIJKLMNOPQRSTUVWXYZabcdefghijklmnopqrstuvwxyz0123456789-_''"

abbreviation EQ :: u8 where "EQ \<equiv> of_char CHR ''=''"

definition alphabet :: "bool \<Rightarrow> u8 list" where
  "alphabet url = (if url then URL else STANDARD)"

text \<open>The 24 bits of up to three bytes, the first one highest.\<close>

definition chunk_bits :: "u8 list \<Rightarrow> u32" where
  "chunk_bits chunk =
     fold (\<lambda>(i, b) n. n OR push_bit (16 - 8 * i) (ucast b)) (List.enumerate 0 chunk) 0"

definition base64_chunk :: "bool \<Rightarrow> u8 list \<Rightarrow> u8 list" where
  "base64_chunk url chunk =
     map (\<lambda>i. alphabet url ! unat (drop_bit (18 - 6 * i) (chunk_bits chunk) AND 63)) [0..<length chunk + 1]
       @ (if url then [] else replicate (3 - length chunk) EQ)"

definition base64_encode :: "bool \<Rightarrow> u8 list \<Rightarrow> u8 list" where
  "base64_encode url data = concat (map (base64_chunk url) (chunks 3 data))"

text \<open>The loop of \<open>base64_decode\<close>: the offset, the bits and sextets since the last whole group,
  and the bytes so far.\<close>

fun base64_loop :: "u8 list \<Rightarrow> nat \<Rightarrow> u32 \<Rightarrow> nat \<Rightarrow> u8 list \<Rightarrow> u8 list \<Rightarrow> nat + (u32 \<times> nat \<times> u8 list)" where
  "base64_loop alpha offset n count out [] = Inr (n, count, out)"
| "base64_loop alpha offset n count out (c # cs) =
     (case position (\<lambda>a. a = c) alpha of
        None \<Rightarrow> Inl offset
      | Some value \<Rightarrow>
          let n = push_bit 6 n OR of_nat value; count = count + 1 in
          if count = 4 then base64_loop alpha (offset + 1) 0 0 (out @ tl (be32 n)) cs
          else base64_loop alpha (offset + 1) n count out cs)"

definition text_end :: "u8 list \<Rightarrow> nat" where
  "text_end input = length (dropWhile (\<lambda>c. c = EQ) (rev input))"

definition base64_decode :: "u8 list \<Rightarrow> bool \<Rightarrow> nat + u8 list" where
  "base64_decode input url =
     (let e = text_end input in
      if 2 < length input - e \<or> (e < length input \<and> length input mod 4 \<noteq> 0) then Inl e
      else case base64_loop (alphabet url) 0 0 0 [] (take e input) of
          Inl offset \<Rightarrow> Inl offset
        | Inr (n, count, out) \<Rightarrow>
            if count = 0 then Inr out
            else if count = 2 then Inr (out @ [ucast (drop_bit 4 n)])
            else if count = 3 then Inr (out @ be16 (ucast (drop_bit 2 n)))
            else Inl (length input))"

lemma length_alphabet [simp]: "length (alphabet url) = 64"
  by (simp add: alphabet_def URL_def STANDARD_def bytes_def)

lemma distinct_alphabet: "distinct (alphabet url)"
  by (cases url) (simp_all add: alphabet_def URL_def STANDARD_def)

lemma pad_not_in_alphabet: "EQ \<notin> set (alphabet url)"
  by (cases url) (simp_all add: alphabet_def URL_def STANDARD_def)

text \<open>One sextet.\<close>

definition sextet :: "u32 \<Rightarrow> nat \<Rightarrow> u32" where
  "sextet n i = drop_bit (18 - 6 * i) n AND 63"

lemma sextet_less [bounds]: "unat (sextet n i) < 64"
proof -
  have "sextet n i = take_bit 6 (drop_bit (18 - 6 * i) n)"
    by (simp add: sextet_def take_bit_eq_mask mask_numeral)
  then show ?thesis using take_bit_nat_less_exp [of 6] by (simp add: unsigned_take_bit_eq)
qed

lemma position_sextet:
  "position (\<lambda>a. a = alphabet url ! unat (sextet n i)) (alphabet url) = Some (unat (sextet n i))"
  by (intro position_nth distinct_alphabet) (simp add: sextet_less)

lemma base64_loop_sextet:
  "base64_loop (alphabet url) offset m count out (alphabet url ! unat (sextet n i) # cs) =
     (let m = push_bit 6 m OR sextet n i in
      if count = 3 then base64_loop (alphabet url) (offset + 1) 0 0 (out @ tl (be32 m)) cs
      else base64_loop (alphabet url) (offset + 1) m (count + 1) out cs)"
  by (simp add: position_sextet Let_def)

lemma chunk_bits_simps:
  "chunk_bits [a] = push_bit 16 (ucast a)"
  "chunk_bits [a, b] = push_bit 16 (ucast a) OR push_bit 8 (ucast b)"
  "chunk_bits [a, b, c] = push_bit 16 (ucast a) OR push_bit 8 (ucast b) OR ucast c"
  by (simp_all add: chunk_bits_def ac_simps)

text \<open>The bits of a group are those of its sextets, put together again.\<close>

lemma whole_group:
  fixes a b c :: u8
  defines "n \<equiv> chunk_bits [a, b, c]"
  shows "tl (be32 (push_bit 6 (push_bit 6 (push_bit 6 (sextet n 0) OR sextet n 1) OR sextet n 2) OR sextet n 3))
    = [a, b, c]"
  unfolding n_def chunk_bits_simps sextet_def be32_def
  by (simp; intro conjI; rule u8_eqI; simp add: bit_simps u8_no_bit)

lemma two_bytes:
  fixes a b :: u8
  defines "n \<equiv> chunk_bits [a, b]"
  shows "be16 (ucast (drop_bit 2 (push_bit 6 (push_bit 6 (sextet n 0) OR sextet n 1) OR sextet n 2))) = [a, b]"
  unfolding n_def chunk_bits_simps sextet_def be16_def
  by (simp; intro conjI; rule u8_eqI; simp add: bit_simps u8_no_bit)

lemma one_byte:
  fixes a :: u8
  defines "n \<equiv> chunk_bits [a]"
  shows "ucast (drop_bit 4 (push_bit 6 (sextet n 0) OR sextet n 1)) = a"
  unfolding n_def chunk_bits_simps sextet_def
  by (rule u8_eqI; simp add: bit_simps u8_no_bit)

subsection \<open>Base64 there and back\<close>

text \<open>The encoding without its padding, and the padding apart.\<close>

definition base64_body :: "bool \<Rightarrow> u8 list \<Rightarrow> u8 list" where
  "base64_body url data =
     concat (map (\<lambda>chunk. map (\<lambda>i. alphabet url ! unat (sextet (chunk_bits chunk) i))
       [0..<length chunk + 1]) (chunks 3 data))"

lemma list_by_three [case_names Nil one two more]:
  assumes "P []" "\<And>a. P [a]" "\<And>a b. P [a, b]" "\<And>a b c xs. P xs \<Longrightarrow> P (a # b # c # xs)"
  shows "P xs"
proof (induction xs rule: length_induct)
  case (1 xs)
  show ?case
  proof (cases xs rule: remdups_adj.cases)
    case (3 a b ys)
    then show ?thesis using 1 assms by (cases ys) auto
  qed (use assms in auto)
qed

lemma chunks_3:
  "chunks 3 [a] = [[a]]" "chunks 3 [a, b] = [[a, b]]"
  "chunks 3 (a # b # c # xs) = [a, b, c] # chunks 3 xs"
  by (simp_all add: chunks.simps [of 3 "[a]"] chunks.simps [of 3 "[a, b]"]
      chunks.simps [of 3 "a # b # c # xs"])

lemma three_more: "Suc (Suc (Suc n)) div 3 = Suc (n div 3)" "Suc (Suc (Suc n)) mod 3 = n mod 3"
  by presburger+

lemma upto_digits: "[0..<Suc (Suc 0)] = [0, 1]" "[0..<Suc (Suc (Suc 0))] = [0, 1, 2]"
  "[0..<Suc (Suc (Suc (Suc 0)))] = [0, 1, 2, 3]"
  by (simp_all add: upt_conv_Cons)

lemma base64_body_simps:
  "base64_body url [] = []"
  "base64_body url [a] = map (\<lambda>i. alphabet url ! unat (sextet (chunk_bits [a]) i)) [0, 1]"
  "base64_body url [a, b] = map (\<lambda>i. alphabet url ! unat (sextet (chunk_bits [a, b]) i)) [0, 1, 2]"
  "base64_body url (a # b # c # xs) =
     map (\<lambda>i. alphabet url ! unat (sextet (chunk_bits [a, b, c]) i)) [0, 1, 2, 3] @ base64_body url xs"
  by (simp_all only: base64_body_def chunks_Nil chunks_3 list.map concat.simps append_Nil2
      list.size add_0 add_Suc_right add_0_right One_nat_def upto_digits)

lemma base64_encode_body:
  "base64_encode url data =
     base64_body url data @ (if url then [] else replicate ((3 - length data mod 3) mod 3) EQ)"
proof (induction data rule: list_by_three)
  case (more a b c xs)
  then show ?case
    by (simp add: base64_encode_def base64_body_def chunks_3 base64_chunk_def sextet_def [symmetric]
        three_more)
qed (simp_all add: base64_encode_def base64_body_def chunks_3 base64_chunk_def sextet_def [symmetric])

lemma base64_body_alphabet: "set (base64_body url data) \<subseteq> set (alphabet url)"
  by (auto simp: base64_body_def intro!: nth_mem less_le_trans [OF sextet_less])

lemma length_base64_body:
  "length (base64_body url data) =
     4 * (length data div 3) + (if length data mod 3 = 0 then 0 else length data mod 3 + 1)"
proof (induction data rule: list_by_three)
  case (more a b c xs)
  then show ?case by (simp add: base64_body_simps three_more div_add_self1)
qed (simp_all add: base64_body_simps)

lemma text_end_body: "text_end (base64_body url data @ replicate k EQ) = length (base64_body url data)"
proof -
  have "dropWhile (\<lambda>c. c = EQ) (rev (base64_body url data)) = rev (base64_body url data)"
    using base64_body_alphabet [of url data] pad_not_in_alphabet [of url]
    by (cases "base64_body url data" rule: rev_cases) auto
  moreover have "dropWhile (\<lambda>c. c = EQ) (replicate k EQ @ ys) = dropWhile (\<lambda>c. c = EQ) ys" for ys
    by (induction k) auto
  ultimately show ?thesis by (simp add: text_end_def)
qed

text \<open>What the decoder makes of the bits left over.\<close>

definition base64_rest :: "u32 \<times> nat \<times> u8 list \<Rightarrow> u8 list option" where
  "base64_rest r = (case r of (n, count, out) \<Rightarrow>
     if count = 0 then Some out
     else if count = 2 then Some (out @ [ucast (drop_bit 4 n)])
     else if count = 3 then Some (out @ be16 (ucast (drop_bit 2 n)))
     else None)"

lemma base64_loop_body:
  "\<exists>r. base64_loop (alphabet url) offset 0 0 out (base64_body url data) = Inr r \<and>
       base64_rest r = Some (out @ data)"
proof (induction data arbitrary: offset out rule: list_by_three)
  case (one a)
  then show ?case
    using one_byte [of a]
    by (simp add: base64_body_simps base64_loop_sextet base64_rest_def Let_def del: base64_loop.simps(2))
next
  case (two a b)
  then show ?case
    using two_bytes [of a b]
    by (simp add: base64_body_simps base64_loop_sextet base64_rest_def Let_def del: base64_loop.simps(2))
next
  case (more a b c xs)
  from more.IH [of "Suc (Suc (Suc (Suc offset)))" "out @ [a, b, c]"] show ?case
    using whole_group [of a b c]
    by (simp add: base64_body_simps base64_loop_sextet Let_def del: base64_loop.simps(2))
qed (simp add: base64_body_simps base64_rest_def)

lemma base64_decode_encode [roundtrips]: "base64_decode (base64_encode url data) url = Inr data"
proof -
  define k where "k = (if url then 0 else (3 - length data mod 3) mod 3)"
  have e: "base64_encode url data = base64_body url data @ replicate k EQ"
    by (simp add: base64_encode_body k_def)
  have m: "length data mod 3 < 3" by simp
  then consider "length data mod 3 = 0" | "length data mod 3 = 1" | "length data mod 3 = 2" by linarith
  then have k: "k \<le> 2" and "0 < k \<longrightarrow> length (base64_body url data) + k = 4 * (length data div 3 + 1)"
    by (cases; simp add: k_def length_base64_body)+
  then have "0 < k \<longrightarrow> (length (base64_body url data) + k) mod 4 = 0"
    by (metis mod_mult_self1_is_0)
  with k have ok: "\<not> (2 < length (base64_encode url data) - text_end (base64_encode url data) \<or>
      text_end (base64_encode url data) < length (base64_encode url data) \<and>
      length (base64_encode url data) mod 4 \<noteq> 0)"
    unfolding e text_end_body by auto
  obtain n count out where r: "base64_loop (alphabet url) 0 0 0 [] (base64_body url data) = Inr (n, count, out)"
    "base64_rest (n, count, out) = Some data"
    using base64_loop_body [of url 0 "[]" data] by auto
  have take: "take (text_end (base64_encode url data)) (base64_encode url data) = base64_body url data"
    unfolding e text_end_body by simp
  show ?thesis
    unfolding base64_decode_def Let_def take r(1) using ok r(2)
    by (auto simp: base64_rest_def split: if_splits)
qed

text \<open>An error names a place of the text.\<close>

lemma base64_loop_error:
  "base64_loop alpha offset n count out cs = Inl k \<Longrightarrow> offset \<le> k \<and> k < offset + length cs"
proof (induction cs arbitrary: offset n count out)
  case (Cons c cs)
  then show ?case by (fastforce simp: Let_def split: option.splits if_splits)
qed simp

lemma text_end_le: "text_end input \<le> length input"
  unfolding text_end_def by (metis length_dropWhile_le length_rev)

lemma base64_decode_error [bounds]: "base64_decode input url = Inl k \<Longrightarrow> k \<le> length input"
  using text_end_le [of input]
  by (auto simp: base64_decode_def Let_def dest!: base64_loop_error split: if_splits sum.splits prod.splits)

subsection \<open>Hexadecimal text\<close>

text \<open>A digit of \<open>{:x}\<close> and of \<open>{:X}\<close>, and \<open>char::to_digit(16)\<close>.\<close>

definition hex_lower :: "nat \<Rightarrow> u8" where
  "hex_lower d = of_nat (if d < 10 then 48 + d else 87 + d)"

definition hex_upper :: "nat \<Rightarrow> u8" where
  "hex_upper d = of_nat (if d < 10 then 48 + d else 55 + d)"

definition to_digit16 :: "u8 \<Rightarrow> nat option" where
  "to_digit16 c =
     (let v = unat c in
      if 48 \<le> v \<and> v \<le> 57 then Some (v - 48)
      else if 97 \<le> v \<and> v \<le> 102 then Some (v - 87)
      else if 65 \<le> v \<and> v \<le> 70 then Some (v - 55)
      else None)"

definition hex_encode :: "u8 list \<Rightarrow> u8 list" where
  "hex_encode data = concat (map (\<lambda>b. [hex_lower (unat b div 16), hex_lower (unat b mod 16)]) data)"

definition hex_pair :: "nat \<Rightarrow> nat \<Rightarrow> u8" where
  "hex_pair high low = ucast (push_bit 4 (of_nat high :: u32) OR of_nat low)"

fun hex_loop :: "nat \<Rightarrow> u8 list \<Rightarrow> u8 list \<Rightarrow> nat + u8 list" where
  "hex_loop offset out [] = Inr out"
| "hex_loop offset out [a] =
     (case to_digit16 a of None \<Rightarrow> Inl offset | Some high \<Rightarrow> Inl (offset + 1))"
| "hex_loop offset out (a # b # cs) =
     (case to_digit16 a of
        None \<Rightarrow> Inl offset
      | Some high \<Rightarrow>
          (case to_digit16 b of
             None \<Rightarrow> Inl (offset + 1)
           | Some low \<Rightarrow> hex_loop (offset + 2) (out @ [hex_pair high low]) cs))"

definition hex_decode :: "u8 list \<Rightarrow> nat + u8 list" where
  "hex_decode input = hex_loop 0 [] input"

lemma hex_digits:
  "list_all (\<lambda>d. to_digit16 (hex_lower d) = Some d \<and> to_digit16 (hex_upper d) = Some d) [0..<16]"
  by code_simp

lemma to_digit16_hex [simp]:
  "d < 16 \<Longrightarrow> to_digit16 (hex_lower d) = Some d" "d < 16 \<Longrightarrow> to_digit16 (hex_upper d) = Some d"
  using hex_digits by (auto simp: list_all_iff)

lemma hex_pairs: "list_all (\<lambda>v. hex_pair (v div 16) (v mod 16) = of_nat v) [0..<256]"
  by code_simp

lemma hex_pair_byte [simp]: "hex_pair (unat b div 16) (unat b mod 16) = b"
proof -
  have "unat b < 256" using unsigned_less [of b] by simp
  then have "hex_pair (unat b div 16) (unat b mod 16) = of_nat (unat b)"
    using hex_pairs by (simp add: list_all_iff)
  then show ?thesis by simp
qed

lemma nibble_less [simp]: "unat (b :: u8) div 16 < 16" "unat (b :: u8) mod 16 < 16"
proof -
  have "unat b < 256" using unsigned_less [of b] by simp
  then show "unat b div 16 < 16" by (simp add: less_mult_imp_div_less)
qed simp

lemma hex_decode_encode [roundtrips]: "hex_decode (hex_encode data) = Inr data"
proof -
  have "hex_loop offset out (hex_encode data) = Inr (out @ data)" for offset out
    by (induction data arbitrary: offset out) (simp_all add: hex_encode_def)
  then show ?thesis by (simp add: hex_decode_def)
qed

lemma hex_loop_error: "hex_loop offset out cs = Inl k \<Longrightarrow> offset \<le> k \<and> k \<le> offset + length cs"
proof (induction offset out cs rule: hex_loop.induct)
  case (3 offset out a b cs)
  then show ?case by (cases "to_digit16 a"; cases "to_digit16 b") fastforce+
qed (auto split: option.splits)

lemma hex_decode_error [bounds]: "hex_decode input = Inl k \<Longrightarrow> k \<le> length input"
  unfolding hex_decode_def by (drule hex_loop_error) simp

subsection \<open>Percent-encoded text\<close>

definition unreserved :: "u8 \<Rightarrow> bool" where
  "unreserved b \<longleftrightarrow>
     (let v = unat b in 48 \<le> v \<and> v \<le> 57 \<or> 65 \<le> v \<and> v \<le> 90 \<or> 97 \<le> v \<and> v \<le> 122) \<or>
     b \<in> set (bytes ''-._~'')"

definition url_encode :: "u8 list \<Rightarrow> u8 list" where
  "url_encode data =
     concat (map (\<lambda>b. if unreserved b then [b]
       else [of_char CHR ''%'', hex_upper (unat b div 16), hex_upper (unat b mod 16)]) data)"

text \<open>
  \<open>u8::from_str_radix(p, 16)\<close>: an optional \<open>+\<close> and digits whose value fits. (A pair of bytes
  that is not UTF-8 holds a byte that is not a digit, and fails here too.)
\<close>

fun radix16_digits :: "nat \<Rightarrow> u8 list \<Rightarrow> nat option" where
  "radix16_digits n [] = Some n"
| "radix16_digits n (c # cs) =
     (case to_digit16 c of
        None \<Rightarrow> None
      | Some d \<Rightarrow> if n * 16 + d < 256 then radix16_digits (n * 16 + d) cs else None)"

definition u8_from_radix16 :: "u8 list \<Rightarrow> u8 option" where
  "u8_from_radix16 p =
     (case p of
        [] \<Rightarrow> None
      | c # cs \<Rightarrow>
          if c = of_char CHR ''+'' then (if cs = [] then None else map_option of_nat (radix16_digits 0 cs))
          else map_option of_nat (radix16_digits 0 p))"

fun url_loop :: "nat \<Rightarrow> nat \<Rightarrow> u8 list \<Rightarrow> u8 list \<Rightarrow> nat + u8 list" where
  "url_loop len offset out [] = Inr out"
| "url_loop len offset out (c # cs) =
     (if c = of_char CHR ''%'' then
        (case cs of
           a # b # r \<Rightarrow>
             (case u8_from_radix16 [a, b] of
                None \<Rightarrow> Inl offset
              | Some v \<Rightarrow> url_loop len (offset + 3) (out @ [v]) r)
         | _ \<Rightarrow> Inl len)
      else url_loop len (offset + 1) (out @ [c]) cs)"

definition url_decode :: "u8 list \<Rightarrow> nat + u8 list" where
  "url_decode input = url_loop (length input) 0 [] input"

lemma percent_reserved [simp]: "\<not> unreserved 37"
  by (simp add: unreserved_def)

lemma hex_upper_not_plus [simp]: "d < 16 \<Longrightarrow> hex_upper d \<noteq> 43"
proof -
  have "list_all (\<lambda>d. hex_upper d \<noteq> 43) [0..<16]" by code_simp
  then show "d < 16 \<Longrightarrow> ?thesis" by (simp add: list_all_iff)
qed

lemma u8_from_radix16_hex [simp]:
  "u8_from_radix16 [hex_upper (unat b div 16), hex_upper (unat b mod 16)] = Some b"
proof -
  have "unat b div 16 * 16 + unat b mod 16 < 256" using unsigned_less [of b] by simp
  moreover have "unat b div 16 < 256" "unat b mod 16 < 256" using nibble_less [of b] by linarith+
  moreover have "hex_upper (unat b div 16) \<noteq> 43" by simp
  ultimately show ?thesis by (simp add: u8_from_radix16_def)
qed

lemma url_decode_encode [roundtrips]: "url_decode (url_encode data) = Inr data"
proof -
  have "url_loop len offset out (url_encode data) = Inr (out @ data)" for len offset out
  proof (induction data arbitrary: offset out)
    case (Cons b data)
    have "b \<noteq> 37" if "unreserved b" using that percent_reserved by metis
    with Cons show ?case by (simp add: url_encode_def)
  qed (simp add: url_encode_def)
  then show ?thesis by (simp add: url_decode_def)
qed

text \<open>Only unreserved characters and \<open>%\<close> appear in encoded text.\<close>

lemma hex_upper_unreserved [simp]: "d < 16 \<Longrightarrow> unreserved (hex_upper d)"
proof -
  have "list_all (\<lambda>d. unreserved (hex_upper d)) [0..<16]" by code_simp
  then show "d < 16 \<Longrightarrow> ?thesis" by (simp add: list_all_iff)
qed

lemma url_encode_safe: "c \<in> set (url_encode data) \<Longrightarrow> unreserved c \<or> c = of_char CHR ''%''"
  by (auto simp: url_encode_def split: if_splits)

lemma url_loop_error:
  "url_loop len offset out cs = Inl k \<Longrightarrow> offset + length cs = len \<Longrightarrow> k \<le> len"
proof (induction len offset out cs rule: url_loop.induct)
  case (2 len offset out c cs)
  show ?case
  proof (cases "c = of_char CHR ''%''")
    case True
    show ?thesis
    proof (cases cs rule: remdups_adj.cases)
      case (3 a b r)
      show ?thesis
      proof (cases "u8_from_radix16 [a, b]")
        case (Some v)
        then show ?thesis using 2(1) [OF True 3 refl Some] "2.prems" True 3 by simp
      qed (use "2.prems" True 3 in auto)
    qed (use "2.prems" True in auto)
  qed (use 2 in auto)
qed simp

lemma url_decode_error [bounds]: "url_decode input = Inl k \<Longrightarrow> k \<le> length input"
  unfolding url_decode_def by (drule url_loop_error) simp_all

text \<open>The sign that \<open>from_str_radix\<close> takes makes \<open>%+5\<close> an encoded byte.\<close>

lemma url_decode_takes_a_sign: "url_decode (bytes ''%+5'') = Inr [5]"
  by (simp add: url_decode_def u8_from_radix16_def to_digit16_def)

subsection \<open>HTML text\<close>

definition html_escape :: "u8 list \<Rightarrow> u8 list" where
  "html_escape s =
     concat (map (\<lambda>b.
       if b = of_char CHR ''&'' then bytes ''&amp;''
       else if b = of_char CHR ''<'' then bytes ''&lt;''
       else if b = of_char CHR ''>'' then bytes ''&gt;''
       else if b = of_char CHR ''\"'' then bytes ''&#34;''
       else if b = 39 then bytes ''&#39;''
       else [b]) s)"

text \<open>What HTML reads of the five references.\<close>

fun html_text :: "u8 list \<Rightarrow> u8 list" where
  "html_text [] = []"
| "html_text (c # cs) =
     (if take 5 (c # cs) = bytes ''&amp;'' then of_char CHR ''&'' # html_text (drop 5 (c # cs))
      else if take 4 (c # cs) = bytes ''&lt;'' then of_char CHR ''<'' # html_text (drop 4 (c # cs))
      else if take 4 (c # cs) = bytes ''&gt;'' then of_char CHR ''>'' # html_text (drop 4 (c # cs))
      else if take 5 (c # cs) = bytes ''&#34;'' then of_char CHR ''\"'' # html_text (drop 5 (c # cs))
      else if take 5 (c # cs) = bytes ''&#39;'' then 39 # html_text (drop 5 (c # cs))
      else c # html_text cs)"

lemma html_text_escape [roundtrips]: "html_text (html_escape s) = s"
  by (induction s) (auto simp: html_escape_def)

lemma html_escape_safe:
  "set (html_escape s) \<inter> {of_char CHR ''<'', of_char CHR ''>'', of_char CHR ''\"'', 39} = {}"
  by (auto simp: html_escape_def split: if_splits)

subsection \<open>Properties\<close>

text \<open>decoding what was encoded gives the bytes back, in Base64 with either alphabet, in
  hexadecimal and in percent-encoded text.\<close>

theorem codecs_roundtrip:
  "base64_decode (base64_encode url data) url = Inr data \<and>
   hex_decode (hex_encode data) = Inr data \<and>
   url_decode (url_encode data) = Inr data"
  by (simp add: roundtrips)

text \<open>where a text is wrong is an offset in the text or its length, in each of the three
  decoders, so the caller's message always names a place that exists.\<close>

theorem codecs_error_offsets:
  assumes "base64_decode input url = Inl k \<or> hex_decode input = Inl k \<or> url_decode input = Inl k"
  shows "k \<le> length input"
  using assms by (auto intro: bounds)

theorem codecs_error_offsets_witness: "hex_decode (bytes ''0g'') = Inl 1 \<and> (1::nat) \<le> length (bytes ''0g'')"
proof -
  have h: "hex_decode (bytes ''0g'') = Inl 1" by (simp add: hex_decode_def to_digit16_def)
  then show ?thesis using codecs_error_offsets [of "bytes ''0g''" False 1] by blast
qed

text \<open>escaped HTML holds none of \<open><\<close>, \<open>>\<close> and the two quotes, and the five references read
  back give the text that was escaped.\<close>

theorem html_escape_is_safe:
  "set (html_escape s) \<inter> {of_char CHR ''<'', of_char CHR ''>'', of_char CHR ''\"'', 39} = {} \<and>
   html_text (html_escape s) = s"
  by (rule conjI [OF html_escape_safe html_text_escape])

end
