(* ===== verification/Csv.thy ===== *)
theory Csv
  imports Prelude
begin

text \<open>
  \<open>csv_record\<close> of \<^verbatim>\<open>crates/tondo-runtime/src/codec.rs\<close>: the fields of one CSV
  record (RFC 4180) that may span lines, or where it is wrong: \<open>Inl None\<close> while a quoted field
  has not ended, \<open>Inl (Some i)\<close> for a scalar out of place. The lemmas relate it to how records
  are written and to the parity of the quotes seen, which is what lets a caller add lines until
  the record is whole.
\<close>

subsection \<open>The reader\<close>

abbreviation QUOTE :: scalar where "QUOTE \<equiv> 34"

record csv =
  done_fields :: "ustr list"
  field :: ustr
  quoted :: bool
  closed :: bool
  start :: bool

fun csv_loop :: "scalar \<Rightarrow> nat \<Rightarrow> csv \<Rightarrow> ustr \<Rightarrow> nat option + ustr list" where
  "csv_loop separator index s [] =
     (if quoted s then Inl None else Inr (done_fields s @ [field s]))"
| "csv_loop separator index s (c # cs) =
     (if quoted s then
        if c \<noteq> QUOTE then csv_loop separator (index + 1) (s\<lparr>field := field s @ [c]\<rparr>) cs
        else
          (case cs of
             d # ds \<Rightarrow>
               if d = QUOTE then csv_loop separator (index + 2) (s\<lparr>field := field s @ [QUOTE]\<rparr>) ds
               else csv_loop separator (index + 1) (s\<lparr>quoted := False, closed := True\<rparr>) cs
           | [] \<Rightarrow> csv_loop separator (index + 1) (s\<lparr>quoted := False, closed := True\<rparr>) cs)
      else if c = separator then
        csv_loop separator (index + 1)
          (s\<lparr>done_fields := done_fields s @ [field s], field := [], closed := False, start := True\<rparr>) cs
      else if c = QUOTE \<and> start s then
        csv_loop separator (index + 1) (s\<lparr>quoted := True, start := False\<rparr>) cs
      else if closed s \<or> c = QUOTE then Inl (Some index)
      else csv_loop separator (index + 1) (s\<lparr>field := field s @ [c], start := False\<rparr>) cs)"

definition csv_start :: csv where
  "csv_start = \<lparr>done_fields = [], field = [], quoted = False, closed = False, start = True\<rparr>"

definition csv_record :: "ustr \<Rightarrow> scalar \<Rightarrow> nat option + ustr list" where
  "csv_record record separator = csv_loop separator 0 csv_start record"

text \<open>\<open>tondo_rt_csv_check\<close>: \<open>-1\<close> for a whole record, \<open>-2\<close> for one that goes on.\<close>

definition csv_check :: "ustr \<Rightarrow> scalar \<Rightarrow> int" where
  "csv_check record separator =
     (case csv_record record separator of
        Inr _ \<Rightarrow> -1
      | Inl None \<Rightarrow> -2
      | Inl (Some index) \<Rightarrow> int index)"

subsection \<open>How records are written\<close>

definition csv_quote :: "ustr \<Rightarrow> ustr" where
  "csv_quote f = QUOTE # concat (map (\<lambda>c. if c = QUOTE then [QUOTE, QUOTE] else [c]) f) @ [QUOTE]"

text \<open>A field with whether it is quoted; only one without separators and quotes may go bare.\<close>

definition csv_field :: "bool \<times> ustr \<Rightarrow> ustr" where
  "csv_field q = (if fst q then csv_quote (snd q) else snd q)"

definition csv_bare_ok :: "scalar \<Rightarrow> bool \<times> ustr \<Rightarrow> bool" where
  "csv_bare_ok separator q \<longleftrightarrow> fst q \<or> separator \<notin> set (snd q) \<and> QUOTE \<notin> set (snd q)"

fun csv_line :: "scalar \<Rightarrow> (bool \<times> ustr) list \<Rightarrow> ustr" where
  "csv_line separator [] = []"
| "csv_line separator [q] = csv_field q"
| "csv_line separator (q # qs) = csv_field q @ separator # csv_line separator qs"

subsection \<open>Reading what was written\<close>

lemma csv_loop_quoted:
  "quoted s \<Longrightarrow>
   csv_loop separator i s (concat (map (\<lambda>c. if c = QUOTE then [QUOTE, QUOTE] else [c]) f) @ QUOTE # rest) =
   csv_loop separator (i + length (concat (map (\<lambda>c. if c = QUOTE then [QUOTE, QUOTE] else [c]) f)))
     (s\<lparr>field := field s @ f\<rparr>) (QUOTE # rest)"
  by (induction f arbitrary: s i) (simp_all del: csv_loop.simps(2) add: csv_loop.simps(2) [where cs = "_ @ _"]
      csv_loop.simps(2) [where cs = "_ # _ @ _"])

lemma csv_loop_bare:
  "\<not> quoted s \<Longrightarrow> \<not> closed s \<Longrightarrow> separator \<notin> set f \<Longrightarrow> QUOTE \<notin> set f \<Longrightarrow>
   csv_loop separator i s (f @ rest) =
   csv_loop separator (i + length f) (s\<lparr>field := field s @ f, start := start s \<and> f = []\<rparr>) rest"
proof (induction f arbitrary: s i)
  case (Cons c f)
  then show ?case by (auto simp: ac_simps)
qed simp

text \<open>After a field comes a separator or the end.\<close>

lemma csv_loop_field:
  assumes s: "\<not> quoted s" "\<not> closed s" "start s" "field s = []"
    and ok: "csv_bare_ok separator q" "separator \<noteq> QUOTE"
    and rest: "rest = [] \<or> (\<exists>r. rest = separator # r)"
  shows "\<exists>s' j. csv_loop separator i s (csv_field q @ rest) = csv_loop separator j s' rest \<and>
    \<not> quoted s' \<and> done_fields s' = done_fields s \<and> field s' = snd q"
proof (cases "fst q")
  case True
  let ?f = "concat (map (\<lambda>c. if c = QUOTE then [QUOTE, QUOTE] else [c]) (snd q))"
  let ?s = "s\<lparr>quoted := True, start := False\<rparr>"
  have "csv_loop separator i s (csv_field q @ rest) =
      csv_loop separator (i + 1 + length ?f) (?s\<lparr>field := field ?s @ snd q\<rparr>) (QUOTE # rest)"
    using True s ok csv_loop_quoted [of ?s separator "i + 1" "snd q" rest]
    by (simp add: csv_field_def csv_quote_def)
  also have "\<dots> = csv_loop separator (i + 1 + length ?f + 1)
      (?s\<lparr>field := snd q, quoted := False, closed := True\<rparr>) rest"
    using rest ok s by (auto split: list.splits)
  finally show ?thesis
    by (intro exI [of _ "?s\<lparr>field := snd q, quoted := False, closed := True\<rparr>"]) auto
next
  case False
  then show ?thesis
    using s ok csv_loop_bare [of s separator "snd q" i rest]
    by (intro exI [of _ "s\<lparr>field := field s @ snd q, start := start s \<and> snd q = []\<rparr>"])
      (auto simp: csv_bare_ok_def csv_field_def)
qed

lemma csv_loop_line:
  assumes "\<not> quoted s" "\<not> closed s" "start s" "field s = []"
    and "list_all (csv_bare_ok separator) qs" "separator \<noteq> QUOTE" "qs \<noteq> []"
  shows "csv_loop separator i s (csv_line separator qs) = Inr (done_fields s @ map snd qs)"
  using assms
proof (induction separator qs arbitrary: s i rule: csv_line.induct)
  case (2 separator q)
  then show ?case
    using csv_loop_field [of s separator q "[]" i] by auto
next
  case (3 separator q q' qs)
  let ?rest = "separator # csv_line separator (q' # qs)"
  obtain s' j where s': "csv_loop separator i s (csv_field q @ ?rest) = csv_loop separator j s' ?rest"
    "\<not> quoted s'" "done_fields s' = done_fields s" "field s' = snd q"
    using csv_loop_field [of s separator q ?rest i] 3 by auto
  then show ?case using 3 by simp
qed simp

subsection \<open>Quotes and whole records\<close>

lemma csv_loop_parity:
  "separator \<noteq> QUOTE \<Longrightarrow>
   (csv_loop separator i s cs = Inl None \<longrightarrow> odd (count_list cs QUOTE + (if quoted s then 1 else 0))) \<and>
   (\<forall>fs. csv_loop separator i s cs = Inr fs \<longrightarrow> even (count_list cs QUOTE + (if quoted s then 1 else 0)))"
proof (induction separator i s cs rule: csv_loop.induct)
  case (2 separator index s c cs)
  then show ?case by (auto split: if_splits list.splits)
qed auto

lemma csv_loop_error:
  "csv_loop separator i s cs = Inl (Some k) \<Longrightarrow> i \<le> k \<and> k < i + length cs"
proof (induction separator i s cs rule: csv_loop.induct)
  case (2 separator index s c cs)
  then show ?case by (auto split: if_splits list.splits dest: Suc_leD)
qed (simp split: if_splits)

subsection \<open>Properties\<close>

text \<open>a record written with any of its fields quoted, and bare only where they hold neither
  the separator nor a quote, reads back as its fields.\<close>

theorem csv_reads_what_is_written:
  assumes "separator \<noteq> QUOTE" and "qs \<noteq> []" and "list_all (csv_bare_ok separator) qs"
  shows "csv_record (csv_line separator qs) separator = Inr (map snd qs)"
  using csv_loop_line [of csv_start separator qs 0] assms
  by (simp add: csv_record_def csv_start_def)

theorem csv_reads_what_is_written_witness:
  "csv_record (csv_line 44 [(True, [97, 44, 34, 10]), (False, [98]), (False, [])]) 44
     = Inr [[97, 44, 34, 10], [98], []]"
  using csv_reads_what_is_written [of 44 "[(True, [97, 44, 34, 10]), (False, [98]), (False, [])]"]
  by (simp add: csv_bare_ok_def)

text \<open>with a separator that is not a quote, a record that the check says goes on holds an odd
  number of quotes, a whole one an even number, and an error is a place of the record.\<close>

theorem csv_check_by_quotes:
  assumes "separator \<noteq> QUOTE"
  shows "(csv_check r separator = -2 \<longrightarrow> odd (count_list r QUOTE)) \<and>
    (csv_check r separator = -1 \<longrightarrow> even (count_list r QUOTE)) \<and>
    csv_check r separator < int (length r)"
  using csv_loop_parity [OF assms, of 0 csv_start r] csv_loop_error [of separator 0 csv_start r]
  by (auto simp: csv_check_def csv_record_def csv_start_def split: sum.splits option.splits)

theorem csv_check_by_quotes_witness: "csv_check [34, 97] 44 = -2 \<and> odd (count_list [34, 97] (34 :: nat))"
proof -
  have "csv_check [34, 97] 44 = -2" by (simp add: csv_check_def csv_record_def csv_start_def)
  then show ?thesis using csv_check_by_quotes [of 44 "[34, 97]"] by simp
qed

end
