(* ===== verification/RandomMix.thy ===== *)
theory RandomMix
  imports Prelude
begin

text \<open>
  The seeded generator of \<^verbatim>\<open>crates/tondo-runtime/src/codec.rs\<close>: the values of the
  SplitMix64 sequence of a seed, and bytes taken from them. Each step of the mixing function
  is a bijection of the 64 bit words, so a sequence does not repeat before its counter does.
\<close>

unbundle bit_operations_syntax

definition random_mix :: "u64 \<Rightarrow> u64 \<Rightarrow> u64" where
  "random_mix seed counter =
     (let z = seed + (counter + 1) * 0x9E3779B97F4A7C15;
          z = (z XOR drop_bit 30 z) * 0xBF58476D1CE4E5B9;
          z = (z XOR drop_bit 27 z) * 0x94D049BB133111EB
      in z XOR drop_bit 31 z)"

definition le64 :: "u64 \<Rightarrow> u8 list" where
  "le64 w = map (\<lambda>i. ucast (drop_bit (8 * i) w)) [0..<8]"

definition random_bytes :: "u64 \<Rightarrow> u64 \<Rightarrow> int \<Rightarrow> u8 list" where
  "random_bytes seed counter count0 =
     (let count = nat (max count0 0) in
      take count (concat (map (\<lambda>i. le64 (random_mix seed (counter + of_nat i)))
        [0..<(count + 7) div 8])))"

subsection \<open>The mixing function is injective\<close>

lemma shifted_self_zero:
  fixes z :: u64
  assumes "z = drop_bit s z" "0 < s"
  shows "z = 0"
proof (rule bit_word_eqI)
  fix n :: nat
  have step: "bit z n = bit z (s + n)" for n
    by (subst assms(1)) (simp add: bit_drop_bit_eq)
  have "\<not> bit z n" for n
  proof (induction "64 - n" arbitrary: n rule: less_induct)
    case less
    show ?case
    proof (cases "n < 64")
      case True
      then have "\<not> bit z (s + n)" using less assms(2) by auto
      then show ?thesis using step by simp
    next
      case False
      then show ?thesis using bit_imp_le_length [of z n] by auto
    qed
  qed
  then show "bit z n = bit (0 :: u64) n" by simp
qed

lemma xor_zero_eq: "a XOR b = 0 \<Longrightarrow> a = b" for a b :: u64
proof (rule bit_word_eqI)
  fix n :: nat
  assume "a XOR b = 0"
  then have "bit (a XOR b) n = bit (0 :: u64) n" by simp
  then show "bit a n = bit b n" by (auto simp: bit_xor_iff)
qed

lemma xorshift_inj:
  fixes x y :: u64
  assumes "x XOR drop_bit s x = y XOR drop_bit s y" "0 < s"
  shows "x = y"
proof -
  have "(x XOR y) XOR drop_bit s (x XOR y) = (x XOR drop_bit s x) XOR (y XOR drop_bit s y)"
    by (simp add: drop_bit_xor ac_simps)
  also have "\<dots> = 0" using assms(1) by simp
  finally have "x XOR y = drop_bit s (x XOR y)" by (rule xor_zero_eq)
  then have "x XOR y = 0" using assms(2) by (rule shifted_self_zero)
  then show ?thesis by (rule xor_zero_eq)
qed

lemma times_inj:
  fixes x y c d :: u64
  assumes "c * d = 1" "x * c = y * c"
  shows "x = y"
proof -
  have "x * c * d = y * c * d" using assms(2) by simp
  then show ?thesis using assms(1) by (simp add: mult.assoc)
qed

lemma odd_inverses:
  "(0x9E3779B97F4A7C15 :: u64) * 17428512612931826493 = 1"
  "(0xBF58476D1CE4E5B9 :: u64) * 10871156337175269513 = 1"
  "(0x94D049BB133111EB :: u64) * 3573116690164977347 = 1"
  by simp_all

lemma random_mix_inj: "random_mix seed i = random_mix seed j \<Longrightarrow> i = j"
  unfolding random_mix_def Let_def
  by (drule xorshift_inj, simp, drule times_inj [OF odd_inverses(3)],
      drule xorshift_inj, simp, drule times_inj [OF odd_inverses(2)],
      drule xorshift_inj, simp, drule add_left_imp_eq, drule times_inj [OF odd_inverses(1)], simp)

subsection \<open>Bytes\<close>

lemma length_le64 [simp]: "length (le64 w) = 8"
  by (simp add: le64_def)

lemma length_le64s [simp]: "length (concat (map (\<lambda>i. le64 (f i)) js)) = 8 * length js"
  by (induction js) simp_all

lemma length_random_bytes: "length (random_bytes seed counter n) = nat n"
proof -
  have "m \<le> 8 * ((m + 7) div 8)" for m :: nat by presburger
  from this [of "nat n"] show ?thesis by (simp add: random_bytes_def Let_def max_def)
qed

lemma map_upt_split: "map g [0..<k + j] = map g [0..<k] @ map (\<lambda>i. g (k + i)) [0..<j]"
  by (rule nth_equalityI) (auto simp: nth_append)

lemma take_whole_values:
  "take (8 * k + m) (concat (map (\<lambda>i. le64 (f i)) [0..<(8 * k + m + 7) div 8])) =
   concat (map (\<lambda>i. le64 (f i)) [0..<k]) @
   take m (concat (map (\<lambda>i. le64 (f (k + i))) [0..<(m + 7) div 8]))"
proof -
  have "(8 * k + m + 7) div 8 = k + (m + 7) div 8"
    using div_mult_self4 [of 8 k "m + 7"] by (simp add: add.assoc)
  then have "concat (map (\<lambda>i. le64 (f i)) [0..<(8 * k + m + 7) div 8]) =
      concat (map (\<lambda>i. le64 (f i)) [0..<k]) @
      concat (map (\<lambda>i. le64 (f (k + i))) [0..<(m + 7) div 8])"
    by (simp add: map_upt_split)
  then show ?thesis by (simp only: take_append length_le64s length_upt) simp
qed

lemma random_bytes_nat:
  "random_bytes seed counter (int n) =
     take n (concat (map (\<lambda>i. le64 (random_mix seed (counter + of_nat i))) [0..<(n + 7) div 8]))"
  by (simp add: random_bytes_def)

subsection \<open>Properties\<close>

text \<open>two counters of a seed never give the same value, and bytes can be drawn in parts: the
  first \<open>8 * k\<close> bytes from a counter and then the rest from the counter \<open>k\<close> further on are the
  bytes drawn at once.\<close>

theorem random_streams:
  "inj (random_mix seed) \<and> length (random_bytes seed counter n) = nat n \<and>
   random_bytes seed counter (int (8 * k + m)) =
     random_bytes seed counter (int (8 * k)) @ random_bytes seed (counter + of_nat k) (int m)"
proof (intro conjI injI)
  show "random_mix seed i = random_mix seed j \<Longrightarrow> i = j" for i j
    by (rule random_mix_inj)
  show "length (random_bytes seed counter n) = nat n" by (rule length_random_bytes)
  show "random_bytes seed counter (int (8 * k + m)) =
     random_bytes seed counter (int (8 * k)) @ random_bytes seed (counter + of_nat k) (int m)"
    using take_whole_values [of k m "\<lambda>i. random_mix seed (counter + of_nat i)"]
    unfolding random_bytes_nat by (simp add: add.assoc)
qed

end
