(* ===== verification/KeyPath.thy ===== *)
theory KeyPath
  imports Prelude
begin

text \<open>
  Paths of keys and indices, as \<^verbatim>\<open>jobs[".setup"].script[0]\<close>, that \<open>find\<close> of
  the formats takes: \<open>path_steps\<close> and \<open>path_key\<close> of
  \<^verbatim>\<open>crates/tondo-runtime/src/codec.rs\<close>. A text is a list of scalars. The lemmas
  show that a path made step by step reads back as its steps, whatever its keys hold.
\<close>

abbreviation DOT :: scalar where "DOT \<equiv> 46"
abbreviation OPEN :: scalar where "OPEN \<equiv> 91"
abbreviation CLOSE :: scalar where "CLOSE \<equiv> 93"
abbreviation QUOT :: scalar where "QUOT \<equiv> 34"
abbreviation BACK :: scalar where "BACK \<equiv> 92"

datatype step = Key ustr | Index nat

subsection \<open>Reading\<close>

text \<open>The key after \<open>["\<close> up to its closing quote, with what \<open>\\<close> stands before taken as it is.\<close>

fun read_quoted :: "ustr \<Rightarrow> (ustr \<times> ustr) option" where
  "read_quoted [] = None"
| "read_quoted (c # cs) =
     (if c = QUOT then Some ([], cs)
      else if c = BACK then
        (case cs of
           [] \<Rightarrow> None
         | d # ds \<Rightarrow> map_option (\<lambda>(key, rest). (d # key, rest)) (read_quoted ds))
      else map_option (\<lambda>(key, rest). (c # key, rest)) (read_quoted cs))"

definition read_index :: "ustr \<Rightarrow> (step \<times> ustr) option" where
  "read_index inner =
     (case position (\<lambda>c. c = CLOSE) inner of
        None \<Rightarrow> None
      | Some e \<Rightarrow>
          if e = 0 \<or> \<not> list_all sc_digit (take e inner) then None
          else if sc_value (take e inner) < 2 ^ 64
            then Some (Index (sc_value (take e inner)), drop (e + 1) inner)
          else None)"

definition read_bare :: "ustr \<Rightarrow> (step \<times> ustr) option" where
  "read_bare rest =
     (let e = (case position (\<lambda>c. c = DOT \<or> c = OPEN) rest of Some e \<Rightarrow> e | None \<Rightarrow> length rest) in
      if e = 0 \<or> CLOSE \<in> set (take e rest) \<or> QUOT \<in> set (take e rest) then None
      else Some (Key (take e rest), drop e rest))"

definition path_step :: "ustr \<Rightarrow> (step \<times> ustr) option" where
  "path_step rest =
     (case rest of
        [] \<Rightarrow> None
      | c # inner \<Rightarrow>
          if c = OPEN then
            (case inner of
               [] \<Rightarrow> read_index inner
             | d # quoted \<Rightarrow>
                 if d = QUOT then
                   (case read_quoted quoted of
                      Some (key, e # after) \<Rightarrow> if e = CLOSE then Some (Key key, after) else None
                    | _ \<Rightarrow> None)
                 else read_index inner)
          else read_bare rest)"

text \<open>A dot after a step has a bare key after it.\<close>

definition path_dot :: "ustr \<Rightarrow> ustr option" where
  "path_dot rest =
     (case rest of
        c # after \<Rightarrow>
          if c = DOT then
            (case after of [] \<Rightarrow> None | d # _ \<Rightarrow> if d = DOT \<or> d = OPEN then None else Some after)
          else Some rest
      | [] \<Rightarrow> Some rest)"

lemma read_quoted_shorter: "read_quoted cs = Some (key, rest) \<Longrightarrow> length rest < length cs"
proof (induction cs arbitrary: key rule: read_quoted.induct)
  case (2 c cs)
  then show ?case by (fastforce split: if_splits list.splits)
qed simp

lemma path_step_shorter: "path_step rest = Some (s, r) \<Longrightarrow> length r < length rest"
  by (auto simp: path_step_def read_index_def read_bare_def Let_def
      dest!: read_quoted_shorter split: list.splits if_splits option.splits)

lemma path_dot_shorter: "path_dot rest = Some r \<Longrightarrow> length r \<le> length rest"
  by (auto simp: path_dot_def split: list.splits if_splits)

function path_loop :: "step list \<Rightarrow> ustr \<Rightarrow> step list option" where
  "path_loop steps rest =
     (if rest = [] then Some steps
      else
        (case path_step rest of
           None \<Rightarrow> None
         | Some (step, after) \<Rightarrow>
             (case path_dot after of
                None \<Rightarrow> None
              | Some rest' \<Rightarrow> path_loop (steps @ [step]) rest')))"
  by pat_completeness auto
termination
  by (relation "measure (\<lambda>(steps, rest). length rest)")
    (auto dest!: path_step_shorter path_dot_shorter)

declare path_loop.simps [simp del]

definition path_steps :: "ustr \<Rightarrow> step list option" where
  "path_steps path = path_loop [] path"

subsection \<open>Writing\<close>

definition escape_key :: "ustr \<Rightarrow> ustr" where
  "escape_key key =
     concat (map (\<lambda>c. if c = QUOT then [BACK, QUOT] else [c])
       (concat (map (\<lambda>c. if c = BACK then [BACK, BACK] else [c]) key)))"

definition plain_key :: "ustr \<Rightarrow> bool" where
  "plain_key key \<longleftrightarrow> key \<noteq> [] \<and> set key \<inter> {DOT, OPEN, CLOSE, QUOT} = {}"

definition path_key :: "ustr \<Rightarrow> ustr \<Rightarrow> ustr" where
  "path_key parent key =
     (if \<not> plain_key key then parent @ [OPEN, QUOT] @ escape_key key @ [QUOT, CLOSE]
      else if parent = [] then key
      else parent @ [DOT] @ key)"

text \<open>An index is written in brackets.\<close>

definition path_index :: "ustr \<Rightarrow> nat \<Rightarrow> ustr" where
  "path_index parent i = parent @ [OPEN] @ lit (dec i) @ [CLOSE]"

fun path_add :: "ustr \<Rightarrow> step \<Rightarrow> ustr" where
  "path_add parent (Key key) = path_key parent key"
| "path_add parent (Index i) = path_index parent i"

definition path_of :: "step list \<Rightarrow> ustr" where
  "path_of steps = foldl path_add [] steps"

subsection \<open>A written path reads back\<close>

lemma escape_key_simps [simp]:
  "escape_key [] = []"
  "escape_key (c # cs) =
     (if c = BACK then [BACK, BACK] else if c = QUOT then [BACK, QUOT] else [c]) @ escape_key cs"
  by (simp_all add: escape_key_def)

lemma read_quoted_escape [simp]: "read_quoted (escape_key key @ QUOT # rest) = Some (key, rest)"
  by (induction key) auto

text \<open>What may follow a step: nothing, an index or quoted key, or a dot and a bare key.\<close>

fun step_end :: "ustr \<Rightarrow> bool" where
  "step_end [] = True"
| "step_end (c # cs) \<longleftrightarrow> c = OPEN \<or> c = DOT \<and> cs \<noteq> [] \<and> hd cs \<noteq> DOT \<and> hd cs \<noteq> OPEN"

lemma position_prefix: "(\<forall>x \<in> set xs. \<not> P x) \<Longrightarrow> P y \<Longrightarrow> position P (xs @ y # ys) = Some (length xs)"
  by (induction xs) auto

lemma read_bare_key:
  assumes "plain_key key" "step_end rest"
  shows "read_bare (key @ rest) = Some (Key key, rest)"
proof (cases rest)
  case Nil
  have "position (\<lambda>c. c = DOT \<or> c = OPEN) key = None"
    using assms(1) by (auto simp: position_None plain_key_def)
  then show ?thesis using assms(1) Nil by (auto simp: read_bare_def plain_key_def)
next
  case (Cons c cs)
  then have "position (\<lambda>c. c = DOT \<or> c = OPEN) (key @ c # cs) = Some (length key)"
    using assms by (intro position_prefix) (auto simp: plain_key_def)
  then show ?thesis using assms(1) Cons by (auto simp: read_bare_def plain_key_def)
qed

lemma path_step_bare:
  assumes "plain_key key" "step_end rest"
  shows "path_step (key @ rest) = Some (Key key, rest)"
  using read_bare_key [OF assms] assms(1)
  by (cases key) (auto simp: path_step_def plain_key_def)

lemma read_index_dec:
  assumes "i < 2 ^ 64"
  shows "read_index (lit (dec i) @ CLOSE # rest) = Some (Index i, rest)"
proof -
  have "\<forall>x \<in> set (lit (dec i)). x \<noteq> CLOSE"
    using lit_dec_digits [of i] by (auto simp: list_all_iff sc_digit_def)
  then have "position (\<lambda>c. c = CLOSE) (lit (dec i) @ CLOSE # rest) = Some (length (lit (dec i)))"
    by (intro position_prefix) auto
  then show ?thesis using assms by (simp add: read_index_def)
qed

lemma path_step_index:
  assumes "i < 2 ^ 64"
  shows "path_step (OPEN # lit (dec i) @ CLOSE # rest) = Some (Index i, rest)"
proof -
  obtain d ds where d: "lit (dec i) = d # ds" by (cases "lit (dec i)") auto
  then have "d \<noteq> QUOT" using lit_dec_digits [of i] by (auto simp: sc_digit_def)
  then show ?thesis using read_index_dec [OF assms, of rest] d by (simp add: path_step_def)
qed

lemma path_step_quoted:
  "path_step (OPEN # QUOT # escape_key key @ QUOT # CLOSE # rest) = Some (Key key, rest)"
  by (simp add: path_step_def)

text \<open>The text of the steps after the first ones.\<close>

fun step_text :: "bool \<Rightarrow> step \<Rightarrow> ustr" where
  "step_text first (Index i) = [OPEN] @ lit (dec i) @ [CLOSE]"
| "step_text first (Key key) =
     (if \<not> plain_key key then [OPEN, QUOT] @ escape_key key @ [QUOT, CLOSE]
      else if first then key else [DOT] @ key)"

fun steps_text :: "bool \<Rightarrow> step list \<Rightarrow> ustr" where
  "steps_text first [] = []"
| "steps_text first (s # ss) = step_text first s @ steps_text False ss"

lemma step_text_not_Nil [simp]: "step_text first s \<noteq> []"
  by (cases s) (auto simp: plain_key_def)

lemma path_add_text: "path_add parent s = parent @ step_text (parent = []) s"
  by (cases s) (auto simp: path_key_def path_index_def)

lemma path_of_text: "foldl path_add parent ss = parent @ steps_text (parent = []) ss"
  by (induction ss arbitrary: parent) (simp_all add: path_add_text)

lemma step_end_steps: "step_end (steps_text False ss)"
proof (cases ss)
  case (Cons s ss')
  then show ?thesis
    by (cases s) (auto simp: plain_key_def neq_Nil_conv)
qed simp

text \<open>Without its leading dot, if it has one, the text of the steps is read by the loop.\<close>

definition undotted :: "ustr \<Rightarrow> ustr" where
  "undotted rest = (case rest of c # after \<Rightarrow> if c = DOT then after else rest | [] \<Rightarrow> rest)"

lemma path_dot_undotted: "step_end rest \<Longrightarrow> path_dot rest = Some (undotted rest)"
  by (cases rest) (auto simp: path_dot_def undotted_def split: list.splits)

lemma undotted_steps: "undotted (steps_text False ss) = steps_text True ss"
proof (cases ss)
  case (Cons s ss')
  then show ?thesis by (cases s) (auto simp: undotted_def)
qed (simp add: undotted_def)

lemma path_step_text:
  assumes "step_end rest" "\<forall>i. s = Index i \<longrightarrow> i < 2 ^ 64"
  shows "path_step (step_text True s @ rest) = Some (s, rest)"
proof (cases s)
  case (Index i)
  then show ?thesis using assms path_step_index [of i rest] by simp
next
  case (Key key)
  then show ?thesis
    using assms path_step_bare [of key rest] path_step_quoted [of key rest] by simp
qed

lemma path_loop_steps:
  assumes "\<forall>i. Index i \<in> set ss \<longrightarrow> i < 2 ^ 64"
  shows "path_loop steps (steps_text True ss) = Some (steps @ ss)"
  using assms
proof (induction ss arbitrary: steps)
  case Nil
  then show ?case by (simp add: path_loop.simps)
next
  case (Cons s ss)
  have "path_step (steps_text True (s # ss)) = Some (s, steps_text False ss)"
    using path_step_text [of "steps_text False ss" s] Cons.prems step_end_steps by auto
  then show ?case
    using Cons path_dot_undotted [OF step_end_steps, of ss]
    by (simp add: path_loop.simps [of steps] undotted_steps del: path_loop.simps)
qed

subsection \<open>Properties\<close>

text \<open>the path made by adding keys with \<open>path_key\<close> and indices below \<open>2^64\<close> in brackets, one
  after another, reads back as those keys and indices.\<close>

theorem path_reads_back:
  assumes "\<forall>i. Index i \<in> set steps \<longrightarrow> i < 2 ^ 64"
  shows "path_steps (path_of steps) = Some steps"
  using path_loop_steps [OF assms, of "[]"] path_of_text [of "[]" steps]
  by (simp add: path_steps_def path_of_def)

theorem path_reads_back_witness:
  "path_steps (path_of [Key (lit ''jobs''), Key (lit ''.setup''), Index 0]) =
     Some [Key (lit ''jobs''), Key (lit ''.setup''), Index 0]"
  by (rule path_reads_back) simp

end
