(* ===== verification/IntTypes.thy ===== *)
theory IntTypes
  imports Prelude
begin

text \<open>
  The integer types of the language, \<open>IntTy\<close> of
  \<^verbatim>\<open>crates/tondo/src/types.rs\<close>. The compiler keeps a constant of any of them
  in an \<open>i128\<close>, here a 128 bit word: its value, except that a \<open>UInt128\<close> keeps its bits.
  \<open>const_value\<close> is what such a word stands for. The lemmas say which words \<open>holds\<close> accepts,
  that \<open>wrap\<close> is arithmetic modulo the width, and what \<open>within\<close> and \<open>numeric_conversion\<close>
  decide about ranges of values.
\<close>

unbundle bit_operations_syntax

datatype int_ty = I8 | I16 | I32 | I64 | U8 | U16 | U32 | U64 | I128 | U128

definition all_int_tys :: "int_ty list" where
  "all_int_tys = [I8, I16, I32, I64, U8, U16, U32, U64, I128, U128]"

subsection \<open>Width, sign and range\<close>

fun bits :: "int_ty \<Rightarrow> nat" where
  "bits I8 = 8" | "bits U8 = 8"
| "bits I16 = 16" | "bits U16 = 16"
| "bits I32 = 32" | "bits U32 = 32"
| "bits I64 = 64" | "bits U64 = 64"
| "bits I128 = 128" | "bits U128 = 128"

definition signed_ty :: "int_ty \<Rightarrow> bool" where
  "signed_ty t \<longleftrightarrow> t \<in> {I8, I16, I32, I64, I128}"

text \<open>\<open>i128::MIN\<close> and \<open>i128::MAX\<close>; \<open>>>\<close> on \<open>i128\<close> is arithmetic, on \<open>u128\<close> logical.\<close>

definition i128_min :: u128 where "i128_min = push_bit 127 1"
definition i128_max :: u128 where "i128_max = NOT (push_bit 127 1)"

definition min_of :: "int_ty \<Rightarrow> u128" where
  "min_of t = (if signed_ty t then signed_drop_bit (128 - bits t) i128_min else 0)"

definition max_of :: "int_ty \<Rightarrow> u128" where
  "max_of t =
     (if signed_ty t then signed_drop_bit (128 - bits t) i128_max else drop_bit (128 - bits t) (- 1))"

definition holds :: "int_ty \<Rightarrow> u128 \<Rightarrow> bool" where
  "holds t value \<longleftrightarrow>
     t = U128 \<or> (sint (min_of t) \<le> sint value \<and> (sint value < 0 \<or> value \<le> max_of t))"

definition holds_from :: "int_ty \<Rightarrow> int_ty \<Rightarrow> u128 \<Rightarrow> bool" where
  "holds_from t from_ty value =
     (if from_ty = U128 \<and> sint value < 0 then t = U128 else holds t value)"

definition wrap :: "int_ty \<Rightarrow> u128 \<Rightarrow> u128" where
  "wrap t b =
     (let unused = 128 - bits t in
      if signed_ty t then signed_drop_bit unused (push_bit unused b)
      else drop_bit unused (push_bit unused b))"

definition within :: "int_ty \<Rightarrow> int_ty \<Rightarrow> bool" where
  "within t other \<longleftrightarrow> sint (min_of other) \<le> sint (min_of t) \<and> max_of t \<le> max_of other"

definition show_int :: "int_ty \<Rightarrow> u128 \<Rightarrow> string" where
  "show_int t value = (if t = U128 then dec (unat value) else dec_int (sint value))"

subsection \<open>Names\<close>

fun name :: "int_ty \<Rightarrow> string" where
  "name I8 = ''Int8''" | "name I16 = ''Int16''" | "name I32 = ''Int32''" | "name I64 = ''Int''"
| "name U8 = ''UInt8''" | "name U16 = ''UInt16''" | "name U32 = ''UInt32''" | "name U64 = ''UInt''"
| "name I128 = ''Int128''" | "name U128 = ''UInt128''"

definition from_name :: "string \<Rightarrow> int_ty option" where
  "from_name s =
     (if s = ''Int'' \<or> s = ''Int64'' then Some I64
      else if s = ''Int8'' then Some I8
      else if s = ''Int16'' then Some I16
      else if s = ''Int32'' then Some I32
      else if s = ''Int128'' then Some I128
      else if s = ''UInt'' \<or> s = ''UInt64'' then Some U64
      else if s = ''UInt8'' then Some U8
      else if s = ''UInt16'' then Some U16
      else if s = ''UInt32'' then Some U32
      else if s = ''UInt128'' then Some U128
      else None)"

definition from_suffix :: "string \<Rightarrow> int_ty" where
  "from_suffix s =
     (if s = ''i8'' then I8 else if s = ''i16'' then I16 else if s = ''i32'' then I32
      else if s = ''i64'' then I64 else if s = ''i128'' then I128 else if s = ''u8'' then U8
      else if s = ''u16'' then U16 else if s = ''u32'' then U32 else if s = ''u128'' then U128
      else U64)"

subsection \<open>What a constant stands for\<close>

definition lowest :: "int_ty \<Rightarrow> int" where
  "lowest t = (if signed_ty t then - (2 ^ (bits t - 1)) else 0)"

definition highest :: "int_ty \<Rightarrow> int" where
  "highest t = (if signed_ty t then 2 ^ (bits t - 1) - 1 else 2 ^ bits t - 1)"

definition const_value :: "int_ty \<Rightarrow> u128 \<Rightarrow> int" where
  "const_value t value = (if t = U128 then uint value else sint value)"

definition in_range :: "int_ty \<Rightarrow> int \<Rightarrow> bool" where
  "in_range t n \<longleftrightarrow> lowest t \<le> n \<and> n \<le> highest t"

lemma min_of_lowest [simp]: "sint (min_of t) = lowest t"
  by (cases t) (simp_all add: min_of_def lowest_def signed_ty_def i128_min_def)

lemma max_of_highest [simp]: "uint (max_of t) = highest t"
  by (cases t)
    (simp_all add: max_of_def highest_def signed_ty_def i128_max_def unsigned_minus_1_eq_mask
      mask_eq_exp_minus_1)

lemma sint_128_cases: "sint (w :: u128) = (if uint w < 2 ^ 127 then uint w else uint w - 2 ^ 128)"
proof -
  have "uint w < 2 ^ 128" "0 \<le> uint w" using uint_bounded [of w] by simp_all
  then show ?thesis
    by (simp add: sint_uint signed_take_bit_eq_take_bit_shift take_bit_eq_mod mod_pos_pos_trivial
        mod_pos_geq)
qed

lemma holds_iff: "holds t v \<longleftrightarrow> in_range t (const_value t v)"
proof -
  have "uint v < 2 ^ 128" "0 \<le> uint v" using uint_bounded [of v] by simp_all
  then show ?thesis
    unfolding holds_def in_range_def const_value_def word_le_def max_of_highest min_of_lowest
    by (cases t; cases "uint v < 2 ^ 127")
      (simp_all add: sint_128_cases [of v] lowest_def highest_def signed_ty_def)
qed

lemma drop_push: "k \<le> 128 \<Longrightarrow> drop_bit (128 - k) (push_bit (128 - k) (b :: u128)) = take_bit k b"
  by (rule bit_word_eqI) (auto simp: bit_simps)

lemma sint_signed_drop_push:
  assumes "0 < k" "k \<le> 128"
  shows "sint (signed_drop_bit (128 - k) (push_bit (128 - k) (b :: u128))) =
    signed_take_bit (k - 1) (sint b)"
proof (rule bit_eqI)
  fix n
  have last: "\<not> k \<le> n \<Longrightarrow> k - Suc 0 \<le> n \<Longrightarrow> n = k - Suc 0" by simp
  show "bit (sint (signed_drop_bit (128 - k) (push_bit (128 - k) b))) n =
      bit (signed_take_bit (k - 1) (sint b)) n"
    using assms last
    by (cases "k = 128"; cases "k \<le> n")
      (auto simp: bit_simps bit_sint_iff min_def bit_signed_drop_bit_iff)
qed

lemma uint_take_bit_128:
  "k \<le> 128 \<Longrightarrow> uint (take_bit k (b :: u128)) = take_bit k (sint b)"
proof (rule bit_eqI)
  fix n :: nat
  assume "k \<le> 128"
  then show "bit (uint (take_bit k b)) n = bit (take_bit k (sint b)) n"
    by (cases "n = 127") (auto simp: bit_simps bit_sint_iff min_def bit_uint_iff)
qed

lemma sint_take_bit_128: "k < 128 \<Longrightarrow> sint (take_bit k (b :: u128)) = take_bit k (sint b)"
  by (rule bit_eqI) (auto simp: bit_simps bit_sint_iff min_def)

lemma bits_bounds [simp, bounds]: "0 < bits t" "bits t \<le> 128" "bits t \<noteq> 0"
  by (cases t; simp)+

lemma const_value_wrap:
  "const_value t (wrap t b) =
     (if signed_ty t then signed_take_bit (bits t - 1) (sint b) else take_bit (bits t) (sint b))"
proof (cases "signed_ty t")
  case True
  then have "t \<noteq> U128" by (auto simp: signed_ty_def)
  with True show ?thesis
    by (simp add: const_value_def wrap_def Let_def sint_signed_drop_push)
next
  case False
  then have "t = U128 \<or> bits t < 128" by (cases t) (simp_all add: signed_ty_def)
  with False show ?thesis
    by (auto simp: const_value_def wrap_def Let_def drop_push uint_take_bit_128 sint_take_bit_128)
qed

lemma signed_take_bit_mod: "0 < k \<Longrightarrow> signed_take_bit (k - 1) n mod 2 ^ k = (n :: int) mod 2 ^ k"
  by (simp only: take_bit_eq_mod [symmetric]) (simp add: take_bit_signed_take_bit)

lemma signed_take_bit_range:
  "0 < k \<Longrightarrow> - (2 ^ (k - 1)) \<le> signed_take_bit (k - 1) (n :: int) \<and> signed_take_bit (k - 1) n \<le> 2 ^ (k - 1) - 1"
  using signed_take_bit_int_less_exp [of "k - 1" n] signed_take_bit_int_greater_eq_minus_exp [of "k - 1" n]
  by auto

lemma const_value_wrap_range: "in_range t (const_value t (wrap t b))"
  using signed_take_bit_range [of "bits t" "sint b"] take_bit_int_less_exp [of "bits t" "sint b"]
  by (auto simp: const_value_wrap in_range_def lowest_def highest_def)

lemma const_value_wrap_mod: "const_value t (wrap t b) mod 2 ^ bits t = sint b mod 2 ^ bits t"
  using signed_take_bit_mod [of "bits t" "sint b"]
  by (simp add: const_value_wrap take_bit_eq_mod)

lemma uint_sint_mod: "uint (b :: u128) = sint b mod 2 ^ 128"
  using uint_take_bit_128 [of 128 b]
  by (simp only: take_bit_eq_mod [symmetric]) (simp add: take_bit_word_eq_self)

lemma const_value_inj: "const_value t v = const_value t w \<Longrightarrow> v = w"
  by (cases "t = U128") (simp_all add: const_value_def word_uint_eqI signed_word_eqI)

lemma const_value_mod: "const_value t b mod 2 ^ bits t = sint b mod 2 ^ bits t"
  by (auto simp: const_value_def uint_sint_mod)

lemma range_mod_eq:
  assumes "in_range t m" "in_range t n" "m mod 2 ^ bits t = n mod 2 ^ bits t"
  shows "m = n"
proof -
  have "highest t - lowest t < 2 ^ bits t"
    by (cases t) (simp_all add: highest_def lowest_def signed_ty_def)
  with assms(1,2) have "\<bar>m - n\<bar> < 2 ^ bits t" by (auto simp: in_range_def)
  moreover have "2 ^ bits t dvd m - n" using assms(3) by (simp add: mod_eq_dvd_iff)
  ultimately show ?thesis using dvd_imp_le_int [of "m - n" "2 ^ bits t"] by fastforce
qed

lemma wrap_in_range: "in_range t (const_value t b) \<Longrightarrow> wrap t b = b"
  by (intro const_value_inj [of t "wrap t b" b] range_mod_eq [of t "const_value t (wrap t b)"])
    (simp_all add: const_value_wrap_range const_value_wrap_mod const_value_mod [of t b] del: One_nat_def)

text \<open>\<open>wrap\<close> gives the constant of the type that is congruent to the number the bits stand
  for modulo two to the width: whatever the bits, the compiler keeps a value of the type, one the
  type \<open>holds\<close>, and a constant is left as it is exactly when the type holds it.\<close>

theorem wrap_is_modular:
  "holds t (wrap t b)
   \<and> const_value t (wrap t b) mod 2 ^ bits t = sint b mod 2 ^ bits t
   \<and> (wrap t b = b \<longleftrightarrow> holds t b)"
  using const_value_wrap_range [of t b] const_value_wrap_mod [of t b] wrap_in_range [of t b]
  by (auto simp: holds_iff)

subsection \<open>Inclusion of ranges and conversions\<close>

lemma within_iff: "within t other \<longleftrightarrow> lowest other \<le> lowest t \<and> highest t \<le> highest other"
  by (simp add: within_def word_le_def)

lemma lowest_le_highest: "lowest t \<le> highest t"
  by (cases t) (simp_all add: lowest_def highest_def signed_ty_def)

lemma within_subset: "within t other \<longleftrightarrow> (\<forall>n. in_range t n \<longrightarrow> in_range other n)"
  using lowest_le_highest [of t] by (auto simp: within_iff in_range_def)

lemma from_name_name: "from_name (name t) = Some t"
  by (cases t) (simp_all add: from_name_def)

text \<open>
  \<open>holds_from\<close>, a constant of one type read as another's. Its last branch takes every negative
  constant of another type for a value of \<open>UInt128\<close>, since \<open>holds\<close> reads the bits there.
\<close>

lemma in_range_U128: "in_range U128 (sint v) \<longleftrightarrow> \<not> sint (v :: u128) < 0"
  using sint_greater_eq [of v] sint_lt [of v]
  by (auto simp: in_range_def lowest_def highest_def signed_ty_def)

lemma in_range_big: "sint (v :: u128) < 0 \<Longrightarrow> in_range t (uint v) \<longleftrightarrow> t = U128"
  using uint_bounded [of v]
  by (cases t) (auto simp: sint_128_cases in_range_def lowest_def highest_def signed_ty_def split: if_splits)

lemma sint_nonneg: "\<not> sint (v :: u128) < 0 \<Longrightarrow> sint v = uint v"
  using uint_bounded [of v] by (auto simp: sint_128_cases split: if_splits)

text \<open>a constant of one type is taken for a value of another exactly when the number it
  stands for is in the other's range, except that every negative constant of a signed type is
  taken for a value of \<open>UInt128\<close>.\<close>

theorem holds_from_decides:
  "holds_from t from_ty v \<longleftrightarrow>
     in_range t (const_value from_ty v) \<or>
     (t = U128 \<and> from_ty \<noteq> U128 \<and> const_value from_ty v < 0)"
proof (cases "sint v < 0")
  case True
  then show ?thesis
    by (auto simp: holds_from_def holds_iff const_value_def in_range_big in_range_U128)
next
  case False
  then show ?thesis
    by (auto simp: holds_from_def holds_iff const_value_def sint_nonneg)
qed

end
