(* ===== verification/ConstFold.thy ===== *)
theory ConstFold
  imports IntTypes
begin

text \<open>
  The folding of constant integer expressions, \<open>fold\<close> of \<^verbatim>\<open>crates/tondo/src/check.rs\<close>:
  it computes on \<open>i128\<close> words, and on \<open>u128\<close> for \<open>UInt128\<close>, what running the
  expression would give. \<open>denote\<close> is the language's meaning of the same expressions, over
  unbounded integers, and the theorem is that the two agree.
\<close>

unbundle bit_operations_syntax

datatype unary_op = Neg | Not | BitNot

datatype bin_op =
  Add | Sub | Mul | Div | Rem | Shl | Shr | BitAnd | BitOr | BitXor
| Eq | Ne | Lt | Le | Gt | Ge | And | Or | Range | RangeInclusive | In

text \<open>
  A \<open>hir::Expr\<close> as \<open>fold\<close> reads it: each node with the integer type that represents its
  type, \<open>as_int(repr(ty))\<close>, if there is one; \<open>EOther\<close> is every other \<open>ExprKind\<close>.
\<close>

datatype expr =
  EInt "int_ty option" u128
| EConvert "int_ty option" expr
| ERetype "int_ty option" expr
| EUnary "int_ty option" unary_op expr
| EBinary "int_ty option" bin_op expr expr
| EOther "int_ty option"

fun ty_of :: "expr \<Rightarrow> int_ty option" where
  "ty_of (EInt t _) = t" | "ty_of (EConvert t _) = t" | "ty_of (ERetype t _) = t"
| "ty_of (EUnary t _ _) = t" | "ty_of (EBinary t _ _ _) = t" | "ty_of (EOther t) = t"

subsection \<open>Checked arithmetic on 128 bits\<close>

definition i128_of :: "int \<Rightarrow> u128 option" where
  "i128_of n = (if - (2 ^ 127) \<le> n \<and> n < 2 ^ 127 then Some (word_of_int n) else None)"

definition u128_of :: "int \<Rightarrow> u128 option" where
  "u128_of n = (if 0 \<le> n \<and> n < 2 ^ 128 then Some (word_of_int n) else None)"

definition no_fit :: string where "no_fit = ''the result does not fit in its type''"
definition div_zero :: string where "div_zero = ''it divides by zero''"
definition bad_shift :: string where "bad_shift = ''the shift count is out of range''"

definition fits :: "int_ty \<Rightarrow> u128 option \<Rightarrow> string + u128" where
  "fits t n = (case n of Some v \<Rightarrow> if holds t v then Inr v else Inl no_fit | None \<Rightarrow> Inl no_fit)"

subsection \<open>The folder\<close>

definition fold_neg :: "int_ty \<Rightarrow> u128 \<Rightarrow> string + u128" where
  "fold_neg ity n =
     (if ity = U128 then fits ity (u128_of (- uint n)) else fits ity (i128_of (- sint n)))"

text \<open>The arms of \<open>match op\<close>; \<open>None\<close> is the early return of the last one.\<close>

definition fold_bin ::
  "int_ty \<Rightarrow> bin_op \<Rightarrow> u128 \<Rightarrow> u128 \<Rightarrow> int_ty option \<Rightarrow> (string + u128) option" where
  "fold_bin ity op a b right_ty =
     (let wide = (ity = U128);
          count = (case right_ty of None \<Rightarrow> sint b
                   | Some ty \<Rightarrow> if ty = U128 \<and> sint b < 0 then - 1 else sint b) in
      case op of
        Add \<Rightarrow> Some (if wide then fits ity (u128_of (uint a + uint b)) else fits ity (i128_of (sint a + sint b)))
      | Sub \<Rightarrow> Some (if wide then fits ity (u128_of (uint a - uint b)) else fits ity (i128_of (sint a - sint b)))
      | Mul \<Rightarrow> Some (if wide then fits ity (u128_of (uint a * uint b)) else fits ity (i128_of (sint a * sint b)))
      | Div \<Rightarrow> Some (if b = 0 then Inl div_zero
                else if wide then fits ity (Some (a div b))
                else fits ity (i128_of (tdiv (sint a) (sint b))))
      | Rem \<Rightarrow> Some (if b = 0 then Inl div_zero
                else if wide then fits ity (Some (a mod b))
                else Inr (if sint a = - (2 ^ 127) \<and> sint b = - 1 then 0
                          else word_of_int (trem (sint a) (sint b))))
      | Shl \<Rightarrow> Some (if count < 0 \<or> int (bits ity) \<le> count then Inl bad_shift
                else Inr (wrap ity (push_bit (nat count) a)))
      | Shr \<Rightarrow> Some (if count < 0 \<or> int (bits ity) \<le> count then Inl bad_shift
                else Inr (if signed_ty ity then signed_drop_bit (nat count) a else drop_bit (nat count) a))
      | BitAnd \<Rightarrow> Some (Inr (a AND b))
      | BitOr \<Rightarrow> Some (Inr (a OR b))
      | BitXor \<Rightarrow> Some (Inr (a XOR b))
      | _ \<Rightarrow> None)"

definition fold_both ::
  "int_ty \<Rightarrow> bin_op \<Rightarrow> int_ty option \<Rightarrow> string + u128 \<Rightarrow> string + u128 \<Rightarrow> (string + u128) option" where
  "fold_both ity op right_ty a b =
     (case a of
        Inl e \<Rightarrow> Some (Inl e)
      | Inr a \<Rightarrow> (case b of Inl e \<Rightarrow> Some (Inl e) | Inr b \<Rightarrow> fold_bin ity op a b right_ty))"

fun fold_expr :: "expr \<Rightarrow> (string + u128) option" where
  "fold_expr (EInt (Some t) n) = Some (Inr n)"
| "fold_expr (EConvert (Some t) inner) = fold_expr inner"
| "fold_expr (ERetype (Some t) inner) = fold_expr inner"
| "fold_expr (EUnary (Some t) Neg inner) =
     (case fold_expr inner of None \<Rightarrow> None
      | Some (Inl e) \<Rightarrow> Some (Inl e) | Some (Inr n) \<Rightarrow> Some (fold_neg t n))"
| "fold_expr (EUnary (Some t) BitNot inner) =
     (case fold_expr inner of None \<Rightarrow> None
      | Some (Inl e) \<Rightarrow> Some (Inl e) | Some (Inr n) \<Rightarrow> Some (Inr (wrap t (NOT n))))"
| "fold_expr (EBinary (Some t) op left right) =
     (case fold_expr left of None \<Rightarrow> None
      | Some a \<Rightarrow> (case fold_expr right of None \<Rightarrow> None
                 | Some b \<Rightarrow> fold_both t op (ty_of right) a b))"
| "fold_expr _ = None"

subsection \<open>The meaning of the expressions\<close>

definition residue :: "int_ty \<Rightarrow> int \<Rightarrow> int" where
  "residue t n = (n - lowest t) mod 2 ^ bits t + lowest t"

definition checked :: "int_ty \<Rightarrow> int \<Rightarrow> string + int" where
  "checked t n = (if in_range t n then Inr n else Inl no_fit)"

definition denote_bin :: "int_ty \<Rightarrow> bin_op \<Rightarrow> int \<Rightarrow> int \<Rightarrow> (string + int) option" where
  "denote_bin t op m n =
     (case op of
        Add \<Rightarrow> Some (checked t (m + n))
      | Sub \<Rightarrow> Some (checked t (m - n))
      | Mul \<Rightarrow> Some (checked t (m * n))
      | Div \<Rightarrow> Some (if n = 0 then Inl div_zero else checked t (tdiv m n))
      | Rem \<Rightarrow> Some (if n = 0 then Inl div_zero else Inr (trem m n))
      | Shl \<Rightarrow> Some (if 0 \<le> n \<and> n < int (bits t) then Inr (residue t (m * 2 ^ nat n)) else Inl bad_shift)
      | Shr \<Rightarrow> Some (if 0 \<le> n \<and> n < int (bits t) then Inr (m div 2 ^ nat n) else Inl bad_shift)
      | BitAnd \<Rightarrow> Some (Inr (m AND n))
      | BitOr \<Rightarrow> Some (Inr (m OR n))
      | BitXor \<Rightarrow> Some (Inr (m XOR n))
      | _ \<Rightarrow> None)"

fun denote :: "expr \<Rightarrow> (string + int) option" where
  "denote (EInt (Some t) v) = Some (Inr (const_value t v))"
| "denote (EConvert (Some t) inner) = denote inner"
| "denote (ERetype (Some t) inner) = denote inner"
| "denote (EUnary (Some t) Neg inner) =
     (case denote inner of None \<Rightarrow> None
      | Some (Inl e) \<Rightarrow> Some (Inl e) | Some (Inr n) \<Rightarrow> Some (checked t (- n)))"
| "denote (EUnary (Some t) BitNot inner) =
     (case denote inner of None \<Rightarrow> None
      | Some (Inl e) \<Rightarrow> Some (Inl e) | Some (Inr n) \<Rightarrow> Some (Inr (residue t (- n - 1))))"
| "denote (EBinary (Some t) op left right) =
     (case denote left of None \<Rightarrow> None
      | Some a \<Rightarrow> (case denote right of None \<Rightarrow> None
                 | Some b \<Rightarrow> (case a of Inl e \<Rightarrow> Some (Inl e)
                           | Inr m \<Rightarrow> (case b of Inl e \<Rightarrow> Some (Inl e)
                                     | Inr n \<Rightarrow> denote_bin t op m n))))"
| "denote _ = None"

text \<open>
  What the checker guarantees of an expression it folds: literals are in range, an operator's
  operands have its type, a shift count any integer type, a conversion goes to a type with every
  value of the other, and a change of type keeps the representation.
\<close>

fun typed :: "expr \<Rightarrow> bool" where
  "typed (EInt t v) = (case t of None \<Rightarrow> True | Some ty \<Rightarrow> holds ty v)"
| "typed (EConvert t e) =
     (typed e \<and> (case (t, ty_of e) of (Some ty, Some s) \<Rightarrow> within s ty | _ \<Rightarrow> True))"
| "typed (ERetype t e) = (typed e \<and> ty_of e = t)"
| "typed (EUnary t op e) = (typed e \<and> ty_of e = t)"
| "typed (EBinary t op l r) =
     (typed l \<and> typed r \<and>
      (t = None \<or> (ty_of l = t \<and> (op = Shl \<or> op = Shr \<or> ty_of r = t))))"
| "typed (EOther t) = True"

subsection \<open>The folder computes the meaning\<close>

abbreviation mean :: "int_ty \<Rightarrow> string + u128 \<Rightarrow> string + int" where
  "mean t r \<equiv> map_sum id (const_value t) r"

lemma const_value_of_int: "in_range t n \<Longrightarrow> const_value t (word_of_int n) = n"
proof -
  assume n: "in_range t n"
  show ?thesis
  proof (cases "t = U128")
    case True
    with n show ?thesis
      by (simp add: const_value_def in_range_def lowest_def highest_def signed_ty_def
          uint_word_of_int mod_pos_pos_trivial)
  next
    case False
    with n have "- (2 ^ 127) \<le> n" "n < 2 ^ 127"
      by (cases t; simp add: in_range_def lowest_def highest_def signed_ty_def)+
    with False show ?thesis
      by (simp add: const_value_def sint_uint uint_word_of_int signed_take_bit_eq_take_bit_shift
          take_bit_eq_mod mod_add_left_eq mod_pos_pos_trivial)
  qed
qed

lemma fits_i128: "t \<noteq> U128 \<Longrightarrow> mean t (fits t (i128_of n)) = checked t n"
proof -
  assume t: "t \<noteq> U128"
  have "in_range t n \<Longrightarrow> - (2 ^ 127) \<le> n \<and> n < 2 ^ 127"
    using t by (cases t; simp add: in_range_def lowest_def highest_def signed_ty_def)
  moreover have "- (2 ^ 127) \<le> n \<Longrightarrow> n < 2 ^ 127 \<Longrightarrow> sint (word_of_int n :: u128) = n"
    using const_value_of_int [of I128 n]
    by (simp add: const_value_def in_range_def lowest_def highest_def signed_ty_def)
  ultimately show ?thesis
    using t by (auto simp: fits_def i128_of_def checked_def holds_iff const_value_def)
qed

lemma fits_u128: "mean U128 (fits U128 (u128_of n)) = checked U128 n"
  using const_value_of_int [of U128 n]
  by (auto simp: fits_def u128_of_def checked_def holds_iff in_range_def lowest_def highest_def
      signed_ty_def)

lemma fits_holds: "fits t n = Inr v \<Longrightarrow> holds t v"
  by (auto simp: fits_def split: option.splits if_splits)

lemma fold_neg_means: "mean t (fold_neg t n) = checked t (- const_value t n)"
  by (simp add: fold_neg_def fits_i128 fits_u128 const_value_def)

lemma residue_range: "in_range t (residue t n)"
proof -
  have "highest t - lowest t + 1 = 2 ^ bits t"
    by (cases t) (simp_all add: highest_def lowest_def signed_ty_def)
  moreover have "0 \<le> (n - lowest t) mod 2 ^ bits t" "(n - lowest t) mod 2 ^ bits t < 2 ^ bits t"
    by simp_all
  ultimately show ?thesis unfolding in_range_def residue_def by linarith
qed

lemma residue_mod: "residue t n mod 2 ^ bits t = n mod 2 ^ bits t"
  by (simp add: residue_def mod_add_left_eq)

lemma const_value_wrap_residue:
  assumes "sint b mod 2 ^ bits t = n mod 2 ^ bits t"
  shows "const_value t (wrap t b) = residue t n"
proof (rule range_mod_eq [OF const_value_wrap_range residue_range])
  show "const_value t (wrap t b) mod 2 ^ bits t = residue t n mod 2 ^ bits t"
    unfolding const_value_wrap_mod residue_mod by (rule assms)
qed

lemma mod_128_bits: "(n :: int) mod 2 ^ 128 mod 2 ^ bits t = n mod 2 ^ bits t"
  by (rule mod_mod_cancel) (rule le_imp_power_dvd [OF bits_bounds(2)])

lemma const_value_uint_mod: "const_value t b mod 2 ^ bits t = uint b mod 2 ^ bits t"
  unfolding const_value_mod [of t b] uint_sint_mod mod_128_bits ..

lemma sint_uint_mod: "sint b mod 2 ^ bits t = uint (b :: u128) mod 2 ^ bits t"
  using const_value_mod [of t b] const_value_uint_mod [of t b] by simp

lemma uint_push_bit: "uint (push_bit c (a :: u128)) = uint a * 2 ^ c mod 2 ^ 128"
proof -
  have "uint (push_bit c a) = take_bit 128 (push_bit c (uint a))"
    by (rule bit_eqI) (auto simp: bit_simps)
  then show ?thesis by (simp only: take_bit_eq_mod push_bit_eq_mult)
qed

lemma uint_drop_bit: "uint (drop_bit c (a :: u128)) = uint a div 2 ^ c"
proof -
  have "uint (drop_bit c a) = drop_bit c (uint a)"
    by (rule bit_eqI) (auto simp: bit_simps)
  then show ?thesis by (simp only: drop_bit_eq_div)
qed

lemma sint_not: "sint (NOT (n :: u128)) = NOT (sint n)"
  by (rule bit_eqI) (auto simp: bit_simps bit_sint_iff min_def)

lemma wrap_not_means: "const_value t (wrap t (NOT n)) = residue t (- const_value t n - 1)"
proof (rule const_value_wrap_residue)
  have "sint (NOT n) = - 1 - sint n"
    unfolding sint_not by (simp add: not_int_def)
  then have "sint (NOT n) mod 2 ^ bits t = (- 1 - sint n) mod 2 ^ bits t" by simp
  also have "\<dots> = (- 1 - const_value t n) mod 2 ^ bits t"
    by (metis const_value_mod mod_diff_right_eq)
  also have "- 1 - const_value t n = - const_value t n - 1" by simp
  finally show "sint (NOT n) mod 2 ^ bits t = (- const_value t n - 1) mod 2 ^ bits t" .
qed

lemma wrap_push_means: "const_value t (wrap t (push_bit c a)) = residue t (const_value t a * 2 ^ c)"
proof (rule const_value_wrap_residue)
  have "sint (push_bit c a) mod 2 ^ bits t = uint (push_bit c a) mod 2 ^ bits t"
    by (rule sint_uint_mod)
  also have "\<dots> = (uint a * 2 ^ c) mod 2 ^ 128 mod 2 ^ bits t"
    by (simp only: uint_push_bit)
  also have "\<dots> = (uint a * 2 ^ c) mod 2 ^ bits t"
    by (rule mod_128_bits)
  also have "\<dots> = (const_value t a * 2 ^ c) mod 2 ^ bits t"
    by (metis const_value_uint_mod mod_mult_left_eq)
  finally show "sint (push_bit c a) mod 2 ^ bits t = (const_value t a * 2 ^ c) mod 2 ^ bits t" .
qed

lemma int_div_le_self: "0 \<le> (n :: int) \<Longrightarrow> n div 2 ^ c \<le> n"
  using zdiv_mono2 [of n 1 "2 ^ c"] by simp

lemma int_le_div_self: "n < 0 \<Longrightarrow> n \<le> (n :: int) div 2 ^ c"
  using zdiv_mono2_neg [of n 1 "2 ^ c"] by simp

lemma holds_unsigned:
  "\<not> signed_ty t \<Longrightarrow> holds t a \<Longrightarrow> const_value t a = uint a"
  using uint_bounded [of a]
  by (cases "t = U128")
    (auto simp: holds_iff in_range_def const_value_def lowest_def sint_128_cases split: if_splits)

lemma unsigned_small: "\<not> signed_ty t \<Longrightarrow> 0 \<le> n \<Longrightarrow> n \<le> m \<Longrightarrow> in_range t m \<Longrightarrow> in_range t n"
  by (auto simp: in_range_def lowest_def)

lemma drop_means:
  assumes "holds t a"
  shows "const_value t (if signed_ty t then signed_drop_bit c a else drop_bit c a) =
    const_value t a div 2 ^ c"
proof (cases "signed_ty t")
  case True
  then show ?thesis
    by (auto simp: const_value_def sint_signed_drop_bit_eq drop_bit_eq_div signed_ty_def)
next
  case False
  with assms have "const_value t a = uint a" by (simp add: holds_unsigned)
  moreover from this have "t \<noteq> U128 \<Longrightarrow> uint a < 2 ^ 127"
    using sint_lt [of a] by (simp add: const_value_def)
  moreover have "uint (drop_bit c a) = uint a div 2 ^ c"
    by (simp only: uint_drop_bit)
  moreover have "uint a div 2 ^ c \<le> uint a" using uint_bounded [of a] by (simp add: int_div_le_self)
  ultimately show ?thesis
    using False by (cases "t = U128") (auto simp: const_value_def sint_128_cases)
qed

lemma range_div: "in_range t m \<Longrightarrow> in_range t (m div 2 ^ c)"
proof -
  assume m: "in_range t m"
  have "lowest t \<le> 0" "0 \<le> highest t"
    by (cases t; simp add: lowest_def highest_def signed_ty_def)+
  moreover have "0 \<le> m \<Longrightarrow> m div 2 ^ c \<le> m \<and> 0 \<le> m div 2 ^ c" 
    by (simp add: int_div_le_self pos_imp_zdiv_nonneg_iff)
  moreover have "m < 0 \<Longrightarrow> m \<le> m div 2 ^ c \<and> m div 2 ^ c < 0"
    by (simp add: int_le_div_self pos_imp_zdiv_neg_iff)
  ultimately show ?thesis using m unfolding in_range_def by (cases "0 \<le> m") auto
qed

lemma wrap_and: "wrap t (a AND b) = wrap t a AND wrap t b"
  by (cases "signed_ty t"; simp add: wrap_def Let_def; rule bit_word_eqI; auto simp: bit_simps)

lemma wrap_or: "wrap t (a OR b) = wrap t a OR wrap t b"
  by (cases "signed_ty t"; simp add: wrap_def Let_def; rule bit_word_eqI; auto simp: bit_simps)

lemma wrap_xor: "wrap t (a XOR b) = wrap t a XOR wrap t b"
  by (cases "signed_ty t"; simp add: wrap_def Let_def; rule bit_word_eqI; auto simp: bit_simps)

lemma holds_wrap: "holds t (wrap t a)"
  by (simp add: holds_iff const_value_wrap_range)

lemma holds_bitwise:
  assumes "holds t a" "holds t b"
  shows "holds t (a AND b)" "holds t (a OR b)" "holds t (a XOR b)"
  using assms wrap_in_range [of t a] wrap_in_range [of t b] holds_wrap [of t "a AND b"]
    holds_wrap [of t "a OR b"] holds_wrap [of t "a XOR b"]
  by (simp_all add: holds_iff wrap_and wrap_or wrap_xor)

lemma const_value_bitwise:
  "const_value t (a AND b) = const_value t a AND const_value t b"
  "const_value t (a OR b) = const_value t a OR const_value t b"
  "const_value t (a XOR b) = const_value t a XOR const_value t b"
  by (cases "t = U128"; simp add: const_value_def; rule bit_eqI;
      auto simp: bit_simps bit_sint_iff min_def)+

lemma trem_sgn: "trem m n = sgn m * (\<bar>m\<bar> mod \<bar>n\<bar>)"
proof -
  have "\<bar>n\<bar> * (\<bar>m\<bar> div \<bar>n\<bar>) + \<bar>m\<bar> mod \<bar>n\<bar> = \<bar>m\<bar>" by simp
  then have "sgn m * \<bar>n\<bar> * (\<bar>m\<bar> div \<bar>n\<bar>) + sgn m * (\<bar>m\<bar> mod \<bar>n\<bar>) = sgn m * \<bar>m\<bar>"
    by (metis mult.assoc ring_class.ring_distribs(1))
  moreover have "n * (sgn m * sgn n * (\<bar>m\<bar> div \<bar>n\<bar>)) = sgn m * (n * sgn n) * (\<bar>m\<bar> div \<bar>n\<bar>)"
    by (simp only: ac_simps)
  moreover have "sgn m * (n * sgn n) * (\<bar>m\<bar> div \<bar>n\<bar>) = sgn m * \<bar>n\<bar> * (\<bar>m\<bar> div \<bar>n\<bar>)"
    by (simp only: abs_sgn [symmetric])
  moreover have "sgn m * \<bar>m\<bar> = m" by (simp add: mult_sgn_abs)
  ultimately show ?thesis unfolding trem_def tdiv_def by linarith
qed

lemma trem_between: "(0 \<le> m \<longrightarrow> 0 \<le> trem m n \<and> trem m n \<le> m) \<and> (m \<le> 0 \<longrightarrow> m \<le> trem m n \<and> trem m n \<le> 0)"
proof -
  have "0 \<le> \<bar>m\<bar> mod \<bar>n\<bar>" "\<bar>m\<bar> mod \<bar>n\<bar> \<le> \<bar>m\<bar>"
    by (cases "n = 0"; simp add: zmod_le_nonneg_dividend)+
  then show ?thesis unfolding trem_sgn by (cases "m = 0"; cases "0 < m"; simp)
qed

lemma range_zero: "lowest t \<le> 0 \<and> 0 \<le> highest t"
  by (cases t; simp add: lowest_def highest_def signed_ty_def)

lemma range_trem: "in_range t m \<Longrightarrow> in_range t (trem m n)"
  using trem_between [of m n] range_zero [of t] unfolding in_range_def
  by (cases "0 \<le> m") auto

lemma const_value_zero: "const_value t b = 0 \<longleftrightarrow> b = 0"
  using const_value_inj [of t b 0] by (auto simp: const_value_def)

lemma uint_pos: "b \<noteq> 0 \<Longrightarrow> 0 < uint (b :: u128)"
proof -
  assume "b \<noteq> 0"
  then have "uint b \<noteq> 0" by (simp add: uint_0_iff)
  then show "0 < uint b" using uint_ge_0 [of b] by linarith
qed

lemma range_U128: "in_range U128 (uint (a :: u128))"
proof -
  have "uint a < 2 ^ 128" using uint_bounded [of a] by simp
  then show ?thesis by (simp add: in_range_def lowest_def highest_def signed_ty_def)
qed

lemma div_means:
  assumes "b \<noteq> 0"
  shows "mean t (if t = U128 then fits t (Some (a div b)) else fits t (i128_of (tdiv (sint a) (sint b)))) =
    checked t (tdiv (const_value t a) (const_value t b))"
proof (cases "t = U128")
  case True
  have "0 < uint b" using assms by (simp add: uint_pos)
  then have "tdiv (uint a) (uint b) = uint (a div b)" by (simp add: uint_div)
  with True show ?thesis
    by (simp add: fits_def checked_def holds_def const_value_def range_U128)
next
  case False
  then show ?thesis by (simp add: fits_i128 const_value_def)
qed

definition rem_word :: "int_ty \<Rightarrow> u128 \<Rightarrow> u128 \<Rightarrow> string + u128" where
  "rem_word t a b =
     (if t = U128 then fits t (Some (a mod b))
      else Inr (if sint a = - (2 ^ 127) \<and> sint b = - 1 then 0 else word_of_int (trem (sint a) (sint b))))"

lemma rem_means:
  assumes "b \<noteq> 0" "holds t a"
  shows "mean t (rem_word t a b) = Inr (trem (const_value t a) (const_value t b))
    \<and> (\<forall>v. rem_word t a b = Inr v \<longrightarrow> holds t v)"
proof (cases "t = U128")
  case True
  have "0 < uint b" using assms by (simp add: uint_pos)
  then have "trem (uint a) (uint b) = uint (a mod b)" by (simp add: uint_mod)
  with True show ?thesis
    by (simp add: rem_word_def fits_def holds_def const_value_def)
next
  case False
  have r: "in_range t (trem (sint a) (sint b))"
    using assms False range_trem [of t "sint a" "sint b"] by (simp add: holds_iff const_value_def)
  have "sint b = - 1 \<Longrightarrow> trem (sint a) (sint b) = 0" by (simp add: trem_sgn)
  then have "rem_word t a b = Inr (word_of_int (trem (sint a) (sint b)))"
    using False by (cases "sint b = - 1") (simp_all add: rem_word_def)
  with False r show ?thesis
    using const_value_of_int [OF r] by (simp add: holds_iff) (simp add: const_value_def)
qed

definition agree :: "int_ty \<Rightarrow> (string + u128) option \<Rightarrow> (string + int) option \<Rightarrow> bool" where
  "agree t x d \<longleftrightarrow> map_option (mean t) x = d \<and> (\<forall>v. x = Some (Inr v) \<longrightarrow> holds t v)"

lemma agree_fits: "mean t (fits t x) = d \<Longrightarrow> agree t (Some (fits t x)) (Some d)"
  by (auto simp: agree_def dest: fits_holds)

lemma shift_count_small: "\<not> (s = U128 \<and> sint b < 0) \<Longrightarrow> const_value s b = sint b"
  using sint_nonneg [of b] by (auto simp: const_value_def)

lemma shift_count_big: "sint b < 0 \<Longrightarrow> \<not> const_value U128 b < int (bits t)"
proof -
  assume "sint b < 0"
  then have "2 ^ 127 \<le> uint b"
    using uint_bounded [of b] by (simp add: sint_128_cases split: if_splits)
  moreover have "int (bits t) \<le> 128" using bits_bounds(2) [of t] by linarith
  moreover have "const_value U128 b = uint b" by (simp add: const_value_def)
  moreover have "(128 :: int) < 2 ^ 127" by simp
  ultimately show ?thesis by linarith
qed

lemma fold_bin_means:
  assumes "holds t a" "holds s b" "op \<noteq> Shl" "op \<noteq> Shr" "s = t"
  shows "agree t (fold_bin t op a b (Some s)) (denote_bin t op (const_value t a) (const_value s b))"
proof (cases op)
  case Div
  then show ?thesis
    using assms div_means [of b t a]
    by (cases "b = 0"; cases "t = U128")
      (auto simp: fold_bin_def denote_bin_def agree_def const_value_zero dest: fits_holds)
next
  case Rem
  then show ?thesis
    using assms rem_means [of b t a]
    by (cases "b = 0")
      (auto simp: fold_bin_def denote_bin_def agree_def const_value_zero rem_word_def)
next
  case BitAnd
  then show ?thesis
    using assms by (simp add: fold_bin_def denote_bin_def agree_def const_value_bitwise holds_bitwise)
next
  case BitOr
  then show ?thesis
    using assms by (simp add: fold_bin_def denote_bin_def agree_def const_value_bitwise holds_bitwise)
next
  case BitXor
  then show ?thesis
    using assms by (simp add: fold_bin_def denote_bin_def agree_def const_value_bitwise holds_bitwise)
qed (use assms in \<open>auto simp: fold_bin_def denote_bin_def agree_def fits_i128 fits_u128
    const_value_def dest: fits_holds\<close>)

lemma fold_shift_in:
  assumes "holds t a" "op = Shl \<or> op = Shr" "0 \<le> n" "n < int (bits t)"
    "count = n"
  shows "agree t
    (Some (if count < 0 \<or> int (bits t) \<le> count then Inl bad_shift
      else Inr (if op = Shl then wrap t (push_bit (nat count) a)
        else if signed_ty t then signed_drop_bit (nat count) a else drop_bit (nat count) a)))
    (denote_bin t op (const_value t a) n)"
proof -
  have "in_range t (const_value t a div 2 ^ k)" for k
    using assms(1) by (simp add: holds_iff range_div)
  with assms(1) drop_means [OF assms(1)]
  have shr: "holds t (if signed_ty t then signed_drop_bit (nat n) a else drop_bit (nat n) a)"
    by (simp only: holds_iff)
  show ?thesis
    using assms(2)
  proof
    assume "op = Shl"
    with assms show ?thesis
      by (simp add: agree_def denote_bin_def wrap_push_means holds_wrap)
  next
    assume "op = Shr"
    with assms shr drop_means [OF assms(1), of "nat n"] show ?thesis
      by (simp only: agree_def denote_bin_def) simp
  qed
qed

lemma fold_bin_shift:
  "op = Shl \<or> op = Shr \<Longrightarrow>
   fold_bin t op a b (Some s) =
     (let count = (if s = U128 \<and> sint b < 0 then - 1 else sint b) in
      Some (if count < 0 \<or> int (bits t) \<le> count then Inl bad_shift
        else Inr (if op = Shl then wrap t (push_bit (nat count) a)
          else if signed_ty t then signed_drop_bit (nat count) a else drop_bit (nat count) a)))"
  by (auto simp: fold_bin_def Let_def)

lemma denote_bin_bad_shift:
  "op = Shl \<or> op = Shr \<Longrightarrow> \<not> (0 \<le> n \<and> n < int (bits t)) \<Longrightarrow> denote_bin t op m n = Some (Inl bad_shift)"
  by (auto simp: denote_bin_def)

lemma fold_shift_means:
  assumes "holds t a" "op = Shl \<or> op = Shr"
  shows "agree t (fold_bin t op a b (Some s)) (denote_bin t op (const_value t a) (const_value s b))"
proof (cases "s = U128 \<and> sint b < 0")
  case True
  then have "\<not> const_value s b < int (bits t)" using shift_count_big by simp
  with True assms(2) show ?thesis
    unfolding fold_bin_shift [OF assms(2)] by (simp add: denote_bin_bad_shift agree_def Let_def)
next
  case False
  then have eq: "const_value s b = sint b" by (rule shift_count_small)
  show ?thesis
  proof (cases "0 \<le> sint b \<and> sint b < int (bits t)")
    case True
    then show ?thesis
      unfolding fold_bin_shift [OF assms(2)] eq Let_def if_not_P [OF False]
      by (intro fold_shift_in assms) auto
  next
    case bad: False
    then show ?thesis
      unfolding fold_bin_shift [OF assms(2)] eq Let_def if_not_P [OF False]
        denote_bin_bad_shift [OF assms(2) bad]
      by (auto simp: agree_def)
  qed
qed

lemma fold_both_means:
  assumes "holds t a" "holds s b" "op = Shl \<or> op = Shr \<or> s = t"
  shows "agree t (fold_bin t op a b (Some s)) (denote_bin t op (const_value t a) (const_value s b))"
  using assms fold_bin_means fold_shift_means by blast

lemma fold_none: "ty_of e = None \<Longrightarrow> fold_expr e = None \<and> denote e = None"
  by (cases e) auto

lemma agree_cases:
  assumes "agree t x d"
  obtains (none) "x = None" "d = None"
  | (err) m where "x = Some (Inl m)" "d = Some (Inl m)"
  | (ok) v where "x = Some (Inr v)" "d = Some (Inr (const_value t v))" "holds t v"
  using assms by (cases x; cases "the x") (auto simp: agree_def)

lemma agree_simps [simp]:
  "agree t None None" "agree t (Some (Inl m)) (Some (Inl m))"
  "agree t (Some (Inr v)) (Some (Inr n)) \<longleftrightarrow> const_value t v = n \<and> holds t v"
  by (auto simp: agree_def)

text \<open>Widening keeps the word and what it stands for.\<close>

lemma agree_within:
  assumes "agree s x d" "within s t"
  shows "agree t x d"
  using assms(1)
proof (cases rule: agree_cases)
  case (ok v)
  then have "in_range t (const_value s v)" using assms(2) by (simp add: within_subset holds_iff)
  moreover have "const_value t v = const_value s v"
  proof (cases "s = t")
    case False
    with assms(2) have "s \<noteq> U128"
      by (cases t) (auto simp: within_iff highest_def lowest_def signed_ty_def)
    moreover have "t = U128 \<Longrightarrow> \<not> sint v < 0"
      using \<open>in_range t (const_value s v)\<close> \<open>s \<noteq> U128\<close> by (simp add: const_value_def in_range_U128)
    ultimately show ?thesis by (auto simp: const_value_def sint_nonneg)
  qed simp
  ultimately show ?thesis using ok by (simp add: holds_iff)
qed simp_all

lemma denote_both:
  "agree t a d \<Longrightarrow> agree s b d' \<Longrightarrow> op = Shl \<or> op = Shr \<or> s = t \<Longrightarrow>
   agree t (case a of None \<Rightarrow> None | Some a \<Rightarrow>
              (case b of None \<Rightarrow> None | Some b \<Rightarrow> fold_both t op (Some s) a b))
     (case d of None \<Rightarrow> None
      | Some a \<Rightarrow> (case d' of None \<Rightarrow> None
                 | Some b \<Rightarrow> (case a of Inl e \<Rightarrow> Some (Inl e)
                           | Inr m \<Rightarrow> (case b of Inl e \<Rightarrow> Some (Inl e)
                                     | Inr n \<Rightarrow> denote_bin t op m n))))"
  by (erule agree_cases; erule agree_cases) (simp_all add: fold_both_def fold_both_means)

lemma agree_neg: "agree t (Some (fold_neg t v)) (Some (checked t (- const_value t v)))"
  using fold_neg_means [of t v] by (auto simp: agree_def fold_neg_def dest: fits_holds)

lemma fold_expr_binary:
  assumes left: "agree t (fold_expr l) (denote l)"
    and right: "\<And>s. ty_of r = Some s \<Longrightarrow> agree s (fold_expr r) (denote r)"
    and op: "op = Shl \<or> op = Shr \<or> ty_of r = Some t"
  shows "agree t (fold_expr (EBinary (Some t) op l r)) (denote (EBinary (Some t) op l r))"
proof (cases "ty_of r")
  case None
  with fold_none [of r] show ?thesis by (auto split: option.splits)
next
  case (Some s)
  have "op = Shl \<or> op = Shr \<or> s = t" using op Some by auto
  then show ?thesis
    unfolding fold_expr.simps denote.simps Some by (intro denote_both left right Some)
qed

lemma fold_expr_agrees: "typed e \<Longrightarrow> ty_of e = Some t \<Longrightarrow> agree t (fold_expr e) (denote e)"
proof (induction e arbitrary: t)
  case (EInt s v)
  then show ?case by simp
next
  case (EConvert s inner)
  then show ?case
    using fold_none [of inner] agree_within by (cases "ty_of inner") auto
next
  case (ERetype s inner)
  then show ?case by simp
next
  case (EUnary s op inner)
  then have "agree t (fold_expr inner) (denote inner)" by simp
  with EUnary.prems show ?case
    by (cases op) (auto elim!: agree_cases simp: agree_neg wrap_not_means holds_wrap)
next
  case (EBinary s op l r)
  then have "s = Some t" by simp
  moreover from EBinary have "agree t (fold_expr l) (denote l)" by simp
  moreover from EBinary have "agree u (fold_expr r) (denote r)" if "ty_of r = Some u" for u
    using that by simp
  ultimately show ?case
    using fold_expr_binary [of t l r op] EBinary.prems by auto
next
  case (EOther s)
  then show ?case by simp
qed

text \<open>C34: folding a constant expression the checker accepted gives what the expression means
  over unbounded integers: a value in the range of its type, the panic the evaluation would raise
  (a result that does not fit, a division by zero, a shift count out of range), or no constant at
  all, in the same cases; shifts and complements keep the low bits, as the operations do.\<close>

theorem fold_computes_the_meaning:
  assumes "typed e" and "ty_of e = Some t"
  shows "map_option (map_sum id (const_value t)) (fold_expr e) = denote e
    \<and> (\<forall>v. fold_expr e = Some (Inr v) \<longrightarrow> holds t v)"
  using fold_expr_agrees [OF assms] by (simp add: agree_def)

theorem fold_computes_the_meaning_witness:
  "let e = EBinary (Some U8) Shl (EUnary (Some U8) BitNot (EInt (Some U8) 5))
             (EConvert (Some I64) (EInt (Some I8) 2))
   in fold_expr e = Some (Inr 232) \<and> denote e = Some (Inr 232)"
proof -
  let ?e = "EBinary (Some U8) Shl (EUnary (Some U8) BitNot (EInt (Some U8) 5))
             (EConvert (Some I64) (EInt (Some I8) 2))"
  have "typed ?e" by (simp add: holds_iff within_iff in_range_def lowest_def highest_def
      signed_ty_def const_value_def)
  moreover have "ty_of ?e = Some U8" by simp
  ultimately have "map_option (map_sum id (const_value U8)) (fold_expr ?e) = denote ?e"
    using fold_computes_the_meaning by blast
  moreover have "fold_expr ?e = Some (Inr 232)"
    by (simp add: fold_both_def fold_bin_def wrap_def signed_ty_def Let_def)
  ultimately show ?thesis by (simp add: Let_def const_value_def)
qed

end
