(* ===== verification/Types.thy ===== *)
theory Types
  imports IntTypes
begin

text \<open>
  The table of types of the compiler, \<open>Types\<close> of \<^verbatim>\<open>crates/tondo/src/types.rs\<close>.
  A \<open>Ty\<close> is an index into the interned kinds, an \<open>AdtId\<close> one into the nominal types. The
  memo tables of the source (\<open>reaches\<close>, \<open>needs_drop\<close>, \<open>can_cycle\<close>) only keep answers and
  are left out; an index out of the table, where the source panics, reads as \<open>TError\<close>.
  The theory \<open>Capabilities\<close> has the questions the compiler asks of this graph.
\<close>

subsection \<open>Kinds of types\<close>

type_synonym ty = nat
type_synonym adt_id = nat

datatype handle =
  Join | Group | Sender | Receiver | Mutex | RwLock | Atomic | Once | SyncArray | SyncMap
| SyncSet | SyncStack | SyncQueue | Semaphore | Permit | Barrier | Guard | File | Writer | Reader
| Buffer | Command | Pipeline | Process | JsonReader | JsonWriter | Clock | Regex | ReflectBox
| Native | Ref | Weak

datatype float_ty = F32 | F64

datatype mode = ByValue | ByRef | ByMut | ByVar

datatype ty_kind =
  TError | TUnit | TNever | TBool | TString
| TInt int_ty | TFloat float_ty | TChar | TByte
| TTuple "ty list" | TAdt adt_id | TOption ty | TResult ty ty
| TArray ty | TDeque ty | TMap ty ty | TSet ty | TUnion "ty list" | TParam nat | TPointer ty
| TFn "ty list" ty bool "mode list" bool | TCFn "ty list" ty bool | TCArray ty nat
| THandle handle ty | TOpaque nat "ty list"

text \<open>\<open>Handle::shared\<close>, \<open>holds\<close>, \<open>collection\<close> and \<open>locked\<close>.\<close>

definition shared :: "handle \<Rightarrow> bool" where
  "shared h \<longleftrightarrow> h \<notin> {Join, Group, Sender, Permit, Guard, File, Process}"

definition handle_holds :: "handle \<Rightarrow> bool" where
  "handle_holds h \<longleftrightarrow> h \<in> {Ref, Mutex, RwLock, Atomic, Once, SyncArray, SyncMap, SyncSet, SyncStack,
     SyncQueue, Sender, Receiver, Join, Group}"

definition collection :: "handle \<Rightarrow> bool" where
  "collection h \<longleftrightarrow> h \<in> {SyncArray, SyncMap, SyncSet, SyncStack, SyncQueue}"

definition locked :: "handle \<Rightarrow> bool" where
  "locked h \<longleftrightarrow> h \<in> {Mutex, RwLock, Atomic, Once, SyncArray, SyncMap, SyncSet, SyncStack, SyncQueue}"

subsection \<open>Nominal types and the table\<close>

record field =
  fname :: string
  fty :: ty
  is_private :: bool
  is_secret :: bool

datatype payload = PUnit | PTuple "ty list" | PRecord "field list"

record variant =
  vname :: string
  vpayload :: payload

datatype adt_kind = Record "field list" | Newtype ty | Enum "variant list"

record adt_def =
  adt_name :: string
  adt_kind :: adt_kind
  adt_instance :: "(nat \<times> ty list) option"
  adt_secret :: bool

record param_def =
  param_name :: string
  equatable :: bool
  key :: bool
  copy :: bool
  param_send :: bool
  param_share :: bool

record c_layout =
  packed :: bool
  align :: nat
  c_union :: bool
  opaque :: bool

record types =
  kinds :: "ty_kind list"
  adts :: "adt_def list"
  params :: "param_def list"
  carriers :: "ty list"
  foreign :: "(adt_id \<times> c_layout) list"

text \<open>\<open>Payload::types\<close>.\<close>

fun payload_types :: "payload \<Rightarrow> ty list" where
  "payload_types PUnit = []"
| "payload_types (PTuple items) = items"
| "payload_types (PRecord fs) = map fty fs"

definition ERROR :: ty where "ERROR = 0"
definition UNIT :: ty where "UNIT = 1"
definition NEVER :: ty where "NEVER = 2"
definition BOOL :: ty where "BOOL = 3"
definition STRING :: ty where "STRING = 4"

text \<open>\<open>Ty::int\<close>: the integers of 8 to 64 bits after \<open>String\<close>, and those of 128 after \<open>Float\<close>.\<close>

definition int_type :: "int_ty \<Rightarrow> ty" where
  "int_type i =
     (case i of I128 \<Rightarrow> 17 | U128 \<Rightarrow> 18
      | _ \<Rightarrow> 5 + the (position (\<lambda>j. j = i) all_int_tys))"

definition kind :: "types \<Rightarrow> ty \<Rightarrow> ty_kind" where
  "kind T ty = (if ty < length (kinds T) then kinds T ! ty else TError)"

definition adt :: "types \<Rightarrow> adt_id \<Rightarrow> adt_kind" where
  "adt T a = (if a < length (adts T) then adt_kind (adts T ! a) else Record [])"

subsection \<open>Interning\<close>

text \<open>
  \<open>Types::intern\<close>; its hash map from kinds to indices is the position of the kind.
  \<open>Types::default\<close> interns the types every program has, in this order.
\<close>

definition intern :: "ty_kind \<Rightarrow> types \<Rightarrow> ty \<times> types" where
  "intern k T =
     (case position (\<lambda>x. x = k) (kinds T) of
        Some ty \<Rightarrow> (ty, T)
      | None \<Rightarrow> (length (kinds T), T\<lparr>kinds := kinds T @ [k]\<rparr>))"

definition default_kinds :: "ty_kind list" where
  "default_kinds = [TError, TUnit, TNever, TBool, TString] @ map TInt (take 8 all_int_tys)
     @ [TChar, TByte, TFloat F32, TFloat F64] @ map TInt [I128, U128]"

definition no_types :: types where
  "no_types = \<lparr>kinds = [], adts = [], params = [], carriers = [], foreign = []\<rparr>"

definition default_types :: types where
  "default_types = fold (\<lambda>k T. snd (intern k T)) default_kinds no_types"

text \<open>\<open>declare_adt\<close> and \<open>define_adt\<close>.\<close>

definition declare_adt :: "string \<Rightarrow> types \<Rightarrow> (adt_id \<times> ty) \<times> types" where
  "declare_adt nm T =
     (let a = length (adts T);
          (ty, T') = intern (TAdt a)
            (T\<lparr>adts := adts T @ [\<lparr>adt_name = nm, adt_kind = Record [], adt_instance = None, adt_secret = False\<rparr>]\<rparr>)
      in ((a, ty), T'))"

definition define_adt :: "adt_id \<Rightarrow> adt_kind \<Rightarrow> types \<Rightarrow> types" where
  "define_adt a k T = T\<lparr>adts := (adts T)[a := (adts T ! a)\<lparr>adt_kind := k\<rparr>]\<rparr>"

subsection \<open>Representation\<close>

text \<open>
  \<open>repr\<close> strips newtypes. The loop of the source ends because a newtype cannot wrap itself;
  the fuel is the number of nominal types, which \<open>repr_done\<close> shows is enough.
\<close>

fun repr_loop :: "nat \<Rightarrow> types \<Rightarrow> ty \<Rightarrow> ty" where
  "repr_loop 0 T ty = ty"
| "repr_loop (Suc n) T ty =
     (case kind T ty of
        TAdt a \<Rightarrow> (case adt T a of Newtype inner \<Rightarrow> repr_loop n T inner | _ \<Rightarrow> ty)
      | _ \<Rightarrow> ty)"

definition repr :: "types \<Rightarrow> ty \<Rightarrow> ty" where
  "repr T ty = repr_loop (length (kinds T)) T ty"

lemma repr_loop_fix: "kind T r = k \<Longrightarrow> (\<And>a. k \<noteq> TAdt a) \<Longrightarrow> repr_loop n T r = r"
  by (cases n) (auto split: ty_kind.splits)

lemma repr_fix: "kind T r = k \<Longrightarrow> (\<And>a. k \<noteq> TAdt a) \<Longrightarrow> repr T r = r"
  by (simp add: repr_def repr_loop_fix)

lemma repr_out: "length (kinds T) \<le> ty \<Longrightarrow> kind T (repr T ty) = TError"
proof -
  assume out: "length (kinds T) \<le> ty"
  then have "kind T ty = TError" by (simp add: kind_def)
  moreover from this have "repr_loop n T ty = ty" for n by (cases n) simp_all
  ultimately show ?thesis by (simp add: repr_def)
qed

definition components :: "types \<Rightarrow> ty \<Rightarrow> ty list option" where
  "components T ty =
     (case kind T (repr T ty) of
        TTuple items \<Rightarrow> Some items
      | TAdt a \<Rightarrow> (case adt T a of Record fs \<Rightarrow> Some (map fty fs) | _ \<Rightarrow> None)
      | _ \<Rightarrow> None)"

definition variants :: "types \<Rightarrow> ty \<Rightarrow> ty list list option" where
  "variants T ty =
     (case kind T (repr T ty) of
        TOption inner \<Rightarrow> Some [[], [inner]]
      | TResult ok err \<Rightarrow> Some [[ok], [err]]
      | TUnion members \<Rightarrow> Some (map (\<lambda>m. [m]) members)
      | TAdt a \<Rightarrow> (case adt T a of Enum vs \<Rightarrow> Some (map (payload_types \<circ> vpayload) vs) | _ \<Rightarrow> None)
      | _ \<Rightarrow> None)"

definition as_int :: "types \<Rightarrow> ty \<Rightarrow> int_ty option" where
  "as_int T ty = (case kind T ty of TInt i \<Rightarrow> Some i | _ \<Rightarrow> None)"

definition tag_ty :: "types \<Rightarrow> ty \<Rightarrow> ty" where
  "tag_ty T ty =
     (let count = (case variants T ty of None \<Rightarrow> 0 | Some v \<Rightarrow> length v) in
      int_type (if count \<le> 256 then U8 else U32))"

text \<open>Every type stored inline in a value of a type.\<close>

definition inline_components :: "types \<Rightarrow> ty \<Rightarrow> ty list" where
  "inline_components T ty =
     (case kind T ty of
        TTuple items \<Rightarrow> items
      | TOption inner \<Rightarrow> [inner]
      | TCArray inner _ \<Rightarrow> [inner]
      | TResult ok err \<Rightarrow> [ok, err]
      | TUnion members \<Rightarrow> members
      | TAdt a \<Rightarrow>
          (case adt T a of
             Record fs \<Rightarrow> map fty fs
           | Newtype inner \<Rightarrow> [inner]
           | Enum vs \<Rightarrow> concat (map (payload_types \<circ> vpayload) vs))
      | _ \<Rightarrow> [])"

subsection \<open>Numeric conversions\<close>

text \<open>
  \<open>numeric_conversion\<close>: \<open>Some True\<close> when the conversion can fail, \<open>None\<close> when there is none.
  \<open>f32::MAX as u128\<close> is the largest \<open>Float32\<close>.
\<close>

definition f32_max :: int where "f32_max = (2 ^ 24 - 1) * 2 ^ 104"

definition num_range :: "types \<Rightarrow> ty \<Rightarrow> (int \<times> int) option" where
  "num_range T ty =
     (case kind T ty of
        TInt i \<Rightarrow> Some (sint (min_of i), uint (max_of i)) | TByte \<Rightarrow> Some (0, 255) | _ \<Rightarrow> None)"

definition is_float :: "types \<Rightarrow> ty \<Rightarrow> bool" where
  "is_float T ty = (case kind T ty of TFloat _ \<Rightarrow> True | _ \<Rightarrow> False)"

definition numeric_conversion :: "types \<Rightarrow> ty \<Rightarrow> ty \<Rightarrow> bool option" where
  "numeric_conversion T from_ty to_ty =
     (case (num_range T from_ty, num_range T to_ty) of
        (Some (from_min, from_max), Some (to_min, to_max)) \<Rightarrow>
          Some (from_min < to_min \<or> to_max < from_max)
      | (Some (_, from_max), None) \<Rightarrow>
          if is_float T to_ty then Some (to_ty = 15 \<and> f32_max < from_max) else None
      | (None, Some _) \<Rightarrow> if is_float T from_ty then Some True else None
      | (None, None) \<Rightarrow>
          if is_float T from_ty \<and> is_float T to_ty then Some (from_ty = 16 \<and> to_ty = 15) else None)"

subsection \<open>Interned kinds are distinct and stay\<close>

lemma intern_kind: "kind (snd (intern k T)) (fst (intern k T)) = k"
  by (auto simp: intern_def kind_def split: option.splits dest: position_SomeD)

lemma intern_keeps: "ty < length (kinds T) \<Longrightarrow> kind (snd (intern k T)) ty = kind T ty"
  by (auto simp: intern_def kind_def nth_append split: option.splits)

lemma intern_distinct: "distinct (kinds T) \<Longrightarrow> distinct (kinds (snd (intern k T)))"
  by (auto simp: intern_def position_None split: option.splits)

end
