(* ===== verification/Graphs.thy ===== *)
theory Graphs
  imports Prelude
begin

text \<open>
  Graphs given by a successor function, as the compiler and the runtime walk them, and the two
  ways they walk: \<open>coinductive_check\<close> is the contract of a recursive question that takes
  itself for granted on the nodes it is visiting, and \<open>closed_walk\<close> that of a set of nodes
  a worklist has collected.
\<close>

definition edges :: "('a \<Rightarrow> 'a list) \<Rightarrow> ('a \<times> 'a) set" where
  "edges succs = {(a, b). b \<in> set (succs a)}"

lemma edges_iff [simp]: "(a, b) \<in> edges succs \<longleftrightarrow> b \<in> set (succs a)"
  by (simp add: edges_def)

subsection \<open>Simple paths\<close>

fun path_from :: "('a \<Rightarrow> 'a list) \<Rightarrow> 'a \<Rightarrow> 'a list \<Rightarrow> bool" where
  "path_from succs a [] = True"
| "path_from succs a (b # rest) = (b \<in> set (succs a) \<and> path_from succs b rest)"

lemma path_from_append:
  "path_from succs a (xs @ ys) \<longleftrightarrow> path_from succs a xs \<and> path_from succs (last (a # xs)) ys"
  by (induction xs arbitrary: a) auto

lemma simple_path:
  assumes "(a, b) \<in> (edges succs)\<^sup>*"
  obtains p where "path_from succs a p" "distinct (a # p)" "last (a # p) = b"
proof -
  have "\<exists>p. path_from succs a p \<and> distinct (a # p) \<and> last (a # p) = b"
    using assms
  proof (induction rule: rtrancl_induct)
    case base
    have "path_from succs a []" "distinct [a]" "last [a] = a" by simp_all
    then show ?case by blast
  next
    case (step b c)
    then obtain p where p: "path_from succs a p" "distinct (a # p)" "last (a # p) = b" by blast
    show ?case
    proof (cases "c \<in> set (a # p)")
      case False
      with p step(2) have "path_from succs a (p @ [c])" "distinct (a # p @ [c])"
        "last (a # p @ [c]) = c" by (auto simp: path_from_append)
      then show ?thesis by blast
    next
      case True
      show ?thesis
      proof (cases "c = a")
        case True
        have "path_from succs a []" "distinct [a]" "last [a] = c" using True by simp_all
        then show ?thesis by blast
      next
        case False
        with True obtain xs ys where "p = xs @ c # ys" by (auto dest: split_list)
        with p have "path_from succs a (xs @ [c])" "distinct (a # xs @ [c])"
          "last (a # xs @ [c]) = c" by (auto simp: path_from_append)
        then show ?thesis by blast
      qed
    qed
  qed
  with that show thesis by blast
qed

text \<open>In a table of \<open>N\<close> nodes only finitely many are reachable.\<close>

lemma finite_reachable:
  assumes "\<And>x. N \<le> x \<Longrightarrow> succs x = []"
  shows "finite {b :: nat. (a, b) \<in> (edges succs)\<^sup>*}"
proof (rule finite_subset)
  show "{b. (a, b) \<in> (edges succs)\<^sup>*} \<subseteq> insert a (\<Union>x < N. set (succs x))"
  proof
    fix b
    assume "b \<in> {b. (a, b) \<in> (edges succs)\<^sup>*}"
    then show "b \<in> insert a (\<Union>x < N. set (succs x))"
    proof (cases "a = b")
      case False
      with \<open>b \<in> _\<close> obtain c where "b \<in> set (succs c)" by (auto elim: rtranclE)
      moreover from this assms have "c < N" by (metis empty_iff empty_set not_less)
      ultimately show ?thesis by blast
    qed simp
  qed
qed simp

text \<open>Without cycles, a relation whose sources are below \<open>N\<close> has no path of more than \<open>N\<close> steps.\<close>

lemma acyclic_path_bound:
  assumes "acyclic r" "\<And>x y. (x, y) \<in> r \<Longrightarrow> x < (N :: nat)"
  shows "(a, b) \<notin> r ^^ Suc N"
proof
  assume "(a, b) \<in> r ^^ Suc N"
  then obtain f where f: "f 0 = a" "f (Suc N) = b" "\<And>i. i < Suc N \<Longrightarrow> (f i, f (Suc i)) \<in> r"
    unfolding relpow_fun_conv by blast
  have later: "(f i, f j) \<in> r\<^sup>+" if "i < j" "j \<le> Suc N" for i j
    using that
  proof (induction j)
    case (Suc j)
    then have "(f j, f (Suc j)) \<in> r" using f(3) by simp
    with Suc show ?case by (cases "i = j") (auto intro: trancl_into_trancl)
  qed simp
  have "inj_on f {..N}"
  proof (rule inj_onI)
    fix i j
    assume "i \<in> {..N}" "j \<in> {..N}" "f i = f j"
    with later [of i j] later [of j i] assms(1) show "i = j"
      by (metis acyclic_def atMost_iff le_Suc_eq linorder_neqE_nat)
  qed
  moreover have "f ` {..N} \<subseteq> {..<N}"
    using f(3) assms(2) by (auto simp: less_Suc_eq_le)
  ultimately have "card {..N} \<le> card {..<N}" by (metis card_inj_on_le finite_lessThan)
  then show False by simp
qed

subsection \<open>Questions answered coinductively\<close>

text \<open>
  \<open>check a V\<close> asks whether \<open>a\<close> has a capability while \<open>V\<close> are being asked: granted to those,
  otherwise \<open>a\<close> itself must be \<open>good\<close> and every successor must have it.
\<close>

locale coinductive_check =
  fixes succs :: "'a \<Rightarrow> 'a list"
    and good :: "'a \<Rightarrow> bool"
    and check :: "'a \<Rightarrow> 'a list \<Rightarrow> bool"
    and scope :: "'a set"
  assumes step: "a \<in> scope \<Longrightarrow>
      check a V \<longleftrightarrow> a \<in> set V \<or> (good a \<and> (\<forall>b \<in> set (succs a). check b (a # V)))"
    and scope_closed: "a \<in> scope \<Longrightarrow> set (succs a) \<subseteq> scope"
    and finite_below: "finite {b. (a, b) \<in> (edges succs)\<^sup>*}"
begin

lemma good_on_path:
  assumes "a \<in> scope" "check a V" "path_from succs a p" "distinct (a # p)" "set (a # p) \<inter> set V = {}"
  shows "good (last (a # p))"
  using assms
proof (induction p arbitrary: a V)
  case Nil
  then show ?case using step [of a V] by auto
next
  case (Cons b p)
  then have "a \<notin> set V" by auto
  with Cons.prems(1,2) step [of a V] have all: "\<forall>c \<in> set (succs a). check c (a # V)" by simp
  have b: "b \<in> set (succs a)" using Cons.prems(3) by simp
  with Cons.prems(1) have "b \<in> scope" using scope_closed by blast
  moreover from b all have "check b (a # V)" by blast
  moreover have "path_from succs b p" using Cons.prems(3) by simp
  moreover have "distinct (b # p)" using Cons.prems(4) by simp
  moreover have "set (b # p) \<inter> set (a # V) = {}" using Cons.prems(4,5) by auto
  ultimately have "good (last (b # p))" by (rule Cons.IH)
  then show ?case by simp
qed

lemma check_if_all_good:
  "a \<in> scope \<Longrightarrow> (\<forall>b. (a, b) \<in> (edges succs)\<^sup>* \<longrightarrow> good b) \<Longrightarrow> check a V"
proof (induction "card ({b. (a, b) \<in> (edges succs)\<^sup>*} - set V)" arbitrary: a V rule: less_induct)
  case less
  show ?case
  proof (cases "a \<in> set V")
    case True
    then show ?thesis using step less.prems(1) by blast
  next
    case False
    have "check b (a # V)" if b: "b \<in> set (succs a)" for b
    proof (rule less.hyps)
      have sub: "{c. (b, c) \<in> (edges succs)\<^sup>*} \<subseteq> {c. (a, c) \<in> (edges succs)\<^sup>*}"
        using b by (auto intro: converse_rtrancl_into_rtrancl)
      then have "{c. (b, c) \<in> (edges succs)\<^sup>*} - set (a # V) \<subset> {c. (a, c) \<in> (edges succs)\<^sup>*} - set V"
        using False by auto
      then show "card ({c. (b, c) \<in> (edges succs)\<^sup>*} - set (a # V))
          < card ({c. (a, c) \<in> (edges succs)\<^sup>*} - set V)"
        using finite_below [of a] by (intro psubset_card_mono) auto
      show "\<forall>c. (b, c) \<in> (edges succs)\<^sup>* \<longrightarrow> good c"
        using less.prems(2) sub by blast
      show "b \<in> scope" using b less.prems(1) scope_closed by blast
    qed
    moreover have "good a" using less.prems(2) by blast
    ultimately show ?thesis using step [of a V] less.prems(1) by blast
  qed
qed

lemma check_iff_all_good:
  assumes "a \<in> scope"
  shows "check a [] \<longleftrightarrow> (edges succs)\<^sup>* `` {a} \<subseteq> Collect good"
proof
  assume "check a []"
  show "(edges succs)\<^sup>* `` {a} \<subseteq> Collect good"
  proof
    fix b
    assume "b \<in> (edges succs)\<^sup>* `` {a}"
    then have "(a, b) \<in> (edges succs)\<^sup>*" by simp
    then obtain p where "path_from succs a p" "distinct (a # p)" "last (a # p) = b"
      by (rule simple_path)
    with good_on_path [OF assms \<open>check a []\<close>] show "b \<in> Collect good" by force
  qed
next
  assume "(edges succs)\<^sup>* `` {a} \<subseteq> Collect good"
  then show "check a []" using check_if_all_good [OF assms] by blast
qed

end

subsection \<open>Sets of nodes collected from a worklist\<close>

text \<open>
  What a finished walk leaves: \<open>found\<close> contains where it started, only what is reachable from
  there, and every successor of its nodes.
\<close>

locale closed_walk =
  fixes succs :: "'a \<Rightarrow> 'a list"
    and start :: "'a set"
    and found :: "'a set"
  assumes starts: "start \<subseteq> found"
    and sound: "found \<subseteq> (edges succs)\<^sup>* `` start"
    and closed: "a \<in> found \<Longrightarrow> set (succs a) \<subseteq> found"
begin

lemma closed_star: "(a, b) \<in> (edges succs)\<^sup>* \<Longrightarrow> a \<in> found \<Longrightarrow> b \<in> found"
  by (induction rule: rtrancl_induct) (use closed in auto)

lemma found_iff: "found = (edges succs)\<^sup>* `` start"
  using starts sound closed_star by auto

end

end
