(* ===== verification/Capabilities.thy ===== *)
theory Capabilities
  imports Types Graphs
begin

text \<open>
  What the compiler asks of the graph of types (\<^verbatim>\<open>crates/tondo/src/types.rs\<close>): the closed
  capabilities \<open>Key\<close>, \<open>Equatable\<close>, \<open>Copy\<close>, \<open>Send\<close> and \<open>Share\<close>, asked recursively with
  the types being asked kept in \<open>visiting\<close>; inline storage, which cycles of nominal types
  cut with boxes; and the types a value can refer to, on which the cycle collector's
  static filter rests.
\<close>

subsection \<open>The recursive questions\<close>

lemma in_table: "kind T (repr T ty) \<noteq> TError \<Longrightarrow> ty < length (kinds T)"
  using repr_out [of T ty] by (cases "ty < length (kinds T)") simp_all

definition unvisited :: "types \<Rightarrow> ty list \<Rightarrow> nat" where
  "unvisited T visiting = card ({..<length (kinds T)} - set visiting)"

lemma unvisited_less:
  "ty \<notin> set visiting \<Longrightarrow> kind T (repr T ty) \<noteq> TError \<Longrightarrow> unvisited T (ty # visiting) < unvisited T visiting"
  unfolding unvisited_def by (rule psubset_card_mono) (auto dest: in_table)

text \<open>
  \<open>key_in\<close>. The last case of the source covers every kind with components or variants and
  answers \<open>False\<close> for the others; \<open>parts\<close> is what it recurses into.
\<close>

definition parts :: "types \<Rightarrow> ty \<Rightarrow> ty list option" where
  "parts T ty =
     (case (components T ty, variants T ty) of
        (Some items, _) \<Rightarrow> Some items
      | (None, Some vs) \<Rightarrow> Some (concat vs)
      | (None, None) \<Rightarrow> None)"

function key_in :: "types \<Rightarrow> ty \<Rightarrow> ty list \<Rightarrow> bool" where
  "key_in T ty visiting =
     (if ty \<in> set visiting then True
      else
        (let V = ty # visiting; r = repr T ty in
         case kind T r of
           TInt _ \<Rightarrow> True | TChar \<Rightarrow> True | TByte \<Rightarrow> True | TBool \<Rightarrow> True | TString \<Rightarrow> True
         | TUnit \<Rightarrow> True | TNever \<Rightarrow> True | TError \<Rightarrow> True
         | THandle h _ \<Rightarrow> h = Ref
         | TFloat _ \<Rightarrow> False | TArray _ \<Rightarrow> False | TDeque _ \<Rightarrow> False | TMap _ _ \<Rightarrow> False
         | TSet _ \<Rightarrow> False | TFn _ _ _ _ _ \<Rightarrow> False | TCFn _ _ _ \<Rightarrow> False
         | TParam i \<Rightarrow> key (params T ! i)
         | TOpaque i _ \<Rightarrow> key_in T (carriers T ! i) V
         | _ \<Rightarrow> (case parts T r of Some items \<Rightarrow> \<forall>t \<in> set items. key_in T t V | None \<Rightarrow> False)))"
  by pat_completeness auto
termination
  by (relation "measure (\<lambda>(T, ty, visiting). unvisited T visiting)") (auto intro: unvisited_less)

definition foreign_union :: "types \<Rightarrow> adt_id \<Rightarrow> bool" where
  "foreign_union T a = (case map_of (foreign T) a of Some l \<Rightarrow> c_union l | None \<Rightarrow> False)"

function equatable_in :: "types \<Rightarrow> ty \<Rightarrow> ty list \<Rightarrow> bool" where
  "equatable_in T ty visiting =
     (if ty \<in> set visiting then True
      else
        (let V = ty # visiting; r = repr T ty;
             rest = (\<lambda>ask. case parts T r of Some items \<Rightarrow> \<forall>t \<in> set items. ask t | None \<Rightarrow> False) in
         case kind T r of
           TInt _ \<Rightarrow> True | TFloat _ \<Rightarrow> True | TChar \<Rightarrow> True | TByte \<Rightarrow> True | TBool \<Rightarrow> True
         | TString \<Rightarrow> True | TUnit \<Rightarrow> True | TNever \<Rightarrow> True | TError \<Rightarrow> True
         | TArray e \<Rightarrow> equatable_in T e V | TDeque e \<Rightarrow> equatable_in T e V | TSet e \<Rightarrow> equatable_in T e V
         | TMap k v \<Rightarrow> equatable_in T k V \<and> equatable_in T v V
         | TParam i \<Rightarrow> equatable (params T ! i) \<or> key (params T ! i)
         | THandle h _ \<Rightarrow> h = Ref
         | TFn _ _ _ _ _ \<Rightarrow> False | TCFn _ _ _ \<Rightarrow> False | TCArray _ _ \<Rightarrow> False
         | TOpaque i _ \<Rightarrow> equatable_in T (carriers T ! i) V
         | TAdt a \<Rightarrow> \<not> foreign_union T a \<and> rest (\<lambda>t. equatable_in T t V)
         | _ \<Rightarrow> rest (\<lambda>t. equatable_in T t V)))"
  by pat_completeness auto
termination
  by (relation "measure (\<lambda>(T, ty, visiting). unvisited T visiting)") (auto intro: unvisited_less)

text \<open>\<open>copy_in\<close>: the parts a composite is copied with, or the answer of a type that has none.\<close>

definition copy_parts :: "types \<Rightarrow> ty \<Rightarrow> bool + ty list" where
  "copy_parts T r =
     (case kind T r of
        TParam i \<Rightarrow> Inl (copy (params T ! i))
      | THandle h _ \<Rightarrow> if shared h then Inr [] else Inl False
      | TOpaque i _ \<Rightarrow> Inr [carriers T ! i]
      | TPointer _ \<Rightarrow> Inr [] | TCFn _ _ _ \<Rightarrow> Inr []
      | TArray t \<Rightarrow> Inr [t] | TDeque t \<Rightarrow> Inr [t] | TSet t \<Rightarrow> Inr [t] | TOption t \<Rightarrow> Inr [t]
      | TCArray t _ \<Rightarrow> Inr [t]
      | TMap a b \<Rightarrow> Inr [a, b] | TResult a b \<Rightarrow> Inr [a, b]
      | TTuple items \<Rightarrow> Inr items | TUnion items \<Rightarrow> Inr items
      | _ \<Rightarrow> Inr (case parts T r of Some items \<Rightarrow> items | None \<Rightarrow> []))"

lemma parts_out: "kind T (repr T r) = TError \<Longrightarrow> parts T r = None"
  by (simp add: parts_def components_def variants_def)

lemma copy_parts_in_table:
  "copy_parts T (repr T ty) = Inr items \<Longrightarrow> t \<in> set items \<Longrightarrow> kind T (repr T ty) \<noteq> TError"
  using repr_fix [of T "repr T ty" TError]
  by (auto simp: copy_parts_def parts_out)

function copy_in :: "types \<Rightarrow> ty \<Rightarrow> ty list \<Rightarrow> bool" where
  "copy_in T ty visiting =
     (if ty \<in> set visiting then True
      else
        (case copy_parts T (repr T ty) of
           Inl answer \<Rightarrow> answer
         | Inr items \<Rightarrow> \<forall>t \<in> set items. copy_in T t (ty # visiting)))"
  by pat_completeness auto
termination
  by (relation "measure (\<lambda>(T, ty, visiting). unvisited T visiting)")
    (auto intro: unvisited_less dest: copy_parts_in_table)

text \<open>\<open>capable\<close>, for \<open>Send\<close> and, with \<open>share\<close>, for \<open>Share\<close>. A \<open>Ref\<close> asks both of its value.\<close>

datatype cap_parts = Answer bool | Both ty | Parts "ty list"

definition capable_parts :: "types \<Rightarrow> ty \<Rightarrow> bool \<Rightarrow> cap_parts" where
  "capable_parts T r share =
     (case kind T r of
        TPointer _ \<Rightarrow> Answer False
      | THandle h v \<Rightarrow>
          if share \<and> (h = Join \<or> h = Group) then Answer False
          else if h = Ref then Both v
          else if h = Join \<or> h = Group \<or> h = Sender \<or> h = Receiver then Parts [v]
          else Parts []
      | TFn _ _ _ _ _ \<Rightarrow> Parts [] | TCFn _ _ _ \<Rightarrow> Parts [] | TParam _ \<Rightarrow> Parts []
      | TOpaque i _ \<Rightarrow> Parts [carriers T ! i]
      | TArray t \<Rightarrow> Parts [t] | TDeque t \<Rightarrow> Parts [t] | TSet t \<Rightarrow> Parts [t] | TOption t \<Rightarrow> Parts [t]
      | TCArray t _ \<Rightarrow> Parts [t]
      | TMap a b \<Rightarrow> Parts [a, b] | TResult a b \<Rightarrow> Parts [a, b]
      | TTuple items \<Rightarrow> Parts items | TUnion items \<Rightarrow> Parts items
      | _ \<Rightarrow> Parts (case parts T r of Some items \<Rightarrow> items | None \<Rightarrow> []))"

lemma capable_parts_in_table:
  "capable_parts T (repr T ty) share = Parts items \<Longrightarrow> t \<in> set items \<Longrightarrow> kind T (repr T ty) \<noteq> TError"
  "capable_parts T (repr T ty) share = Both t \<Longrightarrow> kind T (repr T ty) \<noteq> TError"
  using repr_fix [of T "repr T ty" TError]
  by (auto simp: capable_parts_def parts_out)

function capable :: "types \<Rightarrow> ty \<Rightarrow> bool \<Rightarrow> ty list \<Rightarrow> bool" where
  "capable T ty share visiting =
     (if ty \<in> set visiting then True
      else
        (case capable_parts T (repr T ty) share of
           Answer answer \<Rightarrow> answer
         | Both v \<Rightarrow> capable T v False (ty # visiting) \<and> capable T v True (ty # visiting)
         | Parts items \<Rightarrow> \<forall>t \<in> set items. capable T t share (ty # visiting)))"
  by pat_completeness auto
termination
  by (relation "measure (\<lambda>(T, ty, share, visiting). unvisited T visiting)")
    (auto intro: unvisited_less dest: capable_parts_in_table)

declare key_in.simps [simp del] equatable_in.simps [simp del] copy_in.simps [simp del]
  capable.simps [simp del]

definition is_key :: "types \<Rightarrow> ty \<Rightarrow> bool" where "is_key T ty = key_in T ty []"
definition is_equatable :: "types \<Rightarrow> ty \<Rightarrow> bool" where "is_equatable T ty = equatable_in T ty []"
definition is_copy :: "types \<Rightarrow> ty \<Rightarrow> bool" where "is_copy T ty = copy_in T ty []"
definition is_send :: "types \<Rightarrow> ty \<Rightarrow> bool" where "is_send T ty = capable T ty False []"
definition is_share :: "types \<Rightarrow> ty \<Rightarrow> bool" where "is_share T ty = capable T ty True []"

subsection \<open>What the questions mean\<close>

text \<open>
  A capability is coinductive: a type has it when every type it is made of, however deep, is one
  that may have it. Each question is a \<open>coinductive_check\<close> of this reading.
\<close>

abbreviation part_list :: "types \<Rightarrow> ty \<Rightarrow> ty list" where
  "part_list T r \<equiv> (case parts T r of Some items \<Rightarrow> items | None \<Rightarrow> [])"

definition key_succs :: "types \<Rightarrow> ty \<Rightarrow> ty list" where
  "key_succs T ty = (case kind T (repr T ty) of TOpaque i _ \<Rightarrow> [carriers T ! i] | _ \<Rightarrow> part_list T (repr T ty))"

definition key_good :: "types \<Rightarrow> ty \<Rightarrow> bool" where
  "key_good T ty =
     (case kind T (repr T ty) of
        TInt _ \<Rightarrow> True | TChar \<Rightarrow> True | TByte \<Rightarrow> True | TBool \<Rightarrow> True | TString \<Rightarrow> True
      | TUnit \<Rightarrow> True | TNever \<Rightarrow> True | TError \<Rightarrow> True
      | THandle h _ \<Rightarrow> h = Ref | TParam i \<Rightarrow> key (params T ! i) | TOpaque _ _ \<Rightarrow> True
      | _ \<Rightarrow> parts T (repr T ty) \<noteq> None)"

definition equatable_succs :: "types \<Rightarrow> ty \<Rightarrow> ty list" where
  "equatable_succs T ty =
     (case kind T (repr T ty) of
        TArray e \<Rightarrow> [e] | TDeque e \<Rightarrow> [e] | TSet e \<Rightarrow> [e] | TMap k v \<Rightarrow> [k, v]
      | TOpaque i _ \<Rightarrow> [carriers T ! i] | _ \<Rightarrow> part_list T (repr T ty))"

definition equatable_good :: "types \<Rightarrow> ty \<Rightarrow> bool" where
  "equatable_good T ty =
     (case kind T (repr T ty) of
        TInt _ \<Rightarrow> True | TFloat _ \<Rightarrow> True | TChar \<Rightarrow> True | TByte \<Rightarrow> True | TBool \<Rightarrow> True
      | TString \<Rightarrow> True | TUnit \<Rightarrow> True | TNever \<Rightarrow> True | TError \<Rightarrow> True
      | TArray _ \<Rightarrow> True | TDeque _ \<Rightarrow> True | TSet _ \<Rightarrow> True | TMap _ _ \<Rightarrow> True
      | TParam i \<Rightarrow> equatable (params T ! i) \<or> key (params T ! i)
      | THandle h _ \<Rightarrow> h = Ref | TOpaque _ _ \<Rightarrow> True
      | TAdt a \<Rightarrow> \<not> foreign_union T a \<and> parts T (repr T ty) \<noteq> None
      | _ \<Rightarrow> parts T (repr T ty) \<noteq> None)"

definition copy_succs :: "types \<Rightarrow> ty \<Rightarrow> ty list" where
  "copy_succs T ty = (case copy_parts T (repr T ty) of Inl _ \<Rightarrow> [] | Inr items \<Rightarrow> items)"

definition copy_good :: "types \<Rightarrow> ty \<Rightarrow> bool" where
  "copy_good T ty = (case copy_parts T (repr T ty) of Inl answer \<Rightarrow> answer | Inr _ \<Rightarrow> True)"

text \<open>
  For \<open>Send\<close> and \<open>Share\<close> the reading is of types with no \<open>Ref\<close> below them: a \<open>Ref\<close> asks
  both questions with one list of visited types.
\<close>

definition capable_succs :: "types \<Rightarrow> bool \<Rightarrow> ty \<Rightarrow> ty list" where
  "capable_succs T share ty =
     (case capable_parts T (repr T ty) share of Answer _ \<Rightarrow> [] | Both v \<Rightarrow> [v] | Parts items \<Rightarrow> items)"

definition capable_good :: "types \<Rightarrow> bool \<Rightarrow> ty \<Rightarrow> bool" where
  "capable_good T share ty =
     (case capable_parts T (repr T ty) share of Answer answer \<Rightarrow> answer | _ \<Rightarrow> True)"

definition is_ref :: "types \<Rightarrow> bool \<Rightarrow> ty \<Rightarrow> bool" where
  "is_ref T share ty = (case capable_parts T (repr T ty) share of Both _ \<Rightarrow> True | _ \<Rightarrow> False)"

definition no_ref :: "types \<Rightarrow> bool \<Rightarrow> ty set" where
  "no_ref T share = {ty. (edges (capable_succs T share))\<^sup>* `` {ty} \<subseteq> {t. \<not> is_ref T share t}}"

lemma parts_kind:
  assumes "kind T r = k" "\<And>a. k \<noteq> TAdt a"
  shows "parts T r =
    (case k of TTuple items \<Rightarrow> Some items | TOption t \<Rightarrow> Some [t] | TResult a b \<Rightarrow> Some [a, b]
     | TUnion items \<Rightarrow> Some items | _ \<Rightarrow> None)"
proof -
  have "repr T r = r" using assms by (rule repr_fix)
  with assms show ?thesis
    by (cases k) (auto simp: parts_def components_def variants_def)
qed

lemma key_step:
  "key_in T a V \<longleftrightarrow> a \<in> set V \<or> (key_good T a \<and> (\<forall>b \<in> set (key_succs T a). key_in T b (a # V)))"
proof (cases "a \<in> set V")
  case False
  have unfolded: "key_in T a V \<longleftrightarrow> (let V' = a # V; r = repr T a in
         case kind T r of
           TInt _ \<Rightarrow> True | TChar \<Rightarrow> True | TByte \<Rightarrow> True | TBool \<Rightarrow> True | TString \<Rightarrow> True
         | TUnit \<Rightarrow> True | TNever \<Rightarrow> True | TError \<Rightarrow> True
         | THandle h _ \<Rightarrow> h = Ref
         | TFloat _ \<Rightarrow> False | TArray _ \<Rightarrow> False | TDeque _ \<Rightarrow> False | TMap _ _ \<Rightarrow> False
         | TSet _ \<Rightarrow> False | TFn _ _ _ _ _ \<Rightarrow> False | TCFn _ _ _ \<Rightarrow> False
         | TParam i \<Rightarrow> key (params T ! i)
         | TOpaque i _ \<Rightarrow> key_in T (carriers T ! i) V'
         | _ \<Rightarrow> (case parts T r of Some items \<Rightarrow> \<forall>t \<in> set items. key_in T t V' | None \<Rightarrow> False))"
    using False by (subst key_in.simps) simp
  show ?thesis
    unfolding unfolded key_good_def key_succs_def Let_def
    by (cases "kind T (repr T a)")
      (simp_all add: False parts_kind Ball_def split: option.splits)
qed (simp add: key_in.simps)

lemma equatable_step:
  "equatable_in T a V \<longleftrightarrow>
     a \<in> set V \<or> (equatable_good T a \<and> (\<forall>b \<in> set (equatable_succs T a). equatable_in T b (a # V)))"
proof (cases "a \<in> set V")
  case False
  show ?thesis
    unfolding equatable_in.simps [of T a V] if_not_P [OF False] equatable_good_def
      equatable_succs_def Let_def
    by (cases "kind T (repr T a)")
      (auto simp: False parts_kind split: option.splits)
qed (simp add: equatable_in.simps)

lemma copy_step:
  "copy_in T a V \<longleftrightarrow> a \<in> set V \<or> (copy_good T a \<and> (\<forall>b \<in> set (copy_succs T a). copy_in T b (a # V)))"
  by (subst copy_in.simps) (auto simp: copy_good_def copy_succs_def split: sum.splits)

lemma succs_out:
  assumes "length (kinds T) \<le> ty"
  shows "key_succs T ty = []" "equatable_succs T ty = []" "copy_succs T ty = []"
    "capable_succs T share ty = []"
  using repr_out [OF assms] parts_kind [of T "repr T ty" TError]
  by (simp_all add: key_succs_def equatable_succs_def copy_succs_def copy_parts_def capable_succs_def
      capable_parts_def)

lemmas table_reachable = finite_reachable [of "length (kinds T)" for T]

interpretation key_check: coinductive_check "key_succs T" "key_good T" "key_in T" UNIV for T
  by unfold_locales (rule key_step, simp, rule table_reachable, rule succs_out)

interpretation equatable_check:
  coinductive_check "equatable_succs T" "equatable_good T" "equatable_in T" UNIV for T
  by unfold_locales (rule equatable_step, simp, rule table_reachable, rule succs_out)

interpretation copy_check: coinductive_check "copy_succs T" "copy_good T" "copy_in T" UNIV for T
  by unfold_locales (rule copy_step, simp, rule table_reachable, rule succs_out)

lemma no_ref_step: "ty \<in> no_ref T share \<Longrightarrow> set (capable_succs T share ty) \<subseteq> no_ref T share"
proof
  fix t
  assume ty: "ty \<in> no_ref T share" and t: "t \<in> set (capable_succs T share ty)"
  have "(ty, u) \<in> (edges (capable_succs T share))\<^sup>*" if "(t, u) \<in> (edges (capable_succs T share))\<^sup>*" for u
    using t that by (meson converse_rtrancl_into_rtrancl edges_iff)
  with ty show "t \<in> no_ref T share" unfolding no_ref_def by blast
qed

lemma capable_step:
  assumes "a \<in> no_ref T share"
  shows "capable T a share V \<longleftrightarrow>
     a \<in> set V \<or> (capable_good T share a \<and> (\<forall>b \<in> set (capable_succs T share a). capable T b share (a # V)))"
proof -
  have "\<not> is_ref T share a" using assms by (auto simp: no_ref_def)
  then show ?thesis
    by (subst capable.simps)
      (auto simp: capable_good_def capable_succs_def is_ref_def split: cap_parts.splits)
qed

interpretation capable_check:
  coinductive_check "capable_succs T share" "capable_good T share"
    "\<lambda>ty visiting. capable T ty share visiting" "no_ref T share" for T share
  by unfold_locales (erule capable_step, erule no_ref_step, rule table_reachable, rule succs_out)

text \<open>C35: a type is \<open>Key\<close>, \<open>Equatable\<close> or \<open>Copy\<close> exactly when every type it is made of is one
  that may be: the recursion with its list of visited types computes the greatest fixed point,
  on recursive types too.\<close>

theorem capabilities_are_coinductive:
  "(is_key T ty \<longleftrightarrow> (edges (key_succs T))\<^sup>* `` {ty} \<subseteq> Collect (key_good T))
   \<and> (is_equatable T ty \<longleftrightarrow> (edges (equatable_succs T))\<^sup>* `` {ty} \<subseteq> Collect (equatable_good T))
   \<and> (is_copy T ty \<longleftrightarrow> (edges (copy_succs T))\<^sup>* `` {ty} \<subseteq> Collect (copy_good T))"
  unfolding is_key_def is_equatable_def is_copy_def
  by (simp add: key_check.check_iff_all_good equatable_check.check_iff_all_good
      copy_check.check_iff_all_good)

subsection \<open>A key can be compared\<close>

lemma key_good_equatable:
  assumes "key_good T t" "\<And>a. \<not> foreign_union T a"
  shows "equatable_good T t \<and> set (equatable_succs T t) \<subseteq> set (key_succs T t)"
  using assms
  by (cases "kind T (repr T t)")
    (auto simp: key_good_def equatable_good_def equatable_succs_def key_succs_def parts_kind)

lemma key_is_equatable_below:
  assumes "(edges (key_succs T))\<^sup>* `` {ty} \<subseteq> Collect (key_good T)" "\<And>a. \<not> foreign_union T a"
    "(ty, t) \<in> (edges (equatable_succs T))\<^sup>*"
  shows "(ty, t) \<in> (edges (key_succs T))\<^sup>* \<and> equatable_good T t"
  using assms(3)
proof (induction rule: rtrancl_induct)
  case base
  have "key_good T ty" using assms(1) by auto
  then show ?case using key_good_equatable assms(2) by blast
next
  case (step b c)
  then have "key_good T b" using assms(1) by auto
  with step(2) have "c \<in> set (key_succs T b)" using key_good_equatable assms(2) by auto
  with step.IH have c: "(ty, c) \<in> (edges (key_succs T))\<^sup>*" by (auto intro: rtrancl_into_rtrancl)
  then have "key_good T c" using assms(1) by auto
  with c show ?case using key_good_equatable assms(2) by blast
qed

text \<open>a \<open>Key\<close> is \<open>Equatable\<close>, in a program without C unions: a map can always compare its
  keys.\<close>

theorem key_is_equatable:
  assumes "is_key T ty" and "\<And>a. \<not> foreign_union T a"
  shows "is_equatable T ty"
  using key_is_equatable_below [of T ty] assms
  unfolding is_key_def is_equatable_def key_check.check_iff_all_good [OF UNIV_I]
    equatable_check.check_iff_all_good [OF UNIV_I]
  by blast

text \<open>on types without a \<open>Ref\<close> below them, a type is \<open>Send\<close>, or \<open>Share\<close>, exactly when
  nothing it is made of forbids it: no raw pointer and, for \<open>Share\<close>, no \<open>Join\<close> and no \<open>Group\<close>.\<close>

theorem send_and_share_are_coinductive:
  assumes "ty \<in> no_ref T False" and "ty \<in> no_ref T True"
  shows "(is_send T ty \<longleftrightarrow> (edges (capable_succs T False))\<^sup>* `` {ty} \<subseteq> Collect (capable_good T False))
    \<and> (is_share T ty \<longleftrightarrow> (edges (capable_succs T True))\<^sup>* `` {ty} \<subseteq> Collect (capable_good T True))"
  unfolding is_send_def is_share_def
  using capable_check.check_iff_all_good assms by blast

text \<open>
  The program \<open>type Node = { next: Ref[Node]?, task: Join[Int] }\<close>, and one with tuples only.
\<close>

definition node_types :: types where
  "node_types = \<lparr>kinds = default_kinds @ [TAdt 0, THandle Ref 19, TOption 20, THandle Join 8, TTuple [8, 4]],
     adts = [\<lparr>adt_name = ''Node'',
       adt_kind = Record [\<lparr>fname = ''next'', fty = 21, is_private = False, is_secret = False\<rparr>,
         \<lparr>fname = ''task'', fty = 22, is_private = False, is_secret = False\<rparr>], adt_instance = None, adt_secret = False\<rparr>],
     params = [], carriers = [], foreign = []\<rparr>"

lemma default_kinds_list: "default_kinds = [TError, TUnit, TNever, TBool, TString,
    TInt I8, TInt I16, TInt I32, TInt I64, TInt U8, TInt U16, TInt U32, TInt U64,
    TChar, TByte, TFloat F32, TFloat F64, TInt I128, TInt U128]"
  by (simp add: default_kinds_def all_int_tys_def)

lemma node_kinds:
  "kind node_types 19 = TAdt 0" "kind node_types 20 = THandle Ref 19" "kind node_types 21 = TOption 20"
  "kind node_types 22 = THandle Join 8" "kind node_types 23 = TTuple [8, 4]"
  "kind node_types 8 = TInt I64" "kind node_types 4 = TString"
  "adt node_types 0 = Record [\<lparr>fname = ''next'', fty = 21, is_private = False, is_secret = False\<rparr>,
     \<lparr>fname = ''task'', fty = 22, is_private = False, is_secret = False\<rparr>]"
  by (simp_all add: kind_def adt_def node_types_def default_kinds_list)

lemma node_repr:
  "repr node_types 19 = 19" "repr node_types 20 = 20" "repr node_types 21 = 21"
  "repr node_types 22 = 22" "repr node_types 23 = 23" "repr node_types 8 = 8" "repr node_types 4 = 4"
proof -
  have "repr_loop n node_types 19 = 19" for n by (cases n) (simp_all add: node_kinds)
  then show "repr node_types 19 = 19" by (simp add: repr_def)
qed (rule repr_fix, rule node_kinds, simp)+

lemma node_parts:
  "capable_parts node_types 19 s = Parts [21, 22]" "capable_parts node_types 20 s = Both 19"
  "capable_parts node_types 21 s = Parts [20]"
  "capable_parts node_types 22 s = (if s then Answer False else Parts [8])"
  "capable_parts node_types 23 s = Parts [8, 4]"
  "capable_parts node_types 8 s = Parts []" "capable_parts node_types 4 s = Parts []"
  by (simp_all add: capable_parts_def node_kinds parts_def components_def variants_def node_repr)

text \<open>C37: a \<open>Ref\<close> is sent only when its value is shared too, but the compiler forgets it under
  recursion: of a \<open>Node\<close> with a reference to another \<open>Node\<close> and a task to join, which is never
  \<open>Share\<close>, it says that the \<open>Node\<close> is \<open>Send\<close> although its field's type \<open>Ref[Node]\<close> is not.\<close>

theorem send_forgets_share_below_ref:
  "is_send node_types 19 \<and> \<not> is_send node_types 20 \<and> \<not> is_share node_types 19
   \<and> (19, 20) \<in> (edges (inline_components node_types))\<^sup>*"
proof -
  have "(19, 21) \<in> edges (inline_components node_types)" "(21, 20) \<in> edges (inline_components node_types)"
    by (simp_all add: inline_components_def node_kinds)
  then have "(19, 20) \<in> (edges (inline_components node_types))\<^sup>*"
    by (meson r_into_rtrancl rtrancl_trans)
  then show ?thesis
    unfolding is_send_def is_share_def by (simp add: capable.simps node_parts node_repr)
qed

theorem key_is_equatable_witness: "is_key node_types 23 \<and> is_equatable node_types 23"
proof -
  have "is_key node_types 23"
    by (simp add: is_key_def key_in.simps node_repr node_kinds parts_kind Let_def)
  moreover have "\<not> foreign_union node_types a" for a
    by (simp add: foreign_union_def node_types_def)
  ultimately show ?thesis using key_is_equatable by blast
qed

lemma node_23_succs: "(edges (capable_succs node_types s))\<^sup>* `` {23} \<subseteq> {23, 8, 4}"
proof -
  have "t \<in> {23, 8, 4}" if "(23, t) \<in> (edges (capable_succs node_types s))\<^sup>*" for t
    using that
    by (induction rule: rtrancl_induct) (auto simp: capable_succs_def node_parts node_repr)
  then show ?thesis by blast
qed

lemma node_23_no_ref: "23 \<in> no_ref node_types s"
  using node_23_succs [of s] by (auto simp: no_ref_def is_ref_def node_parts node_repr)

theorem send_and_share_are_coinductive_witness: "is_send node_types 23 \<and> is_share node_types 23"
proof -
  have "(edges (capable_succs node_types s))\<^sup>* `` {23} \<subseteq> Collect (capable_good node_types s)" for s
    using node_23_succs [of s] by (auto simp: capable_good_def node_parts node_repr)
  then show ?thesis
    using send_and_share_are_coinductive [OF node_23_no_ref node_23_no_ref] by blast
qed

end
