(* ===== verification/Layout.thy ===== *)
theory Layout
  imports Types Graphs
begin

text \<open>
  Storage of the types of a program (\<^verbatim>\<open>crates/tondo/src/types.rs\<close>): which types are stored
  inline in which, where a box cuts a recursive type so that its layout is finite
  (\<open>reaches\<close>, \<open>is_boxed\<close>), which values own counted storage (\<open>needs_drop\<close>), and which may lie
  on a cycle of references (\<open>reach\<close>, \<open>can_cycle\<close>), the only ones the collector visits.
\<close>

subsection \<open>Newtypes\<close>

definition newtypes :: "types \<Rightarrow> (ty \<times> ty) set" where
  "newtypes T = {(t, inner). \<exists>a. kind T t = TAdt a \<and> adt T a = Newtype inner}"

lemma repr_loop_cases:
  "(\<nexists>u. (repr_loop n T t, u) \<in> newtypes T) \<or> (t, repr_loop n T t) \<in> newtypes T ^^ n"
proof (induction n arbitrary: t)
  case (Suc n)
  show ?case
  proof (cases "\<exists>u. (t, u) \<in> newtypes T")
    case True
    then obtain a u where u: "kind T t = TAdt a" "adt T a = Newtype u" by (auto simp: newtypes_def)
    then have "(t, u) \<in> newtypes T" "repr_loop (Suc n) T t = repr_loop n T u"
      by (auto simp: newtypes_def)
    with Suc [of u] relpow_Suc_I2 show ?thesis by metis
  next
    case False
    then have "repr_loop (Suc n) T t = t"
      by (auto simp: newtypes_def split: ty_kind.splits adt_kind.splits)
    with False show ?thesis by simp
  qed
qed simp

text \<open>The fuel of \<open>repr\<close> is enough: when no newtype wraps itself, what is left is not a newtype.\<close>

lemma repr_done:
  assumes "acyclic (newtypes T)"
  shows "(repr T t, u) \<notin> newtypes T"
proof
  assume u: "(repr T t, u) \<in> newtypes T"
  have "t < length (kinds T)" if "(t, v) \<in> newtypes T" for t v
    using that by (auto simp: newtypes_def kind_def split: if_splits)
  with acyclic_path_bound [OF assms]
  have "(t, u) \<notin> newtypes T ^^ Suc (length (kinds T))" by blast
  moreover have "(t, repr T t) \<in> newtypes T ^^ length (kinds T)"
    using u repr_loop_cases [of "length (kinds T)" T t] by (auto simp: repr_def)
  ultimately show False using u by (auto intro: relpow_Suc_I)
qed

lemma repr_loop_star: "(t, repr_loop n T t) \<in> (newtypes T)\<^sup>*"
proof (induction n arbitrary: t)
  case (Suc n)
  have "(t, u) \<in> newtypes T" if "kind T t = TAdt a" "adt T a = Newtype u" for a u
    using that by (auto simp: newtypes_def)
  with Suc show ?case
    by (auto split: ty_kind.splits adt_kind.splits intro: converse_rtrancl_into_rtrancl)
qed simp

subsection \<open>Inline storage\<close>

abbreviation inline :: "types \<Rightarrow> (ty \<times> ty) set" where
  "inline T \<equiv> edges (inline_components T)"

lemma newtypes_inline: "newtypes T \<subseteq> inline T"
  by (auto simp: newtypes_def inline_components_def)

lemma repr_inline: "(t, repr T t) \<in> (inline T)\<^sup>*"
  unfolding repr_def using repr_loop_star rtrancl_mono [OF newtypes_inline] by blast

lemma inline_out: "length (kinds T) \<le> t \<Longrightarrow> inline_components T t = []"
  by (simp add: inline_components_def kind_def)

text \<open>\<open>reaches\<close>: a search whose stack has its top first.\<close>

function reaches_loop :: "types \<Rightarrow> ty \<Rightarrow> ty list \<Rightarrow> ty list \<Rightarrow> bool" where
  "reaches_loop T to seen [] = False"
| "reaches_loop T to seen (ty # stack) =
     (if ty = to then True
      else if ty \<in> set seen then reaches_loop T to seen stack
      else reaches_loop T to (ty # seen) (rev (inline_components T ty) @ stack))"
  by pat_completeness auto
termination
proof (relation "measures [\<lambda>(T, to, seen, stack). card ({..<length (kinds T)} - set seen),
    \<lambda>(T, to, seen, stack). length stack]", goal_cases)
  case (3 T to seen ty stack)
  show ?case
  proof (cases "ty < length (kinds T)")
    case True
    with 3 have "{..<length (kinds T)} - set (ty # seen) \<subset> {..<length (kinds T)} - set seen" by auto
    then have "card ({..<length (kinds T)} - set (ty # seen)) < card ({..<length (kinds T)} - set seen)"
      by (rule psubset_card_mono [rotated]) simp
    then show ?thesis by simp
  next
    case False
    then have "{..<length (kinds T)} - set (ty # seen) = {..<length (kinds T)} - set seen" by auto
    with False show ?thesis by (simp add: inline_out del: set_simps)
  qed
qed simp_all

definition reaches :: "types \<Rightarrow> ty \<Rightarrow> ty \<Rightarrow> bool" where
  "reaches T from_ty to = reaches_loop T to [] (rev (inline_components T from_ty))"

definition is_boxed :: "types \<Rightarrow> ty \<Rightarrow> ty \<Rightarrow> bool" where
  "is_boxed T container component \<longleftrightarrow>
     (case kind T component of TAdt _ \<Rightarrow> reaches T component container | _ \<Rightarrow> False)"

lemma leaves_seen:
  assumes "(x, to) \<in> (inline T)\<^sup>*" "x \<in> set seen"
    "\<forall>x \<in> set seen. x \<noteq> to \<and> set (inline_components T x) \<subseteq> set seen \<union> set stack"
  shows "\<exists>y \<in> set stack. (y, to) \<in> (inline T)\<^sup>*"
  using assms by (induction rule: converse_rtrancl_induct) auto

lemma reaches_loop_iff:
  "\<forall>x \<in> set seen. x \<noteq> to \<and> set (inline_components T x) \<subseteq> set seen \<union> set stack \<Longrightarrow>
   reaches_loop T to seen stack \<longleftrightarrow> (\<exists>x \<in> set stack. (x, to) \<in> (inline T)\<^sup>*)"
proof (induction T to seen stack rule: reaches_loop.induct)
  case (2 T to seen ty stack)
  consider "ty = to" | "ty \<noteq> to" "ty \<in> set seen" | "ty \<noteq> to" "ty \<notin> set seen" by blast
  then show ?case
  proof cases
    case 2
    with "2.prems" have inv: "\<forall>x \<in> set seen. x \<noteq> to \<and>
        set (inline_components T x) \<subseteq> set seen \<union> set stack" by auto
    with "2.IH"(1) 2 have "reaches_loop T to seen stack \<longleftrightarrow> (\<exists>x \<in> set stack. (x, to) \<in> (inline T)\<^sup>*)"
      by blast
    with 2 leaves_seen [OF _ 2(2) inv] show ?thesis by auto
  next
    case 3
    have "reaches_loop T to (ty # seen) (rev (inline_components T ty) @ stack) \<longleftrightarrow>
        (\<exists>x \<in> set (rev (inline_components T ty) @ stack). (x, to) \<in> (inline T)\<^sup>*)"
      using "2.IH"(2) [OF 3] "2.prems" 3 by auto
    moreover have "(ty, to) \<in> (inline T)\<^sup>* \<longleftrightarrow> (\<exists>x \<in> set (inline_components T ty). (x, to) \<in> (inline T)\<^sup>*)"
      using 3(1) by (metis converse_rtranclE converse_rtrancl_into_rtrancl edges_iff)
    ultimately show ?thesis using 3 by auto
  qed simp
qed simp

lemma reaches_iff: "reaches T from_ty to \<longleftrightarrow> (from_ty, to) \<in> (inline T)\<^sup>+"
proof -
  have "reaches T from_ty to \<longleftrightarrow> (\<exists>x \<in> set (inline_components T from_ty). (x, to) \<in> (inline T)\<^sup>*)"
    unfolding reaches_def by (subst reaches_loop_iff) auto
  also have "\<dots> \<longleftrightarrow> (from_ty, to) \<in> (inline T)\<^sup>+"
    by (metis edges_iff rtrancl_into_trancl2 tranclD)
  finally show ?thesis .
qed

subsection \<open>Boxes make every layout finite\<close>

text \<open>
  What interning guarantees: a type that is not nominal was interned after its components. And
  the edges of inline storage that stay inline.
\<close>

definition is_adt :: "types \<Rightarrow> ty \<Rightarrow> bool" where
  "is_adt T t \<longleftrightarrow> (case kind T t of TAdt _ \<Rightarrow> True | _ \<Rightarrow> False)"

definition ordered :: "types \<Rightarrow> bool" where
  "ordered T \<longleftrightarrow> (\<forall>t < length (kinds T). is_adt T t \<or> (\<forall>c \<in> set (inline_components T t). c < t))"

definition unboxed :: "types \<Rightarrow> (ty \<times> ty) set" where
  "unboxed T = {(t, c). (t, c) \<in> inline T \<and> \<not> is_boxed T t c}"

lemma is_boxed_iff: "is_boxed T container c \<longleftrightarrow> is_adt T c \<and> (c, container) \<in> (inline T)\<^sup>+"
  by (auto simp: is_boxed_def is_adt_def reaches_iff split: ty_kind.splits)

lemma ordered_less: "ordered T \<Longrightarrow> \<not> is_adt T t \<Longrightarrow> c \<in> set (inline_components T t) \<Longrightarrow> c < t"
  using inline_out [of T t] by (cases "t < length (kinds T)") (auto simp: ordered_def)

text \<open>On a cycle of unboxed edges no type is nominal, so indices would decrease all the way.\<close>

lemma unboxed_cycle_structural:
  assumes "(t, y) \<in> (unboxed T)\<^sup>+" "(y, t) \<in> (unboxed T)\<^sup>*"
  shows "\<not> is_adt T y"
proof
  assume adt: "is_adt T y"
  from assms(1) obtain x where x: "(t, x) \<in> (unboxed T)\<^sup>*" "(x, y) \<in> unboxed T" by (meson tranclE r_into_rtrancl rtrancl.rtrancl_refl trancl_into_rtrancl)
  have "(y, x) \<in> (unboxed T)\<^sup>*" using assms(2) x(1) by (rule rtrancl_trans)
  then have "(y, y) \<in> (unboxed T)\<^sup>+" using x(2) by (rule rtrancl_into_trancl1)
  then have "(y, x) \<in> (unboxed T)\<^sup>+"
    using \<open>(y, x) \<in> (unboxed T)\<^sup>*\<close> x(2) by (metis rtranclD trancl.r_into_trancl)
  moreover have "unboxed T \<subseteq> inline T" by (auto simp: unboxed_def)
  ultimately have "(y, x) \<in> (inline T)\<^sup>+" by (rule trancl_mono)
  with x(2) adt show False by (simp add: unboxed_def is_boxed_iff)
qed

lemma unboxed_acyclic: "ordered T \<Longrightarrow> acyclic (unboxed T)"
proof (rule acyclicI, intro allI notI)
  fix t
  assume T: "ordered T" and cycle: "(t, t) \<in> (unboxed T)\<^sup>+"
  have "y < t" if "(t, y) \<in> (unboxed T)\<^sup>+" "(y, t) \<in> (unboxed T)\<^sup>*" for y
    using that
  proof (induction rule: trancl_induct)
    case (base y)
    moreover have "\<not> is_adt T t" by (rule unboxed_cycle_structural [OF cycle rtrancl.rtrancl_refl])
    ultimately show ?case using ordered_less [OF T] by (auto simp: unboxed_def)
  next
    case (step y z)
    have y: "(y, t) \<in> (unboxed T)\<^sup>*" using step by (meson converse_rtrancl_into_rtrancl)
    then have "\<not> is_adt T y" using unboxed_cycle_structural [OF step(1)] by blast
    then have "z < y" using step(2) ordered_less [OF T] by (auto simp: unboxed_def)
    with step.IH [OF y] show ?case by simp
  qed
  from this [OF cycle] show False by simp
qed

text \<open>Interning keeps the order, given components that are interned already.\<close>

definition fresh_kind :: "types \<Rightarrow> ty_kind \<Rightarrow> bool" where
  "fresh_kind T k \<longleftrightarrow>
     (case k of TTuple ts \<Rightarrow> \<forall>t \<in> set ts. t < length (kinds T) | TUnion ts \<Rightarrow> \<forall>t \<in> set ts. t < length (kinds T)
      | TOption t \<Rightarrow> t < length (kinds T) | TCArray t _ \<Rightarrow> t < length (kinds T)
      | TResult a b \<Rightarrow> a < length (kinds T) \<and> b < length (kinds T) | _ \<Rightarrow> True)"

lemma inline_kind:
  assumes "kind T' t = kind T t"
  shows "is_adt T' t = is_adt T t" "\<not> is_adt T t \<Longrightarrow> inline_components T' t = inline_components T t"
  using assms by (auto simp: is_adt_def inline_components_def split: ty_kind.splits)

lemma intern_ordered:
  assumes "ordered T" "fresh_kind T k"
  shows "ordered (snd (intern k T))"
proof (cases "position (\<lambda>x. x = k) (kinds T)")
  case None
  let ?T = "T\<lparr>kinds := kinds T @ [k]\<rparr>"
  have "is_adt ?T t \<or> (\<forall>c \<in> set (inline_components ?T t). c < t)" if "t < Suc (length (kinds T))" for t
  proof (cases "t < length (kinds T)")
    case True
    then have "kind ?T t = kind T t" by (simp add: kind_def nth_append)
    note inline_kind [OF this]
    with assms(1) True show ?thesis by (auto simp: ordered_def)
  next
    case False
    with that have "t = length (kinds T)" by simp
    then have "kind ?T t = k" by (simp add: kind_def)
    with assms(2) \<open>t = length (kinds T)\<close> show ?thesis
      by (auto simp: is_adt_def inline_components_def fresh_kind_def split: ty_kind.splits)
  qed
  with None show ?thesis by (simp add: intern_def ordered_def)
qed (use assms in \<open>simp add: intern_def\<close>)

lemma define_adt_ordered: "ordered T \<Longrightarrow> ordered (define_adt a k T)"
proof -
  have "kind (define_adt a k T) t = kind T t" for t by (simp add: define_adt_def kind_def)
  note inline_kind [OF this]
  then show "ordered T \<Longrightarrow> ordered (define_adt a k T)"
    by (simp add: ordered_def define_adt_def cong: disj_cong)
qed

text \<open>C36: storage is finite: in a table built by interning types after their components, whatever
  the nominal types are defined as, following components that \<open>is_boxed\<close> leaves inline never
  comes back to a type, and \<open>reaches\<close>, which decides the boxes, is inline reachability.\<close>

theorem boxes_cut_every_cycle:
  assumes "ordered T"
  shows "acyclic {(t, c). c \<in> set (inline_components T t) \<and> \<not> is_boxed T t c}
    \<and> (\<forall>a b. reaches T a b \<longleftrightarrow> (a, b) \<in> (edges (inline_components T))\<^sup>+)"
  using unboxed_acyclic [OF assms] by (simp add: unboxed_def reaches_iff)

subsection \<open>Values that own counted storage\<close>

text \<open>
  \<open>needs_drop\<close>: a type owns storage when its representation is on the heap, or one of its parts
  is boxed or owns storage. The recursion of the source has no bound of its own; here it takes
  fuel, \<open>None\<close> is running out of it, and \<open>needs_drop_returns\<close> shows that it does not.
\<close>

fun any_opt :: "('a \<Rightarrow> bool option) \<Rightarrow> 'a list \<Rightarrow> bool option" where
  "any_opt f [] = Some False"
| "any_opt f (x # xs) = (case f x of None \<Rightarrow> None | Some True \<Rightarrow> Some True | Some False \<Rightarrow> any_opt f xs)"

definition on_heap :: "types \<Rightarrow> ty \<Rightarrow> bool" where
  "on_heap T r =
     (case kind T r of
        TString \<Rightarrow> True | TArray _ \<Rightarrow> True | TDeque _ \<Rightarrow> True | TMap _ _ \<Rightarrow> True | TSet _ \<Rightarrow> True
      | TFn _ _ _ _ _ \<Rightarrow> True | THandle _ _ \<Rightarrow> True | _ \<Rightarrow> False)"

definition own_parts :: "types \<Rightarrow> ty \<Rightarrow> ty list" where
  "own_parts T r =
     (case (components T r, variants T r) of
        (Some items, _) \<Rightarrow> items | (None, Some vs) \<Rightarrow> concat vs | (None, None) \<Rightarrow> [])"

fun needs_drop_loop :: "nat \<Rightarrow> types \<Rightarrow> ty \<Rightarrow> bool option" where
  "needs_drop_loop 0 T ty = None"
| "needs_drop_loop (Suc n) T ty =
     (let r = repr T ty in
      if on_heap T r then Some True
      else any_opt (\<lambda>part. if is_boxed T r part then Some True else needs_drop_loop n T part)
             (own_parts T r))"

definition needs_drop :: "types \<Rightarrow> ty \<Rightarrow> bool option" where
  "needs_drop T ty = needs_drop_loop (Suc (length (kinds T))) T ty"

lemma any_opt_Some: "(\<forall>x \<in> set xs. f x \<noteq> None) \<Longrightarrow> any_opt f xs = Some (\<exists>x \<in> set xs. f x = Some True)"
  by (induction xs) (auto split: option.splits bool.splits)

text \<open>One step of the recursion.\<close>

definition drop_step :: "types \<Rightarrow> (ty \<times> ty) set" where
  "drop_step T = {(t, c). c \<in> set (own_parts T (repr T t)) \<and> \<not> is_boxed T (repr T t) c}"

lemma own_parts_inline:
  assumes "acyclic (newtypes T)"
  shows "set (own_parts T (repr T t)) \<subseteq> set (inline_components T (repr T t))"
proof -
  have fix_repr: "repr T (repr T t) = repr T t"
    using repr_done [OF assms, of t] repr_loop_cases [of _ T "repr T t"]
  proof -
    have "repr_loop n T (repr T t) = repr T t" for n
      using repr_done [OF assms, of t]
      by (cases n) (auto simp: newtypes_def split: ty_kind.splits adt_kind.splits)
    then show ?thesis by (simp add: repr_def [of T "repr T t"])
  qed
  show ?thesis
    unfolding own_parts_def components_def variants_def inline_components_def fix_repr
    by (cases "kind T (repr T t)") (auto split: adt_kind.splits)
qed

lemma drop_step_inline:
  assumes "acyclic (newtypes T)" "(t, c) \<in> drop_step T"
  shows "(t, repr T t) \<in> (inline T)\<^sup>*" "(repr T t, c) \<in> inline T" "\<not> is_boxed T (repr T t) c"
  using assms own_parts_inline [OF assms(1), of t] repr_inline [of t T] by (auto simp: drop_step_def)

lemma drop_star_inline:
  assumes "acyclic (newtypes T)" "(a, b) \<in> (drop_step T)\<^sup>*"
  shows "(a, b) \<in> (inline T)\<^sup>*"
  using assms(2)
proof (induction rule: rtrancl_induct)
  case (step b c)
  with drop_step_inline [OF assms(1) step(2)] show ?case
    by (meson rtrancl.rtrancl_into_rtrancl rtrancl_trans)
qed simp

lemma drop_cycle_structural:
  assumes T: "acyclic (newtypes T)" and "(t, y) \<in> (drop_step T)\<^sup>+" "(y, t) \<in> (drop_step T)\<^sup>*"
  shows "\<not> is_adt T y"
proof
  assume adt: "is_adt T y"
  from assms(2) obtain x where x: "(t, x) \<in> (drop_step T)\<^sup>*" "(x, y) \<in> drop_step T"
    by (meson tranclE r_into_rtrancl rtrancl.rtrancl_refl trancl_into_rtrancl)
  have "(y, x) \<in> (drop_step T)\<^sup>*" using assms(3) x(1) by (rule rtrancl_trans)
  then have "(y, x) \<in> (inline T)\<^sup>*" by (rule drop_star_inline [OF T])
  with drop_step_inline [OF T x(2)] have star: "(y, repr T x) \<in> (inline T)\<^sup>*" by (meson rtrancl_trans)
  have edge: "(repr T x, y) \<in> inline T" by (rule drop_step_inline(2) [OF T x(2)])
  have "(y, repr T x) \<in> (inline T)\<^sup>+"
    using star edge by (metis rtranclD trancl.r_into_trancl)
  with adt drop_step_inline(3) [OF T x(2)] show False by (simp add: is_boxed_iff)
qed

lemma drop_step_less:
  assumes "ordered T" "acyclic (newtypes T)" "\<not> is_adt T t" "(t, c) \<in> drop_step T"
  shows "c < t"
proof -
  have "repr T t = t"
    using assms(3) by (intro repr_fix [OF refl]) (auto simp: is_adt_def)
  with drop_step_inline(2) [OF assms(2,4)] ordered_less [OF assms(1,3)] show ?thesis by simp
qed

lemma drop_acyclic:
  assumes "ordered T" "acyclic (newtypes T)"
  shows "acyclic (drop_step T)"
proof (rule acyclicI, intro allI notI)
  fix t
  assume cycle: "(t, t) \<in> (drop_step T)\<^sup>+"
  have "y < t" if "(t, y) \<in> (drop_step T)\<^sup>+" "(y, t) \<in> (drop_step T)\<^sup>*" for y
    using that
  proof (induction rule: trancl_induct)
    case (base y)
    then show ?case
      using drop_step_less [OF assms] drop_cycle_structural [OF assms(2) cycle] by blast
  next
    case (step y z)
    have y: "(y, t) \<in> (drop_step T)\<^sup>*" using step by (meson converse_rtrancl_into_rtrancl)
    with step drop_step_less [OF assms] drop_cycle_structural [OF assms(2) step(1)] have "z < y" by blast
    with step.IH [OF y] show ?case by simp
  qed
  from this [OF cycle] show False by simp
qed

lemma needs_drop_loop_Some:
  "\<forall>c. (t, c) \<notin> drop_step T ^^ n \<Longrightarrow> needs_drop_loop n T t \<noteq> None"
proof (induction n arbitrary: t)
  case (Suc n)
  have "needs_drop_loop n T c \<noteq> None" if "(t, c) \<in> drop_step T" for c
    using Suc that by (metis relpow_Suc_I2)
  then have "\<forall>part \<in> set (own_parts T (repr T t)).
      (if is_boxed T (repr T t) part then Some True else needs_drop_loop n T part) \<noteq> None"
    by (auto simp: drop_step_def)
  from any_opt_Some [OF this] show ?case
    by (cases "on_heap T (repr T t)") (simp_all add: Let_def)
qed simp

definition owns :: "types \<Rightarrow> ty \<Rightarrow> bool" where
  "owns T t \<longleftrightarrow> on_heap T (repr T t) \<or> (\<exists>c \<in> set (own_parts T (repr T t)). is_boxed T (repr T t) c)"

lemma on_heap_no_parts: "on_heap T (repr T t) \<Longrightarrow> own_parts T (repr T t) = []"
proof -
  assume heap: "on_heap T (repr T t)"
  then have "repr T (repr T t) = repr T t"
    by (intro repr_fix [OF refl]) (auto simp: on_heap_def split: ty_kind.splits)
  with heap show ?thesis
    by (auto simp: own_parts_def components_def variants_def on_heap_def split: ty_kind.splits)
qed

lemma any_opt_cases:
  "any_opt f xs = Some b \<Longrightarrow> (if b then \<exists>x \<in> set xs. f x = Some True else \<forall>x \<in> set xs. f x = Some False)"
  by (induction xs) (auto split: option.splits bool.splits if_splits)

lemma owns_below:
  "(\<exists>u. (t, u) \<in> (drop_step T)\<^sup>* \<and> owns T u) \<longleftrightarrow>
   owns T t \<or> (\<exists>c. (t, c) \<in> drop_step T \<and> (\<exists>u. (c, u) \<in> (drop_step T)\<^sup>* \<and> owns T u))"
  by (metis converse_rtranclE converse_rtrancl_into_rtrancl rtrancl.rtrancl_refl)

lemma needs_drop_loop_iff:
  "needs_drop_loop n T t = Some b \<Longrightarrow> b \<longleftrightarrow> (\<exists>u. (t, u) \<in> (drop_step T)\<^sup>* \<and> owns T u)"
proof (induction n arbitrary: t b)
  case (Suc n)
  show ?case
  proof (cases "on_heap T (repr T t)")
    case True
    with Suc.prems show ?thesis by (subst owns_below) (simp add: owns_def Let_def)
  next
    case False
    let ?f = "\<lambda>part. if is_boxed T (repr T t) part then Some True else needs_drop_loop n T part"
    have "any_opt ?f (own_parts T (repr T t)) = Some b" using Suc.prems False by (simp add: Let_def)
    note any = any_opt_cases [OF this]
    show ?thesis
    proof (cases b)
      case True
      with any obtain c where c: "c \<in> set (own_parts T (repr T t))" "?f c = Some True" by auto
      show ?thesis
      proof (cases "is_boxed T (repr T t) c")
        case True
        with c(1) have "owns T t" by (auto simp: owns_def)
        with \<open>b\<close> show ?thesis by blast
      next
        case False
        with c have "(t, c) \<in> drop_step T" "needs_drop_loop n T c = Some True"
          by (auto simp: drop_step_def)
        with Suc.IH [OF this(2)] \<open>b\<close> show ?thesis by (subst owns_below) blast
      qed
    next
      case no: False
      with any have all: "\<forall>c \<in> set (own_parts T (repr T t)). ?f c = Some False" by simp
      then have "\<not> owns T t" using False by (auto simp: owns_def split: if_splits)
      moreover have "\<not> (\<exists>u. (c, u) \<in> (drop_step T)\<^sup>* \<and> owns T u)" if "(t, c) \<in> drop_step T" for c
      proof -
        have "needs_drop_loop n T c = Some False" using all that by (auto simp: drop_step_def)
        from Suc.IH [OF this] show ?thesis by blast
      qed
      ultimately show ?thesis using no by (subst owns_below) blast
    qed
  qed
qed simp

lemma drop_sources: "(t, c) \<in> drop_step T \<Longrightarrow> t < length (kinds T)"
proof (rule ccontr)
  assume "(t, c) \<in> drop_step T" "\<not> t < length (kinds T)"
  then have err: "kind T (repr T t) = TError" using repr_out by simp
  moreover from this have "repr T (repr T t) = repr T t" by (rule repr_fix) simp
  ultimately have "own_parts T (repr T t) = []"
    by (simp add: own_parts_def components_def variants_def)
  with \<open>(t, c) \<in> drop_step T\<close> show False by (simp add: drop_step_def)
qed

text \<open>\<open>needs_drop\<close> returns, on recursive types too, and says whether a value of the type owns
  counted storage: whether, following the parts kept inline, it comes to a type on the heap or
  to a boxed part.\<close>

theorem needs_drop_returns:
  assumes "ordered T" and "acyclic (newtypes T)"
  shows "needs_drop T t = Some (\<exists>u. (t, u) \<in> (drop_step T)\<^sup>* \<and> owns T u)"
proof -
  have "\<forall>c. (t, c) \<notin> drop_step T ^^ Suc (length (kinds T))"
    using acyclic_path_bound [OF drop_acyclic [OF assms], of "length (kinds T)"] drop_sources
    by metis
  then obtain b where "needs_drop T t = Some b"
    unfolding needs_drop_def using needs_drop_loop_Some by blast
  with needs_drop_loop_iff show ?thesis unfolding needs_drop_def by blast
qed

subsection \<open>Types on cycles of references\<close>

text \<open>The types a value can refer to directly, and the worklist of \<open>reach\<close> (its last element first).\<close>

definition ref_parts :: "types \<Rightarrow> ty \<Rightarrow> ty list" where
  "ref_parts T current =
     (let r = repr T current in
      case kind T r of
        TArray t \<Rightarrow> [t] | TDeque t \<Rightarrow> [t] | TSet t \<Rightarrow> [t] | TMap k v \<Rightarrow> [k, v]
      | THandle h state \<Rightarrow> if handle_holds h then [state] else []
      | TFn _ _ _ _ _ \<Rightarrow> [] | TCFn _ _ _ \<Rightarrow> [] | TPointer _ \<Rightarrow> [] | TCArray _ _ \<Rightarrow> []
      | _ \<Rightarrow> own_parts T r)"

definition push_new :: "ty \<Rightarrow> ty list \<times> ty list \<Rightarrow> ty list \<times> ty list" where
  "push_new part sp = (if part \<in> set (fst sp) then sp else (fst sp @ [part], part # snd sp))"

lemma fold_push_new:
  "set (fst (fold push_new ps (seen, pending))) = set seen \<union> set ps"
  "set (snd (fold push_new ps (seen, pending))) = set pending \<union> (set ps - set seen)"
  "set ps \<subseteq> set seen \<Longrightarrow> fold push_new ps (seen, pending) = (seen, pending)"
  by (induction ps arbitrary: seen pending) (auto simp: push_new_def)

lemma ref_parts_out: "length (kinds T) \<le> t \<Longrightarrow> ref_parts T t = []"
proof -
  assume "length (kinds T) \<le> t"
  then have err: "kind T (repr T t) = TError" by (rule repr_out)
  moreover from this have "repr T (repr T t) = repr T t" by (rule repr_fix) simp
  ultimately show ?thesis
    by (simp add: ref_parts_def own_parts_def components_def variants_def)
qed

definition mentioned :: "types \<Rightarrow> ty set" where
  "mentioned T = (\<Union>t < length (kinds T). set (ref_parts T t))"

lemma ref_parts_mentioned: "set (ref_parts T t) \<subseteq> mentioned T"
  using ref_parts_out [of T t] by (cases "t < length (kinds T)") (auto simp: mentioned_def)

function reach_loop :: "types \<Rightarrow> ty list \<Rightarrow> ty list \<Rightarrow> ty list" where
  "reach_loop T seen [] = seen"
| "reach_loop T seen (current # pending) =
     (let (seen', pending') = fold push_new (ref_parts T current) (seen, pending)
      in reach_loop T seen' pending')"
  by pat_completeness auto
termination
proof (relation "measures [\<lambda>(T, seen, pending). card (mentioned T - set seen),
    \<lambda>(T, seen, pending). length pending]", goal_cases)
  case (2 T seen current pending sp seen' pending')
  have fin: "finite (mentioned T)" by (simp add: mentioned_def)
  have sp: "fold push_new (ref_parts T current) (seen, pending) = (seen', pending')" using 2 by simp
  show ?case
  proof (cases "set (ref_parts T current) \<subseteq> set seen")
    case True
    with sp fold_push_new(3) [OF True, of pending] show ?thesis by simp
  next
    case False
    have "set seen' = set seen \<union> set (ref_parts T current)"
      using sp fold_push_new(1) [of "ref_parts T current" seen pending] by simp
    with False ref_parts_mentioned [of T current]
    have "mentioned T - set seen' \<subset> mentioned T - set seen" by auto
    with fin show ?thesis by (simp add: psubset_card_mono)
  qed
qed simp

definition reach :: "types \<Rightarrow> ty \<Rightarrow> ty list" where
  "reach T ty = reach_loop T [ty] [ty]"

definition cell_key :: "types \<Rightarrow> ty \<Rightarrow> nat \<times> ty" where
  "cell_key T ty =
     (case kind T ty of
        THandle h state \<Rightarrow>
          if h = Sender \<or> h = Receiver then (1, state)
          else if h = Join \<or> h = Group then (2, state) else (0, ty)
      | _ \<Rightarrow> (0, ty))"

definition can_cycle :: "types \<Rightarrow> ty \<Rightarrow> bool" where
  "can_cycle T ty \<longleftrightarrow>
     (\<exists>t \<in> set (reach T ty).
        case kind T t of
          TFn _ _ _ _ _ \<Rightarrow> True
        | THandle h state \<Rightarrow>
            h = ReflectBox \<or>
            (handle_holds h \<and> h \<noteq> Ref \<and>
             (\<exists>inner \<in> set (reach T state). cell_key T inner = cell_key T t))
        | _ \<Rightarrow> False)"

lemma reach_loop_walk:
  assumes "set pending \<subseteq> set seen"
    "\<forall>x \<in> set seen - set pending. set (ref_parts T x) \<subseteq> set seen"
    "set seen \<subseteq> (edges (ref_parts T))\<^sup>* `` S"
  shows "set seen \<subseteq> set (reach_loop T seen pending)
    \<and> set (reach_loop T seen pending) \<subseteq> (edges (ref_parts T))\<^sup>* `` S
    \<and> (\<forall>x \<in> set (reach_loop T seen pending). set (ref_parts T x) \<subseteq> set (reach_loop T seen pending))"
  using assms
proof (induction T seen pending rule: reach_loop.induct)
  case (2 T seen current pending)
  obtain seen' pending' where
    sp: "fold push_new (ref_parts T current) (seen, pending) = (seen', pending')" by fastforce
  have seen': "set seen' = set seen \<union> set (ref_parts T current)"
    and pending': "set pending' = set pending \<union> (set (ref_parts T current) - set seen)"
    using sp fold_push_new(1,2) [of "ref_parts T current" seen pending] by simp_all
  have "current \<in> (edges (ref_parts T))\<^sup>* `` S" using "2.prems" by auto
  then have "set (ref_parts T current) \<subseteq> (edges (ref_parts T))\<^sup>* `` S"
    by (meson Image_iff edges_iff rtrancl_into_rtrancl subsetI)
  with "2.prems" have "set seen' \<subseteq> (edges (ref_parts T))\<^sup>* `` S" by (simp add: seen')
  moreover have "set pending' \<subseteq> set seen'" using "2.prems"(1) by (auto simp: seen' pending')
  moreover have "\<forall>x \<in> set seen' - set pending'. set (ref_parts T x) \<subseteq> set seen'"
    using "2.prems"(2) by (auto simp: seen' pending')
  ultimately show ?case
    using "2.IH" [OF refl sp [symmetric]] by (simp add: sp seen')
qed simp

interpretation reach_walk: closed_walk "ref_parts T" "{ty}" "set (reach T ty)" for T ty
  using reach_loop_walk [of "[ty]" "[ty]" T "{ty}"]
  by unfold_locales (auto simp: reach_def)

lemma reach_iff: "t \<in> set (reach T ty) \<longleftrightarrow> (ty, t) \<in> (edges (ref_parts T))\<^sup>*"
  using reach_walk.found_iff [of T ty] by auto

text \<open>the static filter of the cycle collector: when \<open>can_cycle\<close> denies it of a type, a
  value of it can refer to no function and no reflected value, which may hold anything, and no
  cell whose state can be replaced (shared state, a channel, a task) can refer to the same kind of
  cell again; only immutable \<open>Ref\<close>s may, which cannot close a cycle.\<close>

theorem can_cycle_filters:
  assumes "\<not> can_cycle T ty" and "(ty, t) \<in> (edges (ref_parts T))\<^sup>*"
  shows "case kind T t of
      TFn _ _ _ _ _ \<Rightarrow> False
    | THandle h state \<Rightarrow> h \<noteq> ReflectBox \<and>
        (handle_holds h \<and> h \<noteq> Ref \<longrightarrow> (\<forall>u. (t, u) \<in> (edges (ref_parts T))\<^sup>+ \<longrightarrow> cell_key T u \<noteq> cell_key T t))
    | _ \<Rightarrow> True"
proof -
  have t: "t \<in> set (reach T ty)" using assms(2) by (simp add: reach_iff)
  have "cell_key T u \<noteq> cell_key T t"
    if "kind T t = THandle h state" "handle_holds h" "h \<noteq> Ref" "(t, u) \<in> (edges (ref_parts T))\<^sup>+" for h state u
  proof -
    have "ref_parts T t = [state]"
      using that(1,2) repr_fix [OF that(1)] by (simp add: ref_parts_def)
    with that(4) have "u \<in> set (reach T state)" by (auto simp: reach_iff dest: tranclD)
    with assms(1) t that(1-3) show ?thesis by (fastforce simp: can_cycle_def)
  qed
  with assms(1) t show ?thesis by (cases "kind T t") (fastforce simp: can_cycle_def)+
qed

subsection \<open>A recursive type\<close>

text \<open>
  The program \<open>type List = Nil | Cons(Int, List)\<close> with a \<open>sync.Mutex[List]\<close>.
\<close>

definition list_types :: types where
  "list_types = \<lparr>kinds = default_kinds @ [TAdt 0, THandle Mutex 19],
     adts = [\<lparr>adt_name = ''List'',
       adt_kind = Enum [\<lparr>vname = ''Nil'', vpayload = PUnit\<rparr>,
         \<lparr>vname = ''Cons'', vpayload = PTuple [8, 19]\<rparr>], adt_instance = None, adt_secret = False\<rparr>],
     params = [], carriers = [], foreign = []\<rparr>"

lemma list_kinds_eq: "kinds list_types = [TError, TUnit, TNever, TBool, TString,
    TInt I8, TInt I16, TInt I32, TInt I64, TInt U8, TInt U16, TInt U32, TInt U64,
    TChar, TByte, TFloat F32, TFloat F64, TInt I128, TInt U128, TAdt 0, THandle Mutex 19]"
  by (simp add: list_types_def default_kinds_def all_int_tys_def)

lemma list_kinds:
  "kind list_types 19 = TAdt 0" "kind list_types 20 = THandle Mutex 19" "kind list_types 8 = TInt I64"
  "adt list_types 0 = Enum [\<lparr>vname = ''Nil'', vpayload = PUnit\<rparr>, \<lparr>vname = ''Cons'', vpayload = PTuple [8, 19]\<rparr>]"
  by (simp_all add: kind_def list_kinds_eq adt_def) (simp add: list_types_def)

lemma ordered_code: "ordered T \<longleftrightarrow>
    list_all (\<lambda>t. is_adt T t \<or> list_all (\<lambda>c. c < t) (inline_components T t)) [0..<length (kinds T)]"
  by (auto simp: ordered_def list_all_iff)

lemma list_ordered: "ordered list_types"
  unfolding ordered_code by code_simp

lemma list_newtypes: "newtypes list_types = {}"
  by (auto simp: newtypes_def adt_def list_types_def split: if_splits)

lemma list_repr: "repr list_types 19 = 19"
proof -
  have "repr_loop n list_types 19 = 19" for n by (cases n) (simp_all add: list_kinds)
  then show ?thesis by (simp add: repr_def)
qed

lemma list_reach: "reach list_types 20 = [20, 19, 8]" "reach list_types 19 = [19, 8]"
  by code_simp+

theorem boxes_cut_every_cycle_witness:
  "acyclic {(t, c). c \<in> set (inline_components list_types t) \<and> \<not> is_boxed list_types t c}
   \<and> is_boxed list_types 19 19 \<and> \<not> is_boxed list_types 19 8"
  using boxes_cut_every_cycle [OF list_ordered]
  by (simp add: is_boxed_def list_kinds reaches_def inline_components_def)

theorem needs_drop_returns_witness: "needs_drop list_types 19 = Some True"
proof -
  have "acyclic (newtypes list_types)" by (simp add: list_newtypes acyclic_def)
  note needs_drop_returns [OF list_ordered this, of 19]
  moreover have "owns list_types 19"
    by (simp add: owns_def own_parts_def components_def variants_def list_repr list_kinds is_boxed_def
        reaches_def inline_components_def)
  ultimately show ?thesis by auto
qed

theorem can_cycle_filters_witness:
  "\<not> can_cycle list_types 20 \<and> kind list_types 20 = THandle Mutex 19
   \<and> (edges (ref_parts list_types))\<^sup>+ `` {20} \<subseteq> {u. cell_key list_types u \<noteq> cell_key list_types 20}"
proof -
  have "\<not> can_cycle list_types 20"
    by (simp add: can_cycle_def list_reach list_kinds cell_key_def)
  moreover note can_cycle_filters [OF this rtrancl.rtrancl_refl]
  ultimately show ?thesis by (auto simp: list_kinds handle_holds_def)
qed

end
