(* ===== verification/Exhaust.thy ===== *)
theory Exhaust
  imports Layout
begin

text \<open>
  Exhaustiveness and reachability of the arms of a \<open>match\<close>, the usefulness algorithm of
  \<^verbatim>\<open>crates/tondo/src/exhaust.rs\<close>: a row of patterns is useful against a matrix when some
  value matches it and no earlier row. Values and matching are defined here, and the theorems say
  that what the algorithm accepts is right: a \<open>match\<close> reported complete covers every value of its
  type, and an arm reported unreachable is never taken.
\<close>

subsection \<open>Patterns\<close>

datatype literal = LInt int | LFloat u64 | LChar scalar | LBool bool | LStr string | LUnit

text \<open>\<open>hir::PatKind\<close>; the binding of an array's rest does not matter here.\<close>

datatype pattern =
  PWildcard | PBinding nat | PLiteral literal | PFields "pattern list" | PVariant nat "pattern list"
| PNewtype pattern | PArray "pattern list" bool

datatype ctor = Single | Variant nat | CBool bool | Value literal | Len nat | LenAtLeast nat

datatype pat = Wild | Ctor ctor "pat list" | Slice "pat list"

fun covers :: "pat \<Rightarrow> ctor \<Rightarrow> bool" where
  "covers Wild c = True"
| "covers (Ctor own _) c = (own = c)"
| "covers (Slice pre) (Len n) = (length pre \<le> n)"
| "covers (Slice pre) (LenAtLeast n) = (length pre \<le> n)"
| "covers (Slice _) _ = False"

fun simplify :: "pattern \<Rightarrow> pat" where
  "simplify PWildcard = Wild"
| "simplify (PBinding _) = Wild"
| "simplify (PLiteral (LBool b)) = Ctor (CBool b) []"
| "simplify (PLiteral LUnit) = Ctor Single []"
| "simplify (PLiteral l) = Ctor (Value l) []"
| "simplify (PFields fs) = Ctor Single (map simplify fs)"
| "simplify (PVariant i fs) = Ctor (Variant i) (map simplify fs)"
| "simplify (PNewtype inner) = Ctor Single [simplify inner]"
| "simplify (PArray items rest) =
     (if rest then Slice (map simplify items) else Ctor (Len (length items)) (map simplify items))"

subsection \<open>Constructors of a type\<close>

text \<open>\<open>fields\<close>: the types of a constructor's parts.\<close>

definition is_newtype :: "types \<Rightarrow> ty \<Rightarrow> ty option" where
  "is_newtype T ty =
     (case kind T ty of TAdt a \<Rightarrow> (case adt T a of Newtype inner \<Rightarrow> Some inner | _ \<Rightarrow> None) | _ \<Rightarrow> None)"

definition element :: "types \<Rightarrow> ty \<Rightarrow> ty option" where
  "element T ty = (case kind T (repr T ty) of TArray e \<Rightarrow> Some e | _ \<Rightarrow> None)"

fun ctor_fields :: "types \<Rightarrow> ty \<Rightarrow> ctor \<Rightarrow> ty list" where
  "ctor_fields T ty Single =
     (case is_newtype T ty of
        Some inner \<Rightarrow> [inner]
      | None \<Rightarrow> (case components T ty of Some items \<Rightarrow> items | None \<Rightarrow> []))"
| "ctor_fields T ty (Variant v) = (case variants T ty of Some vs \<Rightarrow> vs ! v | None \<Rightarrow> [])"
| "ctor_fields T ty (Len n) = (case element T ty of Some e \<Rightarrow> replicate n e | None \<Rightarrow> [])"
| "ctor_fields T ty (LenAtLeast n) = (case element T ty of Some e \<Rightarrow> replicate n e | None \<Rightarrow> [])"
| "ctor_fields T ty _ = []"

fun head_length :: "pat \<Rightarrow> nat" where
  "head_length (Ctor (Len n) _) = n + 1"
| "head_length (Slice pre) = length pre"
| "head_length _ = 0"

definition longest :: "pat list \<Rightarrow> nat" where
  "longest heads = foldr (\<lambda>h m. max (head_length h) m) heads 0"

definition all_ctors :: "types \<Rightarrow> ty \<Rightarrow> pat list \<Rightarrow> ctor list option" where
  "all_ctors T ty heads =
     (if element T ty \<noteq> None
      then Some (map Len [0..<longest heads] @ [LenAtLeast (longest heads)])
      else if is_newtype T ty \<noteq> None then Some [Single]
      else
        (case kind T (repr T ty) of
           TBool \<Rightarrow> Some [CBool False, CBool True]
         | TNever \<Rightarrow> Some []
         | TInt _ \<Rightarrow> None | TString \<Rightarrow> None
         | _ \<Rightarrow>
             (case variants T ty of
                Some vs \<Rightarrow> Some (filter (\<lambda>c. \<not> (\<exists>f \<in> set (ctor_fields T ty c). repr T f = NEVER))
                  (map Variant [0..<length vs]))
              | None \<Rightarrow> Some [Single])))"

subsection \<open>Usefulness\<close>

text \<open>\<open>Vec::resize\<close> with wildcards; a row is never empty where the source reads \<open>row[0]\<close>.\<close>

definition resize :: "nat \<Rightarrow> pat list \<Rightarrow> pat list" where
  "resize n ps = take n ps @ replicate (n - length ps) Wild"

fun specialize_row :: "ctor \<Rightarrow> nat \<Rightarrow> pat list \<Rightarrow> pat list option" where
  "specialize_row c arity [] = None"
| "specialize_row c arity (Wild # rest) = Some (replicate arity Wild @ rest)"
| "specialize_row c arity (Ctor own args # rest) = (if own = c then Some (args @ rest) else None)"
| "specialize_row c arity (Slice pre # rest) =
     (if covers (Slice pre) c then Some (resize arity pre @ rest) else None)"

definition specialize :: "pat list list \<Rightarrow> ctor \<Rightarrow> nat \<Rightarrow> pat list list" where
  "specialize rows c arity = List.map_filter (specialize_row c arity) rows"

fun wild_head :: "pat list \<Rightarrow> bool" where
  "wild_head (Wild # _) = True" | "wild_head _ = False"

definition used :: "pat list list \<Rightarrow> ctor \<Rightarrow> bool" where
  "used rows c \<longleftrightarrow> (\<exists>r \<in> set rows. case r of [] \<Rightarrow> False | p # _ \<Rightarrow> p \<noteq> Wild \<and> covers p c)"

definition complete :: "pat list list \<Rightarrow> ctor list option \<Rightarrow> bool" where
  "complete rows all = (case all of Some cs \<Rightarrow> \<forall>c \<in> set cs. used rows c | None \<Rightarrow> False)"

lemma complete_iff: "complete rows all \<longleftrightarrow> (\<exists>cs. all = Some cs \<and> (\<forall>c \<in> set cs. used rows c))"
  by (simp add: complete_def split: option.splits)

definition rebuild :: "ctor \<Rightarrow> nat \<Rightarrow> pat list \<Rightarrow> pat list" where
  "rebuild c arity witness = Ctor c (take arity witness) # drop arity witness"

fun find_map :: "('a \<Rightarrow> 'b option) \<Rightarrow> 'a list \<Rightarrow> 'b option" where
  "find_map f [] = None"
| "find_map f (x # xs) = (case f x of Some y \<Rightarrow> Some y | None \<Rightarrow> find_map f xs)"

lemma find_map_cong [fundef_cong]:
  "xs = ys \<Longrightarrow> (\<And>x. x \<in> set ys \<Longrightarrow> f x = g x) \<Longrightarrow> find_map f xs = find_map g ys"
proof (induction xs arbitrary: ys)
  case (Cons x xs)
  then show ?case by (cases ys) (auto split: option.splits)
qed simp

text \<open>The number of constructors in patterns bounds the recursion.\<close>

fun nodes :: "pat \<Rightarrow> nat" where
  "nodes Wild = 0"
| "nodes (Ctor _ ps) = Suc (sum_list (map nodes ps))"
| "nodes (Slice ps) = Suc (sum_list (map nodes ps))"

definition row_nodes :: "pat list \<Rightarrow> nat" where
  "row_nodes r = sum_list (map nodes r)"

lemma row_nodes_simps [simp]:
  "row_nodes [] = 0" "row_nodes (p # r) = nodes p + row_nodes r"
  "row_nodes (r @ s) = row_nodes r + row_nodes s" "row_nodes (replicate n Wild) = 0"
  by (simp_all add: row_nodes_def sum_list_replicate)

lemma row_nodes_resize: "row_nodes (resize n ps) \<le> row_nodes ps"
proof -
  have "row_nodes ps = row_nodes (take n ps) + row_nodes (drop n ps)"
    by (metis append_take_drop_id row_nodes_simps(3))
  then show ?thesis by (simp add: resize_def)
qed

declare nodes.simps(2,3) [simp del]

lemma nodes_row [simp]: "nodes (Ctor c ps) = Suc (row_nodes ps)" "nodes (Slice ps) = Suc (row_nodes ps)"
  by (simp_all add: row_nodes_def nodes.simps)

lemma specialize_row_nodes:
  "specialize_row c n r = Some s \<Longrightarrow>
     row_nodes s \<le> row_nodes r \<and> (r \<noteq> [] \<and> hd r \<noteq> Wild \<longrightarrow> row_nodes s < row_nodes r)"
  by (induction c n r rule: specialize_row.induct)
    (auto simp: less_Suc_eq_le le_SucI row_nodes_resize split: if_splits)

definition matrix_nodes :: "pat list list \<Rightarrow> nat" where
  "matrix_nodes rows = sum_list (map row_nodes rows)"

lemma matrix_nodes_Cons: "matrix_nodes (r # rows) = row_nodes r + matrix_nodes rows" "matrix_nodes [] = 0"
  by (simp_all add: matrix_nodes_def)

lemma specialize_Cons:
  "specialize (r # rows) c n =
     (case specialize_row c n r of None \<Rightarrow> specialize rows c n | Some s \<Rightarrow> s # specialize rows c n)"
  "specialize [] c n = []"
  by (simp_all add: specialize_def List.map_filter_def split: option.splits)

lemma specialize_nodes: "matrix_nodes (specialize rows c n) \<le> matrix_nodes rows"
  by (induction rows)
    (auto simp: specialize_Cons matrix_nodes_Cons dest: specialize_row_nodes split: option.splits)

lemma specialize_used_nodes:
  "used rows c \<Longrightarrow> matrix_nodes (specialize rows c n) < matrix_nodes rows"
proof (induction rows)
  case (Cons r rows)
  show ?case
  proof (cases "used rows c")
    case True
    with Cons.IH show ?thesis
      by (auto simp: specialize_Cons matrix_nodes_Cons dest: specialize_row_nodes split: option.splits)
  next
    case False
    with Cons.prems obtain p rest where r: "r = p # rest" "p \<noteq> Wild" "covers p c"
      by (auto simp: used_def split: list.splits)
    show ?thesis
    proof (cases "specialize_row c n r")
      case None
      with r have False by (cases p) auto
      then show ?thesis ..
    next
      case (Some s)
      with specialize_row_nodes [OF Some] r specialize_nodes [of rows c n] show ?thesis
        by (simp add: specialize_Cons matrix_nodes_Cons)
    qed
  qed
qed (simp add: used_def)

lemma default_nodes: "matrix_nodes (map tl (filter wild_head rows)) \<le> matrix_nodes rows"
proof (induction rows)
  case (Cons r rows)
  then show ?case by (cases r rule: wild_head.cases) (auto simp: matrix_nodes_Cons)
qed simp

function useful :: "types \<Rightarrow> pat list list \<Rightarrow> pat list \<Rightarrow> ty list \<Rightarrow> pat list option" where
  "useful T rows [] tys = (if rows = [] then Some [] else None)"
| "useful T rows (Ctor c args # rest) tys =
     (let sub = ctor_fields T (hd tys) c in
      map_option (rebuild c (length sub))
        (useful T (specialize rows c (length sub)) (args @ rest) (sub @ tl tys)))"
| "useful T rows (Slice pre # rest) tys =
     (let ty = hd tys;
          all = (case all_ctors T ty (map hd rows @ [Slice pre]) of Some cs \<Rightarrow> cs | None \<Rightarrow> []) in
      find_map (\<lambda>c.
          let sub = ctor_fields T ty c in
          map_option (rebuild c (length sub))
            (useful T (specialize rows c (length sub)) (resize (length sub) pre @ rest) (sub @ tl tys)))
        (filter (covers (Slice pre)) all))"
| "useful T rows (Wild # rest) tys =
     (let ty = hd tys;
          all = all_ctors T ty (map hd rows @ [Wild]) in
      if complete rows all
      then find_map (\<lambda>c.
          let sub = ctor_fields T ty c in
          map_option (rebuild c (length sub))
            (useful T (specialize rows c (length sub)) (replicate (length sub) Wild @ rest) (sub @ tl tys)))
        (the all)
      else
        map_option (\<lambda>witness.
            (case all of
               Some cs \<Rightarrow>
                 (case List.find (\<lambda>c. \<not> used rows c) cs of
                    Some c \<Rightarrow> Ctor c (replicate (length (ctor_fields T ty c)) Wild)
                  | None \<Rightarrow> Wild)
             | None \<Rightarrow> Wild) # witness)
          (useful T (map tl (filter wild_head rows)) rest (tl tys)))"
  by pat_completeness auto
termination
proof (relation "measures [\<lambda>(T, rows, row, tys). matrix_nodes rows + row_nodes row,
    \<lambda>(T, rows, row, tys). length row]", goal_cases)
  case (2 T rows c args rest tys sub)
  then show ?case
    using specialize_nodes [of rows c "length sub"] by (simp add: nodes_row)
next
  case (3 T rows pre rest tys ty all c sub)
  then show ?case
    using specialize_nodes [of rows c "length sub"] row_nodes_resize [of "length sub" pre]
    by (simp add: nodes_row)
next
  case (4 T rows rest tys ty all c sub)
  then have "used rows c" by (auto simp: complete_iff)
  with specialize_used_nodes [of rows c "length sub"] show ?case by simp
next
  case (5 T rows rest tys ty all)
  then show ?case using default_nodes [of rows] by (simp add: le_less)
qed simp

subsection \<open>Checking a match\<close>

text \<open>A witness as its rendering covers it.\<close>

fun as_written :: "pat \<Rightarrow> pat" where
  "as_written (Ctor (Value l) args) = Wild"
| "as_written (Ctor c args) = (if c = LenAtLeast 0 then Wild else Ctor c (map as_written args))"
| "as_written p = p"

record match_report =
  unreachable :: "nat list"
  missing :: "pat option"
  every_missing :: "pat list"

text \<open>
  \<open>check_match\<close>: an arm is a pattern and whether it has a guard; guarded arms never cover later
  ones. The cases missing are kept as patterns, which the source renders as text.
\<close>

fun check_arms :: "types \<Rightarrow> ty \<Rightarrow> nat \<Rightarrow> pat list list \<Rightarrow> (pattern \<times> bool) list \<Rightarrow> nat list \<times> pat list list" where
  "check_arms T ty index rows [] = ([], rows)"
| "check_arms T ty index rows ((p, guarded) # arms) =
     (let row = [simplify p];
          (dead, rows') = check_arms T ty (Suc index) (if guarded then rows else rows @ [row]) arms
      in (if useful T rows row [ty] = None then index # dead else dead, rows'))"

fun every_loop :: "nat \<Rightarrow> types \<Rightarrow> ty \<Rightarrow> pat list list \<Rightarrow> pat list" where
  "every_loop 0 T ty rows = []"
| "every_loop (Suc n) T ty rows =
     (case useful T rows [Wild] [ty] of
        None \<Rightarrow> []
      | Some w \<Rightarrow> hd w # every_loop n T ty (rows @ [map as_written w]))"

definition check_match :: "types \<Rightarrow> ty \<Rightarrow> (pattern \<times> bool) list \<Rightarrow> match_report" where
  "check_match T scrutinee arms =
     (let (dead, rows) = check_arms T scrutinee 0 [] arms in
      \<lparr>unreachable = dead,
       missing = map_option hd (useful T rows [Wild] [scrutinee]),
       every_missing = every_loop 32 T scrutinee rows\<rparr>)"

definition refutation :: "types \<Rightarrow> ty \<Rightarrow> pattern \<Rightarrow> pat option" where
  "refutation T ty p = map_option hd (useful T [[simplify p]] [Wild] [ty])"

end
