(* ===== verification/Matching.thy ===== *)
theory Matching
  imports Exhaust
begin

text \<open>
  Values, what patterns match, and the correctness of the usefulness algorithm: soundness of
  \<open>check_match\<close> on well-typed patterns, for recursive types, newtypes, unions and arrays.
\<close>

subsection \<open>Values\<close>

text \<open>
  A value as a \<open>match\<close> looks at it: the parts of a tuple, record, newtype or unit, the active
  variant of an enum, option, result or union, a Boolean, an array, or anything else, which
  patterns only compare with literals.
\<close>

datatype val = VNode "val list" | VVariant nat "val list" | VBool bool | VLit literal | VArray "val list"

inductive has_type :: "types \<Rightarrow> val \<Rightarrow> ty \<Rightarrow> bool" for T where
  newtype: "is_newtype T ty = Some inner \<Longrightarrow> has_type T v inner \<Longrightarrow> has_type T (VNode [v]) ty"
| bool: "is_newtype T ty = None \<Longrightarrow> kind T ty = TBool \<Longrightarrow> has_type T (VBool b) ty"
| arrays: "is_newtype T ty = None \<Longrightarrow> kind T ty = TArray e \<Longrightarrow> (\<forall>i < length vs. has_type T (vs ! i) e) \<Longrightarrow>
    has_type T (VArray vs) ty"
| variant: "is_newtype T ty = None \<Longrightarrow> variants T ty = Some cs \<Longrightarrow> i < length cs \<Longrightarrow>
    length vs = length (cs ! i) \<Longrightarrow> (\<forall>j < length vs. has_type T (vs ! j) (cs ! i ! j)) \<Longrightarrow>
    has_type T (VVariant i vs) ty"
| parts: "is_newtype T ty = None \<Longrightarrow> components T ty = Some cs \<Longrightarrow> length vs = length cs \<Longrightarrow>
    (\<forall>j < length vs. has_type T (vs ! j) (cs ! j)) \<Longrightarrow> has_type T (VNode vs) ty"
| unit: "kind T ty = TUnit \<Longrightarrow> has_type T (VNode []) ty"
| other: "is_newtype T ty = None \<Longrightarrow> components T ty = None \<Longrightarrow> variants T ty = None \<Longrightarrow>
    kind T ty \<notin> {TBool, TUnit, TNever} \<Longrightarrow> element T ty = None \<Longrightarrow> has_type T (VLit l) ty"

text \<open>The parts of a value built with a constructor.\<close>

fun view :: "ctor \<Rightarrow> val \<Rightarrow> val list option" where
  "view Single (VNode vs) = Some vs"
| "view Single (VLit _) = Some []"
| "view (Variant i) (VVariant j vs) = (if i = j then Some vs else None)"
| "view (CBool b) (VBool c) = (if b = c then Some [] else None)"
| "view (Value l) (VLit m) = (if l = m then Some [] else None)"
| "view (Len n) (VArray vs) = (if length vs = n then Some vs else None)"
| "view (LenAtLeast n) (VArray vs) = (if n \<le> length vs then Some (take n vs) else None)"
| "view _ _ = None"

text \<open>Matching, of the patterns of the algorithm and of those of the program.\<close>

fun pmatch :: "pat \<Rightarrow> val \<Rightarrow> bool" and pmatches :: "pat list \<Rightarrow> val list \<Rightarrow> bool" where
  "pmatch Wild v = True"
| "pmatch (Ctor c ps) v = (case view c v of Some vs \<Rightarrow> pmatches ps vs | None \<Rightarrow> False)"
| "pmatch (Slice ps) v =
     (case v of VArray vs \<Rightarrow> length ps \<le> length vs \<and> pmatches ps (take (length ps) vs) | _ \<Rightarrow> False)"
| "pmatches [] vs = (vs = [])"
| "pmatches (p # ps) [] = False"
| "pmatches (p # ps) (v # vs) = (pmatch p v \<and> pmatches ps vs)"

fun matches :: "pattern \<Rightarrow> val \<Rightarrow> bool" and all_match :: "pattern list \<Rightarrow> val list \<Rightarrow> bool" where
  "matches PWildcard v = True"
| "matches (PBinding _) v = True"
| "matches (PLiteral l) v =
     (case l of LBool b \<Rightarrow> v = VBool b | LUnit \<Rightarrow> (v = VNode [] \<or> (\<exists>m. v = VLit m)) | _ \<Rightarrow> v = VLit l)"
| "matches (PFields fs) v =
     (case v of VNode vs \<Rightarrow> all_match fs vs | VLit _ \<Rightarrow> fs = [] | _ \<Rightarrow> False)"
| "matches (PVariant i fs) v = (case v of VVariant j vs \<Rightarrow> i = j \<and> all_match fs vs | _ \<Rightarrow> False)"
| "matches (PNewtype p) v = (case v of VNode [w] \<Rightarrow> matches p w | _ \<Rightarrow> False)"
| "matches (PArray items rest) v =
     (case v of
        VArray vs \<Rightarrow>
          (if rest then length items \<le> length vs else length items = length vs) \<and>
          all_match items (take (length items) vs)
      | _ \<Rightarrow> False)"
| "all_match [] vs = (vs = [])"
| "all_match (p # ps) [] = False"
| "all_match (p # ps) (v # vs) = (matches p v \<and> all_match ps vs)"

lemma pmatches_list_all2: "pmatches ps vs \<longleftrightarrow> list_all2 pmatch ps vs"
  by (induction ps vs rule: list_induct2') simp_all

lemma all_match_list_all2: "all_match ps vs \<longleftrightarrow> list_all2 matches ps vs"
  by (induction ps vs rule: list_induct2') simp_all

lemma matches_simplify: "matches p v \<longleftrightarrow> pmatch (simplify p) v"
  and all_match_simplify: "all_match ps vs \<longleftrightarrow> pmatches (map simplify ps) vs"
proof (induction p v and ps vs rule: matches_all_match.induct)
  case (3 l v)
  then show ?case by (cases l; cases v) auto
next
  case (4 fs v)
  then show ?case by (cases v) (auto simp: pmatches_list_all2)
next
  case (5 i fs v)
  then show ?case by (cases v) auto
next
  case (6 p v)
  then show ?case by (cases v) (auto split: list.splits)
next
  case (7 items rest v)
  then show ?case by (cases v) auto
qed simp_all

subsection \<open>Well-typed patterns\<close>

text \<open>What the checker builds: an array pattern only on an array, as many parts as the type has.\<close>

definition proper :: "types \<Rightarrow> ty \<Rightarrow> ctor \<Rightarrow> bool" where
  "proper T ty c \<longleftrightarrow>
     (case c of Len _ \<Rightarrow> is_newtype T ty = None | LenAtLeast _ \<Rightarrow> is_newtype T ty = None | _ \<Rightarrow> True)"

fun ptyped :: "types \<Rightarrow> ty \<Rightarrow> pat \<Rightarrow> bool" and ptypeds :: "types \<Rightarrow> ty list \<Rightarrow> pat list \<Rightarrow> bool" where
  "ptyped T ty Wild = True"
| "ptyped T ty (Ctor c ps) = (proper T ty c \<and> ptypeds T (ctor_fields T ty c) ps)"
| "ptyped T ty (Slice ps) = (is_newtype T ty = None \<and> ptypeds T (ctor_fields T ty (Len (length ps))) ps)"
| "ptypeds T tys [] = (tys = [])"
| "ptypeds T [] (p # ps) = False"
| "ptypeds T (t # tys) (p # ps) = (ptyped T t p \<and> ptypeds T tys ps)"

lemma ptypeds_list_all2: "ptypeds T tys ps \<longleftrightarrow> list_all2 (ptyped T) tys ps"
  by (induction tys ps rule: list_induct2') simp_all

declare ptypeds_list_all2 [simp] pmatches_list_all2 [simp]

lemma repr_not_newtype: "is_newtype T ty = None \<Longrightarrow> repr T ty = ty"
proof -
  assume "is_newtype T ty = None"
  then have "repr_loop n T ty = ty" for n
    by (cases n) (auto simp: is_newtype_def split: ty_kind.splits adt_kind.splits)
  then show ?thesis by (simp add: repr_def)
qed

lemma element_kind: "is_newtype T ty = None \<Longrightarrow> element T ty = Some e \<longleftrightarrow> kind T ty = TArray e"
  by (auto simp: element_def repr_not_newtype split: ty_kind.splits)

text \<open>The parts of a typed value have the types of the constructor's fields.\<close>

lemma view_typed:
  assumes "has_type T v ty" "view c v = Some vs"
  shows "list_all2 (has_type T) vs (ctor_fields T ty c)"
  using assms
proof (cases rule: has_type.cases)
  case (newtype inner w)
  with assms(2) show ?thesis by (cases c) auto
next
  case (bool b)
  with assms(2) show ?thesis by (cases c) (simp_all split: if_splits)
next
  case (arrays e ws)
  then have "element T ty = Some e" by (simp add: element_kind)
  with arrays assms(2) show ?thesis
    by (cases c) (auto simp: list_all2_conv_all_nth split: if_splits)
next
  case (variant cs i ws)
  with assms(2) show ?thesis by (cases c) (auto simp: list_all2_conv_all_nth split: if_splits)
next
  case (parts cs ws)
  with assms(2) show ?thesis by (cases c) (auto simp: list_all2_conv_all_nth)
next
  case unit
  then have "is_newtype T ty = None" by (simp add: is_newtype_def)
  moreover from this unit have "components T ty = None" by (simp add: components_def repr_not_newtype)
  ultimately show ?thesis using unit assms(2) by (cases c) simp_all
next
  case (other l)
  with assms(2) show ?thesis by (cases c) (auto split: if_splits)
qed

text \<open>A newtype has the representation of what it wraps; nothing is of a type represented by
  \<open>Never\<close>.\<close>

lemma repr_loop_more:
  "is_newtype T (repr_loop n T t) = None \<Longrightarrow> repr_loop (Suc n) T t = repr_loop n T t"
proof (induction n arbitrary: t)
  case 0
  then show ?case by (auto simp: is_newtype_def split: ty_kind.splits adt_kind.splits)
next
  case (Suc n)
  show ?case
  proof (cases "is_newtype T t")
    case None
    then have "repr_loop m T t = t" for m
      by (cases m) (auto simp: is_newtype_def split: ty_kind.splits adt_kind.splits)
    then show ?thesis by simp
  next
    case (Some u)
    then have "repr_loop (Suc m) T t = repr_loop m T u" for m
      by (auto simp: is_newtype_def split: ty_kind.splits adt_kind.splits)
    with Suc show ?thesis by simp
  qed
qed

lemma is_newtype_iff: "is_newtype T t = Some u \<longleftrightarrow> (t, u) \<in> newtypes T"
  by (auto simp: is_newtype_def newtypes_def split: ty_kind.splits adt_kind.splits)

lemma repr_newtype:
  assumes "is_newtype T ty = Some inner" "acyclic (newtypes T)"
  shows "repr T ty = repr T inner"
proof -
  have "length (kinds T) \<noteq> 0" using assms(1) by (auto simp: is_newtype_def kind_def split: if_splits)
  then obtain n where n: "length (kinds T) = Suc n" by (cases "length (kinds T)") auto
  have "repr T ty = repr_loop n T inner"
    using assms(1) by (auto simp: repr_def n is_newtype_def split: ty_kind.splits adt_kind.splits)
  moreover have "is_newtype T (repr T ty) = None"
    using repr_done [OF assms(2), of ty] is_newtype_iff [of T "repr T ty"]
    by (cases "is_newtype T (repr T ty)") auto
  ultimately show ?thesis using repr_loop_more [of T n inner] by (simp add: repr_def n)
qed

lemma no_never_value:
  assumes "has_type T v ty" "acyclic (newtypes T)"
  shows "kind T (repr T ty) \<noteq> TNever"
  using assms(1)
proof (induction rule: has_type.induct)
  case (newtype ty inner v)
  then show ?case by (simp add: repr_newtype assms(2))
next
  case (unit ty)
  then have "repr T ty = ty" by (intro repr_not_newtype) (simp add: is_newtype_def)
  with unit show ?case by simp
qed (auto simp: repr_not_newtype element_def components_def variants_def)

subsection \<open>Soundness\<close>

text \<open>The parts of a matched value match the specialised row, and back.\<close>

lemma longest_ge: "h \<in> set heads \<Longrightarrow> head_length h \<le> longest heads"
  by (induction heads) (auto simp: longest_def)

lemma array_ctor:
  assumes "length pre \<le> longest heads"
  shows "\<exists>c \<in> set (map Len [0..<longest heads] @ [LenAtLeast (longest heads)]).
    view c (VArray vs) \<noteq> None \<and> (length pre \<le> length vs \<longrightarrow> covers (Slice pre) c)"
proof (cases "length vs < longest heads")
  case True
  then have "Len (length vs) \<in> set (map Len [0..<longest heads])" by simp
  then show ?thesis by (intro bexI [of _ "Len (length vs)"]) auto
next
  case False
  with assms show ?thesis by (intro bexI [of _ "LenAtLeast (longest heads)"]) auto
qed

lemma pmatches_replicate_Wild: "list_all2 pmatch (replicate n Wild) vs \<longleftrightarrow> length vs = n"
  by (auto simp: list_all2_conv_all_nth)

lemma pmatches_resize:
  assumes "list_all2 pmatch ps (take (length ps) vs)" "length ps \<le> length vs"
  shows "list_all2 pmatch (resize (length vs) ps) vs"
proof -
  have "list_all2 pmatch (ps @ replicate (length vs - length ps) Wild)
      (take (length ps) vs @ drop (length ps) vs)"
    using assms by (intro list_all2_appendI) (simp_all add: pmatches_replicate_Wild)
  with assms(2) show ?thesis by (simp add: resize_def)
qed

lemma resize_pmatches:
  assumes "list_all2 pmatch (resize n ps) vs" "length ps \<le> n"
  shows "length vs = n \<and> list_all2 pmatch ps (take (length ps) vs)"
proof -
  have "resize n ps = ps @ replicate (n - length ps) Wild" using assms(2) by (simp add: resize_def)
  with assms(1) obtain us ws where "vs = us @ ws" "list_all2 pmatch ps us" "length ws = n - length ps"
    by (auto simp: list_all2_append1 pmatches_replicate_Wild)
  moreover from this have "length us = length ps" by (simp add: list_all2_lengthD)
  ultimately show ?thesis using assms(2) by simp
qed

lemma specialize_row_matches:
  assumes "specialize_row c (length fs) (p # rest) = Some s" "view c v = Some fs"
    "ptyped T ty p" "length (ctor_fields T ty c) = length fs"
    "list_all2 pmatch s (fs @ ws)"
  shows "list_all2 pmatch (p # rest) (v # ws)"
proof (cases p)
  case Wild
  with assms(1,5) have "list_all2 pmatch (replicate (length fs) Wild @ rest) (fs @ ws)" by simp
  then show ?thesis using Wild by (simp add: list_all2_append)
next
  case (Ctor own args)
  with assms(1) have own: "own = c" "s = args @ rest" by (simp_all split: if_splits)
  have "length args = length fs" using assms(3,4) Ctor own by (auto dest: list_all2_lengthD)
  with assms(2,5) own Ctor show ?thesis by (simp add: list_all2_append)
next
  case (Slice pre)
  with assms(1) have s: "covers (Slice pre) c" "s = resize (length fs) pre @ rest"
    by (simp_all split: if_splits)
  have "length (resize (length fs) pre) = length fs" by (simp add: resize_def)
  with assms(5) s have both: "list_all2 pmatch (resize (length fs) pre) fs" "list_all2 pmatch rest ws"
    by (simp_all add: list_all2_append)
  obtain vs n where n: "v = VArray vs" "length pre \<le> n" "n \<le> length vs" "fs = take n vs" "length fs = n"
    using s(1) assms(2) by (cases c; cases v) (auto split: if_splits)
  with resize_pmatches [OF both(1)] have "list_all2 pmatch pre (take (length pre) vs)"
    by (simp add: min_def)
  with n both(2) Slice show ?thesis by simp
qed

lemma ptyped_replicate_Wild: "list_all2 (ptyped T) tys (replicate n Wild) \<longleftrightarrow> length tys = n"
  by (auto simp: list_all2_conv_all_nth)

lemma specialize_row_typed:
  assumes "list_all2 (ptyped T) (ty # tys) r" "specialize_row c (length (ctor_fields T ty c)) r = Some s"
  shows "list_all2 (ptyped T) (ctor_fields T ty c @ tys) s"
proof -
  obtain p rest where r: "r = p # rest" "ptyped T ty p" "list_all2 (ptyped T) tys rest"
    using assms(1) by (auto simp: list_all2_Cons1)
  show ?thesis
  proof (cases p)
    case Wild
    with assms(2) r show ?thesis by (auto intro!: list_all2_appendI simp: ptyped_replicate_Wild)
  next
    case (Ctor own args)
    with assms(2) r show ?thesis by (auto intro!: list_all2_appendI split: if_splits)
  next
    case (Slice pre)
    with assms(2) r have s: "covers (Slice pre) c" "s = resize (length (ctor_fields T ty c)) pre @ rest"
      by (simp_all split: if_splits)
    have "list_all2 (ptyped T) (ctor_fields T ty c) (resize (length (ctor_fields T ty c)) pre)"
    proof (cases "element T ty")
      case None
      with r Slice s(1) show ?thesis by (cases c) (auto simp: resize_def)
    next
      case (Some e)
      with s(1) obtain n where n: "ctor_fields T ty c = replicate n e" "length pre \<le> n"
        by (cases c) auto
      with r Slice Some show ?thesis
        by (auto simp: resize_def list_all2_conv_all_nth nth_append)
    qed
    with r s show ?thesis by (auto intro: list_all2_appendI)
  qed
qed

lemma specialize_typed:
  assumes "\<forall>r \<in> set rows. list_all2 (ptyped T) (ty # tys) r"
  shows "\<forall>r \<in> set (specialize rows c (length (ctor_fields T ty c))). list_all2 (ptyped T) (ctor_fields T ty c @ tys) r"
proof
  fix s
  assume "s \<in> set (specialize rows c (length (ctor_fields T ty c)))"
  then obtain r where "r \<in> set rows" "specialize_row c (length (ctor_fields T ty c)) r = Some s"
    by (auto simp: specialize_def List.map_filter_def)
  with assms specialize_row_typed show "list_all2 (ptyped T) (ctor_fields T ty c @ tys) s" by blast
qed

lemma default_typed:
  assumes "\<forall>r \<in> set rows. list_all2 (ptyped T) (ty # tys) r"
  shows "\<forall>r \<in> set (map tl (filter wild_head rows)). list_all2 (ptyped T) tys r"
  using assms by (auto simp: list_all2_Cons1)

lemma specialize_matches:
  assumes "s \<in> set (specialize rows c (length fs))" "\<forall>r \<in> set rows. list_all2 (ptyped T) (ty # tys) r"
    "view c v = Some fs" "length (ctor_fields T ty c) = length fs" "list_all2 pmatch s (fs @ ws)"
  shows "\<exists>r \<in> set rows. list_all2 pmatch r (v # ws)"
proof -
  obtain r where r: "r \<in> set rows" "specialize_row c (length fs) r = Some s"
    using assms(1) by (auto simp: specialize_def List.map_filter_def)
  then obtain p rest where "r = p # rest" "ptyped T ty p" using assms(2) by (auto simp: list_all2_Cons1)
  with specialize_row_matches [OF _ assms(3) _ assms(4,5)] r show ?thesis by blast
qed

subsection \<open>The constructors of a type build all its values\<close>

definition type_table :: "types \<Rightarrow> bool" where
  "type_table T \<longleftrightarrow> ordered T \<and> acyclic (newtypes T) \<and> kind T NEVER = TNever"

lemma never_field: "type_table T \<Longrightarrow> has_type T v t \<Longrightarrow> repr T t \<noteq> NEVER"
  using no_never_value by (metis type_table_def)

lemma ctor_of_value:
  assumes "type_table T" "has_type T v ty" "all_ctors T ty heads = Some cs"
    "element T ty \<noteq> None \<Longrightarrow> is_newtype T ty = None"
  shows "\<exists>c \<in> set cs. view c v \<noteq> None"
  using assms(2)
proof (cases rule: has_type.cases)
  case (newtype inner w)
  with assms(3,4) have "cs = [Single]" by (auto simp: all_ctors_def split: if_splits)
  with newtype show ?thesis by simp
next
  case (bool b)
  then have "repr T ty = ty" by (simp add: repr_not_newtype)
  with bool assms(3) have "cs = [CBool False, CBool True]"
    by (auto simp: all_ctors_def element_def split: if_splits)
  with bool show ?thesis by (cases b) simp_all
next
  case (arrays e vs)
  then have "element T ty \<noteq> None" by (auto simp: element_kind)
  with assms(3) have "cs = map Len [0..<longest heads] @ [LenAtLeast (longest heads)]"
    by (simp add: all_ctors_def)
  with array_ctor [of "[]" heads vs] arrays show ?thesis by auto
next
  case (variant vs i ws)
  have r: "repr T ty = ty" using variant by (simp add: repr_not_newtype)
  then have "element T ty = None" "kind T ty \<notin> {TBool, TNever, TString}" "\<And>n. kind T ty \<noteq> TInt n"
    using variant by (auto simp: element_def variants_def split: ty_kind.splits)
  then have cs: "cs = filter (\<lambda>c. \<not> (\<exists>f \<in> set (ctor_fields T ty c). repr T f = NEVER)) (map Variant [0..<length vs])"
    using assms(3) variant r by (auto simp: all_ctors_def split: if_splits ty_kind.splits)
  have "repr T f \<noteq> NEVER" if "f \<in> set (vs ! i)" for f
    using that variant never_field [OF assms(1)] by (metis in_set_conv_nth)
  with variant have "Variant i \<in> set cs" by (auto simp: cs)
  with variant show ?thesis by (intro bexI [of _ "Variant i"]) simp_all
next
  case (parts ts vs)
  have "view Single v \<noteq> None" using parts by simp
  moreover have "cs = [Single]"
  proof -
    have "repr T ty = ty" using parts by (simp add: repr_not_newtype)
    then show ?thesis
      using assms(3) parts
      by (auto simp: all_ctors_def element_def components_def variants_def
          split: if_splits ty_kind.splits adt_kind.splits)
  qed
  ultimately show ?thesis by simp
next
  case unit
  then have "is_newtype T ty = None" by (simp add: is_newtype_def)
  moreover from this have "repr T ty = ty" by (rule repr_not_newtype)
  ultimately have "cs = [Single]"
    using assms(3) unit by (simp add: all_ctors_def element_def variants_def)
  with unit show ?thesis by simp
next
  case (other l)
  then have r: "repr T ty = ty" by (simp add: repr_not_newtype)
  have "cs = [Single]"
    using assms(3) other r by (auto simp: all_ctors_def split: if_splits ty_kind.splits)
  with other show ?thesis by simp
qed

lemma find_map_None: "find_map f xs = None \<longleftrightarrow> (\<forall>x \<in> set xs. f x = None)"
  by (induction xs) (auto split: option.splits)

text \<open>An array pattern, or a used length, shows that the type is an array and not a newtype.\<close>

lemma used_array:
  assumes "used rows (LenAtLeast n)" "\<forall>r \<in> set rows. list_all2 (ptyped T) (ty # tys) r"
  shows "is_newtype T ty = None"
proof -
  obtain r where r: "r \<in> set rows" "case r of [] \<Rightarrow> False | p # _ \<Rightarrow> p \<noteq> Wild \<and> covers p (LenAtLeast n)"
    using assms(1) unfolding used_def by blast
  obtain p rest where "r = p # rest" using r(2) by (cases r) simp_all
  with r have p: "p # rest \<in> set rows" "p \<noteq> Wild" "covers p (LenAtLeast n)" by simp_all
  with assms(2) have "ptyped T ty p" by fastforce
  with p(2,3) show ?thesis by (cases p) (auto simp: proper_def)
qed

text \<open>One constructor: if the specialised row is useless, so is the row for its values.\<close>

lemma useful_step:
  assumes IH: "\<And>ws. list_all2 (has_type T) ws (ctor_fields T ty c @ tys) \<Longrightarrow> list_all2 pmatch (head @ rest) ws \<Longrightarrow>
      \<exists>r \<in> set (specialize rows c (length (ctor_fields T ty c))). list_all2 pmatch r ws"
    and rows: "\<forall>r \<in> set rows. list_all2 (ptyped T) (ty # tys) r"
    and v: "has_type T v ty" "view c v = Some fs" "list_all2 pmatch head fs"
    and ws: "list_all2 (has_type T) ws tys" "list_all2 pmatch rest ws"
  shows "\<exists>r \<in> set rows. list_all2 pmatch r (v # ws)"
proof -
  have fs: "list_all2 (has_type T) fs (ctor_fields T ty c)" using v(1,2) by (rule view_typed)
  then have len: "length (ctor_fields T ty c) = length fs" by (simp add: list_all2_lengthD)
  have "\<exists>r \<in> set (specialize rows c (length (ctor_fields T ty c))). list_all2 pmatch r (fs @ ws)"
    using fs v(3) ws by (intro IH list_all2_appendI)
  then show ?thesis using specialize_matches [OF _ rows v(2) len] len by auto
qed

lemma useful_sound:
  "useful T rows row tys = None \<Longrightarrow> type_table T \<Longrightarrow> list_all2 (ptyped T) tys row \<Longrightarrow>
    \<forall>r \<in> set rows. list_all2 (ptyped T) tys r \<Longrightarrow> list_all2 (has_type T) vs tys \<Longrightarrow>
    list_all2 pmatch row vs \<Longrightarrow> \<exists>r \<in> set rows. list_all2 pmatch r vs"
proof (induction T rows row tys arbitrary: vs rule: useful.induct)
  case (1 T rows tys)
  then show ?case by (cases rows) (auto split: if_splits)
next
  case (2 T rows c args rest tys)
  from 2 obtain ty tys' where tys: "tys = ty # tys'" by (cases tys) auto
  from 2 tys obtain v ws where vs: "vs = v # ws" "has_type T v ty" "list_all2 (has_type T) ws tys'"
    by (auto simp: list_all2_Cons2)
  from "2.prems"(6) vs(1) obtain fs where fs: "view c v = Some fs" "list_all2 pmatch args fs"
    "list_all2 pmatch rest ws" by (auto split: option.splits)
  have none: "useful T (specialize rows c (length (ctor_fields T ty c))) (args @ rest) (ctor_fields T ty c @ tys') = None"
    using "2.prems"(1) by (simp add: tys Let_def)
  have row: "list_all2 (ptyped T) (ctor_fields T ty c @ tys') (args @ rest)"
    using "2.prems"(3) tys by (auto intro: list_all2_appendI)
  have rows: "\<forall>r \<in> set rows. list_all2 (ptyped T) (ty # tys') r" using "2.prems"(4) tys by simp
  show ?case
    unfolding vs(1)
  proof (rule useful_step [where head = args and rest = rest])
    fix ws'
    assume "list_all2 (has_type T) ws' (ctor_fields T ty c @ tys')" "list_all2 pmatch (args @ rest) ws'"
    then show "\<exists>r \<in> set (specialize rows c (length (ctor_fields T ty c))). list_all2 pmatch r ws'"
      using "2.IH" [OF refl, of ws'] none row specialize_typed [OF rows] "2.prems"(2) tys by simp
  qed (use fs vs rows in simp_all)
next
  case (3 T rows pre rest tys)
  from 3 obtain ty tys' where tys: "tys = ty # tys'" by (cases tys) auto
  from 3 tys obtain v ws where vs: "vs = v # ws" "has_type T v ty" "list_all2 (has_type T) ws tys'"
    by (auto simp: list_all2_Cons2)
  from "3.prems"(6) vs(1) obtain xs where xs: "v = VArray xs" "length pre \<le> length xs"
    "list_all2 pmatch pre (take (length pre) xs)" "list_all2 pmatch rest ws" by (auto split: val.splits)
  let ?heads = "map hd rows @ [Slice pre]"
  from vs(2) xs(1) obtain e where "is_newtype T ty = None" "kind T ty = TArray e"
    by (auto elim: has_type.cases)
  then have e: "element T ty = Some e" by (simp add: element_kind)
  then have all: "all_ctors T ty ?heads = Some (map Len [0..<longest ?heads] @ [LenAtLeast (longest ?heads)])"
    (is "_ = Some ?cs") by (simp add: all_ctors_def)
  have "length pre \<le> longest ?heads" using longest_ge [of "Slice pre" ?heads] by simp
  from array_ctor [OF this, of xs] xs obtain c where c: "c \<in> set ?cs" "view c v \<noteq> None"
    "covers (Slice pre) c" by blast
  then obtain fs where fs: "view c v = Some fs" by blast
  let ?sub = "ctor_fields T ty c"
  have len: "length ?sub = length fs" using view_typed [OF vs(2) fs] by (simp add: list_all2_lengthD)
  have mem: "c \<in> set (filter (covers (Slice pre)) (case all_ctors T (hd tys) ?heads of None \<Rightarrow> [] | Some cs \<Rightarrow> cs))"
    using c(1,3) by (simp only: tys list.sel all option.case set_filter mem_Collect_eq simp_thms)
  have none: "useful T (specialize rows c (length ?sub)) (resize (length ?sub) pre @ rest) (?sub @ tys') = None"
    using "3.prems"(1) c by (auto simp: tys all find_map_None Let_def)
  have row: "list_all2 (ptyped T) (?sub @ tys') (resize (length ?sub) pre @ rest)"
    using specialize_row_typed [of T ty tys' "Slice pre # rest" c] "3.prems"(3) c(3) by (simp add: tys)
  have rows: "\<forall>r \<in> set rows. list_all2 (ptyped T) (ty # tys') r" using "3.prems"(4) tys by simp
  have n: "fs = take (length fs) xs" "length pre \<le> length fs" "length fs \<le> length xs"
    using c(3) fs xs(1) by (cases c; force split: if_splits)+
  have head: "list_all2 pmatch (resize (length ?sub) pre) fs"
    using pmatches_resize [of pre fs] n xs(3) by (metis len min.absorb1 take_take)
  show ?case
    unfolding vs(1)
  proof (rule useful_step [where head = "resize (length ?sub) pre" and rest = rest and c = c])
    fix ws'
    assume "list_all2 (has_type T) ws' (?sub @ tys')" "list_all2 pmatch (resize (length ?sub) pre @ rest) ws'"
    then show "\<exists>r \<in> set (specialize rows c (length ?sub)). list_all2 pmatch r ws'"
      using "3.IH" [OF refl refl mem refl, of ws'] none row specialize_typed [OF rows] "3.prems"(2) tys by simp
  qed (use fs vs xs head rows in simp_all)
next
  case (4 T rows rest tys)
  from 4 obtain ty tys' where tys: "tys = ty # tys'" by (cases tys) auto
  from 4 tys obtain v ws where vs: "vs = v # ws" "has_type T v ty" "list_all2 (has_type T) ws tys'"
    by (auto simp: list_all2_Cons2)
  have wsm: "list_all2 pmatch rest ws" using "4.prems"(6) vs(1) by simp
  have rows: "\<forall>r \<in> set rows. list_all2 (ptyped T) (ty # tys') r" using "4.prems"(4) tys by simp
  let ?heads = "map hd rows @ [Wild]"
  let ?complete = "\<exists>cs. all_ctors T ty ?heads = Some cs \<and> (\<forall>c \<in> set cs. used rows c)"
  show ?case
  proof (cases ?complete)
    case True
    then obtain cs where cs: "all_ctors T ty ?heads = Some cs" "\<forall>c \<in> set cs. used rows c" by blast
    have arr: "is_newtype T ty = None" if e: "element T ty \<noteq> None"
    proof -
      have "LenAtLeast (longest ?heads) \<in> set cs" using cs(1) e by (auto simp: all_ctors_def)
      with cs(2) used_array [OF _ rows] show ?thesis by blast
    qed
    from ctor_of_value [OF "4.prems"(2) vs(2) cs(1) arr] obtain c where c: "c \<in> set cs" "view c v \<noteq> None" by blast
    then obtain fs where fs: "view c v = Some fs" by blast
    let ?sub = "ctor_fields T ty c"
    have len: "length ?sub = length fs" using view_typed [OF vs(2) fs] by (simp add: list_all2_lengthD)
    have none: "useful T (specialize rows c (length ?sub)) (replicate (length ?sub) Wild @ rest) (?sub @ tys') = None"
      using "4.prems"(1) c True by (auto simp: tys cs find_map_None Let_def complete_iff)
    have row: "list_all2 (ptyped T) (?sub @ tys') (replicate (length ?sub) Wild @ rest)"
      using "4.prems"(3) tys by (auto intro!: list_all2_appendI simp: ptyped_replicate_Wild)
    have mem: "c \<in> set (the (all_ctors T (hd tys) ?heads))" using c(1) by (simp add: tys cs)
    have comp: "complete rows (all_ctors T (hd tys) ?heads)"
      using True by (simp add: tys complete_iff)
    show ?thesis
      unfolding vs(1)
    proof (rule useful_step [where head = "replicate (length ?sub) Wild" and rest = rest and c = c])
      fix ws'
      assume "list_all2 (has_type T) ws' (?sub @ tys')"
        "list_all2 pmatch (replicate (length ?sub) Wild @ rest) ws'"
      then show "\<exists>r \<in> set (specialize rows c (length ?sub)). list_all2 pmatch r ws'"
        using "4.IH"(1) [OF refl refl comp mem refl, of ws'] none row specialize_typed [OF rows] "4.prems"(2) tys
        by simp
    qed (use fs vs wsm rows len in \<open>simp_all add: pmatches_replicate_Wild\<close>)
  next
    case False
    then have none: "useful T (map tl (filter wild_head rows)) rest tys' = None"
      using "4.prems"(1) unfolding useful.simps Let_def complete_iff tys list.sel if_not_P [OF False] by simp
    have incomp: "\<not> complete rows (all_ctors T (hd tys) ?heads)"
      using False by (simp add: tys complete_iff)
    have "\<exists>r \<in> set (map tl (filter wild_head rows)). list_all2 pmatch r ws"
      using "4.IH"(2) [OF refl refl incomp, of ws] none "4.prems"(2,3) default_typed [OF rows] vs wsm tys by simp
    then obtain r where "r \<in> set rows" "wild_head r" "list_all2 pmatch (tl r) ws" by auto
    then show ?thesis unfolding vs(1) by (intro bexI [of _ r]) (auto elim: wild_head.elims)
  qed
qed

subsection \<open>What a witness covers once it is written as an arm\<close>

definition written_typed :: "types \<Rightarrow> ty \<Rightarrow> pat \<Rightarrow> bool" where
  "written_typed T ty p \<longleftrightarrow> ptyped T ty (as_written p)"

lemma written_typed_Wild [simp]: "written_typed T ty Wild"
  by (simp add: written_typed_def)

lemma written_typed_Ctor:
  assumes "proper T ty c \<or> c = LenAtLeast 0" "list_all2 (written_typed T) (ctor_fields T ty c) args"
  shows "written_typed T ty (Ctor c args)"
proof -
  have "list_all2 (ptyped T) (ctor_fields T ty c) (map as_written args)"
    using assms(2) by (simp add: list_all2_map2 written_typed_def [abs_def])
  with assms(1) show ?thesis
    by (cases c) (auto simp: written_typed_def proper_def simp del: ctor_fields.simps)
qed

lemma rebuild_typed:
  assumes "proper T ty c \<or> c = LenAtLeast 0" "list_all2 (written_typed T) (ctor_fields T ty c @ tys) w"
  shows "list_all2 (written_typed T) (ty # tys) (rebuild c (length (ctor_fields T ty c)) w)"
proof -
  obtain us ws where "w = us @ ws" "list_all2 (written_typed T) (ctor_fields T ty c) us"
    "list_all2 (written_typed T) tys ws"
    using assms(2) by (auto simp: list_all2_append1)
  moreover from this have "length us = length (ctor_fields T ty c)" by (simp add: list_all2_lengthD)
  ultimately show ?thesis using written_typed_Ctor [OF assms(1)] by (simp add: rebuild_def)
qed

lemma find_map_SomeE:
  assumes "find_map f xs = Some y"
  obtains x where "x \<in> set xs" "f x = Some y"
  using assms by (induction xs) (auto split: option.splits)

lemma all_ctors_proper:
  assumes "all_ctors T ty heads = Some cs" "c \<in> set cs" "is_newtype T ty = None \<or> element T ty = None"
  shows "proper T ty c"
  using assms by (auto simp: all_ctors_def proper_def split: if_splits ty_kind.splits option.splits ctor.splits)

lemma longest_newtype:
  assumes "is_newtype T ty \<noteq> None" "\<forall>h \<in> set heads. ptyped T ty h"
  shows "longest heads = 0"
proof -
  have "head_length h = 0" if "ptyped T ty h" for h
    using that assms(1) by (cases h rule: head_length.cases) (auto simp: proper_def)
  with assms(2) show ?thesis by (induction heads) (auto simp: longest_def)
qed

lemma heads_typed:
  assumes "\<forall>r \<in> set rows. list_all2 (ptyped T) (ty # tys) r" "ptyped T ty p"
  shows "\<forall>h \<in> set (map hd rows @ [p]). ptyped T ty h"
  using assms by (auto simp: list_all2_Cons1)

lemma useful_typed:
  "useful T rows row tys = Some w \<Longrightarrow> list_all2 (ptyped T) tys row \<Longrightarrow>
    \<forall>r \<in> set rows. list_all2 (ptyped T) tys r \<Longrightarrow> list_all2 (written_typed T) tys w"
proof (induction T rows row tys arbitrary: w rule: useful.induct)
  case (1 T rows tys)
  then show ?case by (auto split: if_splits)
next
  case (2 T rows c args rest tys)
  from 2 obtain ty tys' where tys: "tys = ty # tys'" by (cases tys) auto
  let ?sub = "ctor_fields T ty c"
  from "2.prems"(1) obtain w' where w: "w = rebuild c (length ?sub) w'"
    "useful T (specialize rows c (length ?sub)) (args @ rest) (?sub @ tys') = Some w'"
    by (auto simp: tys Let_def)
  have rows: "\<forall>r \<in> set rows. list_all2 (ptyped T) (ty # tys') r" using "2.prems"(3) tys by simp
  have "list_all2 (ptyped T) (?sub @ tys') (args @ rest)"
    using "2.prems"(2) tys by (auto intro: list_all2_appendI)
  then have "list_all2 (written_typed T) (?sub @ tys') w'"
    using "2.IH" [OF refl, of w'] w(2) specialize_typed [OF rows] tys by simp
  moreover have "proper T ty c" using "2.prems"(2) tys by simp
  ultimately show ?case unfolding w(1) tys by (intro rebuild_typed) simp_all
next
  case (3 T rows pre rest tys)
  from 3 obtain ty tys' where tys: "tys = ty # tys'" by (cases tys) auto
  have rows: "\<forall>r \<in> set rows. list_all2 (ptyped T) (ty # tys') r" using "3.prems"(3) tys by simp
  let ?cs = "filter (covers (Slice pre)) (case all_ctors T (hd tys) (map hd rows @ [Slice pre]) of None \<Rightarrow> [] | Some cs \<Rightarrow> cs)"
  from "3.prems"(1) obtain c w' where c: "c \<in> set ?cs"
    and w: "w = rebuild c (length (ctor_fields T ty c)) w'"
    "useful T (specialize rows c (length (ctor_fields T ty c)))
      (resize (length (ctor_fields T ty c)) pre @ rest) (ctor_fields T ty c @ tys') = Some w'"
    by (auto simp: tys Let_def elim!: find_map_SomeE)
  have cov: "covers (Slice pre) c" using c by simp
  have new: "is_newtype T ty = None" using "3.prems"(2) tys by simp
  have "list_all2 (ptyped T) (ctor_fields T ty c @ tys') (resize (length (ctor_fields T ty c)) pre @ rest)"
    using specialize_row_typed [of T ty tys' "Slice pre # rest" c] "3.prems"(2) cov by (simp add: tys)
  then have "list_all2 (written_typed T) (ctor_fields T ty c @ tys') w'"
    using "3.IH" [OF refl refl c refl, of w'] w(2) specialize_typed [OF rows] tys by simp
  moreover have "proper T ty c" using new by (auto simp: proper_def split: ctor.splits)
  ultimately show ?case unfolding w(1) tys by (intro rebuild_typed) simp_all
next
  case (4 T rows rest tys)
  from 4 obtain ty tys' where tys: "tys = ty # tys'" by (cases tys) auto
  have rows: "\<forall>r \<in> set rows. list_all2 (ptyped T) (ty # tys') r" using "4.prems"(3) tys by simp
  let ?heads = "map hd rows @ [Wild]"
  let ?complete = "\<exists>cs. all_ctors T ty ?heads = Some cs \<and> (\<forall>c \<in> set cs. used rows c)"
  show ?case
  proof (cases ?complete)
    case True
    then obtain cs where cs: "all_ctors T ty ?heads = Some cs" "\<forall>c \<in> set cs. used rows c" by blast
    from "4.prems"(1) obtain c w' where c: "c \<in> set cs"
      and w: "w = rebuild c (length (ctor_fields T ty c)) w'"
      "useful T (specialize rows c (length (ctor_fields T ty c)))
        (replicate (length (ctor_fields T ty c)) Wild @ rest) (ctor_fields T ty c @ tys') = Some w'"
      using True by (auto simp: tys cs Let_def complete_iff elim!: find_map_SomeE)
    have mem: "c \<in> set (the (all_ctors T (hd tys) ?heads))" using c(1) by (simp add: tys cs)
    have comp: "complete rows (all_ctors T (hd tys) ?heads)"
      using True by (simp add: tys complete_iff)
    have "list_all2 (ptyped T) (ctor_fields T ty c @ tys') (replicate (length (ctor_fields T ty c)) Wild @ rest)"
      using "4.prems"(2) tys by (auto intro!: list_all2_appendI simp: ptyped_replicate_Wild)
    then have "list_all2 (written_typed T) (ctor_fields T ty c @ tys') w'"
      using "4.IH"(1) [OF refl refl comp mem refl, of w'] w(2) specialize_typed [OF rows] tys by simp
    moreover have "is_newtype T ty = None \<or> element T ty = None"
    proof (rule disjCI)
      assume "element T ty \<noteq> None"
      then have "LenAtLeast (longest ?heads) \<in> set cs" using cs(1) by (auto simp: all_ctors_def)
      with cs(2) used_array [OF _ rows] show "is_newtype T ty = None" by blast
    qed
    ultimately show ?thesis
      unfolding w(1) tys using all_ctors_proper [OF cs(1) c] by (intro rebuild_typed) simp_all
  next
    case False
    have incomp: "\<not> complete rows (all_ctors T (hd tys) ?heads)"
      using False by (simp add: tys complete_iff)
    from "4.prems"(1) obtain h w' where w: "w = h # w'"
      "useful T (map tl (filter wild_head rows)) rest tys' = Some w'"
      and h: "h = (case all_ctors T ty ?heads of
               Some cs \<Rightarrow>
                 (case List.find (\<lambda>c. \<not> used rows c) cs of
                    Some c \<Rightarrow> Ctor c (replicate (length (ctor_fields T ty c)) Wild)
                  | None \<Rightarrow> Wild)
             | None \<Rightarrow> Wild)"
      unfolding useful.simps Let_def complete_iff tys list.sel if_not_P [OF False] by auto
    have "list_all2 (written_typed T) tys' w'"
      using "4.IH"(2) [OF refl refl incomp, of w'] w(2) "4.prems"(2) default_typed [OF rows] tys by simp
    moreover have "written_typed T ty h"
    proof -
      have "written_typed T ty (Ctor c (replicate (length (ctor_fields T ty c)) Wild))"
        if "all_ctors T ty ?heads = Some cs" "List.find (\<lambda>c. \<not> used rows c) cs = Some c" for cs c
      proof (rule written_typed_Ctor)
        have c: "c \<in> set cs" using that(2) by (auto simp: find_Some_iff)
        show "proper T ty c \<or> c = LenAtLeast 0"
        proof (cases "is_newtype T ty = None \<or> element T ty = None")
          case True
          with all_ctors_proper [OF that(1) c] show ?thesis by blast
        next
          case False
          then have "longest ?heads = 0" 
            by (intro longest_newtype [of T ty]) (use heads_typed [OF rows, of Wild] in auto)
          with False that(1) c show ?thesis by (auto simp: all_ctors_def)
        qed
      qed (simp add: list_all2_conv_all_nth)
      then show ?thesis by (auto simp: h split: option.splits)
    qed
    ultimately show ?thesis by (simp add: w tys)
  qed
qed

subsection \<open>Reports\<close>

definition unguarded :: "(pattern \<times> bool) list \<Rightarrow> pat list list" where
  "unguarded arms = map (\<lambda>(p, _). [simplify p]) (filter (\<lambda>(_, guarded). \<not> guarded) arms)"

lemma unguarded_simps [simp]:
  "unguarded [] = []" "unguarded ((p, g) # arms) = (if g then unguarded arms else [simplify p] # unguarded arms)"
  by (simp_all add: unguarded_def)

lemma check_arms_rows: "snd (check_arms T ty i rows arms) = rows @ unguarded arms"
  by (induction T ty i rows arms rule: check_arms.induct) (auto simp: Let_def split: prod.splits)

lemma check_arms_dead:
  "k \<in> set (fst (check_arms T ty i rows arms)) \<Longrightarrow>
   \<exists>j < length arms. k = i + j \<and> useful T (rows @ unguarded (take j arms)) [simplify (fst (arms ! j))] [ty] = None"
proof (induction T ty i rows arms rule: check_arms.induct)
  case (2 T ty i rows p g arms)
  show ?case
  proof (cases "k = i \<and> useful T rows [simplify p] [ty] = None")
    case True
    then show ?thesis by (intro exI [of _ 0]) simp
  next
    case False
    with "2.prems" have "k \<in> set (fst (check_arms T ty (Suc i) (if g then rows else rows @ [[simplify p]]) arms))"
      by (auto simp: Let_def split: prod.splits if_splits)
    from "2.IH" [OF refl this] obtain j where "j < length arms" "k = Suc i + j"
      "useful T ((if g then rows else rows @ [[simplify p]]) @ unguarded (take j arms)) [simplify (fst (arms ! j))] [ty] = None"
      by blast
    then show ?thesis by (intro exI [of _ "Suc j"]) (auto split: if_splits)
  qed
qed simp

lemma unguarded_typed:
  assumes "\<forall>(p, g) \<in> set arms. ptyped T ty (simplify p)"
  shows "\<forall>r \<in> set (unguarded arms). list_all2 (ptyped T) [ty] r"
  using assms by (auto simp: unguarded_def)

lemma unguarded_matches:
  assumes "r \<in> set (unguarded arms)" "list_all2 pmatch r [v]"
  shows "\<exists>(p, g) \<in> set arms. \<not> g \<and> matches p v"
  using assms by (auto simp: unguarded_def matches_simplify)

text \<open>C33: a \<open>match\<close> with no case missing covers every value of its type by an arm without a
  guard, and an arm reported unreachable is never the first to match: whatever it matches, an
  earlier arm without a guard matches too.\<close>

theorem match_report_is_sound:
  assumes "type_table T" and "\<forall>(p, g) \<in> set arms. ptyped T ty (simplify p)" and "has_type T v ty"
  shows "(missing (check_match T ty arms) = None \<longrightarrow> (\<exists>(p, g) \<in> set arms. \<not> g \<and> matches p v))
    \<and> (\<forall>k \<in> set (unreachable (check_match T ty arms)).
         k < length arms \<and>
         (matches (fst (arms ! k)) v \<longrightarrow> (\<exists>(p, g) \<in> set (take k arms). \<not> g \<and> matches p v)))"
proof (intro conjI impI ballI)
  assume "missing (check_match T ty arms) = None"
  then have "useful T (unguarded arms) [Wild] [ty] = None"
    using check_arms_rows [of T ty 0 "[]" arms] by (auto simp: check_match_def split: prod.splits)
  from useful_sound [OF this assms(1) _ unguarded_typed [OF assms(2)], of "[v]"] assms(3)
  show "\<exists>(p, g) \<in> set arms. \<not> g \<and> matches p v" using unguarded_matches by auto
next
  fix k
  assume "k \<in> set (unreachable (check_match T ty arms))"
  then have "k \<in> set (fst (check_arms T ty 0 [] arms))" by (auto simp: check_match_def split: prod.splits)
  from check_arms_dead [OF this]
  have k: "k < length arms" "useful T (unguarded (take k arms)) [simplify (fst (arms ! k))] [ty] = None"
    by auto
  then show "k < length arms" by simp
  assume m: "matches (fst (arms ! k)) v"
  have "arms ! k \<in> set arms" using k(1) by simp
  with assms(2) have "ptyped T ty (simplify (fst (arms ! k)))" by (cases "arms ! k") auto
  moreover have "\<forall>(p, g) \<in> set (take k arms). ptyped T ty (simplify p)"
    using assms(2) by (auto dest: in_set_takeD)
  moreover note useful_sound [OF k(2) assms(1) _ unguarded_typed, of "[v]"]
  ultimately have "\<exists>r \<in> set (unguarded (take k arms)). list_all2 pmatch r [v]"
    using m assms(3) by (simp add: matches_simplify)
  then show "\<exists>(p, g) \<in> set (take k arms). \<not> g \<and> matches p v" using unguarded_matches by blast
qed

lemma every_loop_covers:
  assumes "type_table T" "has_type T v ty"
  shows "length (every_loop n T ty rows) < n \<Longrightarrow> \<forall>r \<in> set rows. list_all2 (ptyped T) [ty] r \<Longrightarrow>
    (\<exists>r \<in> set rows. list_all2 pmatch r [v]) \<or> (\<exists>w \<in> set (every_loop n T ty rows). pmatch (as_written w) v)"
proof (induction n arbitrary: rows)
  case (Suc n)
  show ?case
  proof (cases "useful T rows [Wild] [ty]")
    case None
    from useful_sound [OF this assms(1) _ Suc.prems(2), of "[v]"] assms(2) show ?thesis by simp
  next
    case (Some w)
    from useful_typed [OF this _ Suc.prems(2)] obtain p where p: "w = [p]" "written_typed T ty p"
      by (auto simp: list_all2_Cons1)
    then have typed: "\<forall>r \<in> set (rows @ [map as_written w]). list_all2 (ptyped T) [ty] r"
      using Suc.prems(2) by (auto simp: written_typed_def)
    have "length (every_loop n T ty (rows @ [map as_written w])) < n"
      using Suc.prems(1) Some by simp
    from Suc.IH [OF this typed] show ?thesis using Some p(1) by auto
  qed
qed simp

text \<open>the cases a report lists as missing, written as arms, complete the \<open>match\<close> when there
  are fewer than the 32 it stops at: every value matches an arm without a guard or one of them.\<close>

theorem missing_cases_complete_the_match:
  assumes "type_table T" and "\<forall>(p, g) \<in> set arms. ptyped T ty (simplify p)" and "has_type T v ty"
    and "length (every_missing (check_match T ty arms)) < 32"
  shows "(\<exists>(p, g) \<in> set arms. \<not> g \<and> matches p v)
    \<or> (\<exists>w \<in> set (every_missing (check_match T ty arms)). pmatch (as_written w) v)"
proof -
  have "every_missing (check_match T ty arms) = every_loop 32 T ty (unguarded arms)"
    using check_arms_rows [of T ty 0 "[]" arms] by (auto simp: check_match_def split: prod.splits)
  with every_loop_covers [OF assms(1,3) _ unguarded_typed [OF assms(2)], of 32] assms(4)
  show ?thesis using unguarded_matches by (metis (mono_tags, lifting))
qed

subsection \<open>On a concrete type\<close>

lemma list_type_table: "type_table list_types"
  by (simp add: type_table_def list_ordered list_newtypes acyclic_def kind_def list_kinds_eq NEVER_def)

definition list_arms :: "(pattern \<times> bool) list" where
  "list_arms = [(PVariant 0 [], False), (PVariant 1 [PLiteral (LInt 0), PWildcard], False),
     (PVariant 0 [], False), (PVariant 1 [PWildcard, PWildcard], False)]"

lemma list_variants: "variants list_types 19 = Some [[], [8, 19]]" "is_newtype list_types 19 = None"
  "element list_types 19 = None"
  by (simp_all add: variants_def is_newtype_def element_def list_repr list_kinds)

lemma list_nil: "has_type list_types (VVariant 0 []) 19"
  by (rule has_type.variant [where cs = "[[], [8, 19]]"]) (simp_all add: list_variants)

lemma list_arms_typed: "\<forall>(p, g) \<in> set list_arms. ptyped list_types 19 (simplify p)"
  by (simp add: list_arms_def list_variants proper_def)

lemma list_report: "missing (check_match list_types 19 list_arms) = None
    \<and> unreachable (check_match list_types 19 list_arms) = [2]
    \<and> every_missing (check_match list_types 19 list_arms) = []"
  by code_simp

theorem match_report_is_sound_witness:
  "missing (check_match list_types 19 list_arms) = None
   \<and> (\<exists>(p, g) \<in> set list_arms. \<not> g \<and> matches p (VVariant 0 []))
   \<and> (\<exists>(p, g) \<in> set (take 2 list_arms). \<not> g \<and> matches p (VVariant 0 []))"
proof -
  note sound = match_report_is_sound [OF list_type_table list_arms_typed list_nil]
  have "matches (fst (list_arms ! 2)) (VVariant 0 [])" by (simp add: list_arms_def)
  with sound list_report show ?thesis by simp
qed

theorem missing_cases_complete_the_match_witness:
  "(\<exists>(p, g) \<in> set list_arms. \<not> g \<and> matches p (VVariant 0 []))
   \<or> (\<exists>w \<in> set (every_missing (check_match list_types 19 list_arms)). pmatch (as_written w) (VVariant 0 []))"
  using missing_cases_complete_the_match [OF list_type_table list_arms_typed list_nil] list_report
  by simp

subsection \<open>A newtype over an array\<close>

text \<open>The program \<open>type Ids = Array[Int]\<close>.\<close>

definition ids_types :: types where
  "ids_types = \<lparr>kinds = default_kinds @ [TArray 8, TAdt 0],
     adts = [\<lparr>adt_name = ''Ids'', adt_kind = Newtype 19, adt_instance = None, adt_secret = False\<rparr>],
     params = [], carriers = [], foreign = []\<rparr>"

lemma ids_values: "has_type ids_types v 20 \<Longrightarrow> \<exists>w. v = VNode [w]"
proof -
  have "is_newtype ids_types 20 = Some 19" by code_simp
  then show "has_type ids_types v 20 \<Longrightarrow> \<exists>w. v = VNode [w]"
    by (auto elim: has_type.cases simp: is_newtype_def)
qed

text \<open>the check is not complete: the constructor pattern of a newtype over an array matches
  every value, \<open>Ids(xs)\<close> for \<open>type Ids = Array[Int]\<close>, but the algorithm looks for the lengths of
  the array below it and reports a case missing.\<close>

theorem newtype_of_array_is_reported_missing:
  "{v. has_type ids_types v 20} \<subseteq> {v. matches (PNewtype PWildcard) v}
   \<and> missing (check_match ids_types 20 [(PNewtype PWildcard, False)]) = Some (Ctor (LenAtLeast 0) [])
   \<and> refutation ids_types 20 (PNewtype PWildcard) = Some (Ctor (LenAtLeast 0) [])"
proof (intro conjI subsetI)
  fix v
  assume "v \<in> {v. has_type ids_types v 20}"
  with ids_values show "v \<in> {v. matches (PNewtype PWildcard) v}" by fastforce
next
  show "missing (check_match ids_types 20 [(PNewtype PWildcard, False)]) = Some (Ctor (LenAtLeast 0) [])"
    by code_simp
  show "refutation ids_types 20 (PNewtype PWildcard) = Some (Ctor (LenAtLeast 0) [])"
    by code_simp
qed

end
