(* ===== verification/Collector.thy ===== *)
theory Collector
  imports Graphs
begin

text \<open>
  The cycle collector of the runtime, \<^verbatim>\<open>crates/tondo-runtime/src/cycles.rs\<close>. From the
  registered cells it reaches objects, counts the references among them and keeps alive what has
  more references than that, with all it reaches; the rest is garbage. The heap of a stopped world
  is a parameter: the count of each object and the references its glue reports, which compiled
  code and the other modules of the runtime give. The theorems are about \<open>count_and_free\<close>
  between stopping and resuming the world; its statistics and events are left out.
\<close>

subsection \<open>Objects, reports and the visitor\<close>

datatype gc_kind =
  KBox | KRef | KArray | KMap | KFn | KSync | KChannel | KSender | KJoin | KGroup
| KSharedMap | KSharedQueue | KSharedStack | KSharedArray | KReflect

definition gc_kinds :: "gc_kind list" where
  "gc_kinds = [KBox, KRef, KArray, KMap, KFn, KSync, KChannel, KSender, KJoin, KGroup,
     KSharedMap, KSharedQueue, KSharedStack, KSharedArray, KReflect]"

text \<open>\<open>Kind::from\<close>, the kind of a code of compiled code.\<close>

definition kind_from :: "nat \<Rightarrow> gc_kind option" where
  "kind_from code = get gc_kinds code"

type_synonym addr = nat

text \<open>What visiting an object reports: that it is held, or a reference.\<close>

datatype report = Hold | Edge addr gc_kind nat nat

record heap =
  count :: "addr \<Rightarrow> nat"
  visit :: "addr \<Rightarrow> gc_kind \<Rightarrow> nat \<Rightarrow> nat \<Rightarrow> report list"

definition IMMORTAL :: nat where "IMMORTAL = 2 ^ 64 - 1"

record node =
  address :: addr
  nkind :: gc_kind
  glue_a :: nat
  glue_b :: nat
  rc :: nat
  internal :: nat
  first_edge :: nat
  end_edge :: nat
  held :: bool
  live :: bool

record visitor =
  nodes :: "node list"
  index :: "addr \<Rightarrow> nat option"
  vedges :: "nat list"
  current :: nat

definition no_visitor :: visitor where
  "no_visitor = \<lparr>nodes = [], index = Map.empty, vedges = [], current = 0\<rparr>"

text \<open>\<open>Visitor::add\<close>, \<open>hold\<close> and \<open>edge\<close>.\<close>

definition add_node :: "addr \<Rightarrow> gc_kind \<Rightarrow> nat \<Rightarrow> nat \<Rightarrow> nat \<Rightarrow> visitor \<Rightarrow> nat \<times> visitor" where
  "add_node x k a b n v =
     (length (nodes v),
      v\<lparr>nodes := nodes v @ [\<lparr>address = x, nkind = k, glue_a = a, glue_b = b, rc = n, internal = 0,
           first_edge = 0, end_edge = 0, held = False, live = False\<rparr>],
        index := (index v)(x \<mapsto> length (nodes v))\<rparr>)"

definition hold :: "visitor \<Rightarrow> visitor" where
  "hold v = v\<lparr>nodes := (nodes v)[current v := (nodes v ! current v)\<lparr>held := True\<rparr>]\<rparr>"

definition edge :: "heap \<Rightarrow> addr \<Rightarrow> gc_kind \<Rightarrow> nat \<Rightarrow> nat \<Rightarrow> visitor \<Rightarrow> visitor" where
  "edge h x k a b v =
     (if x = 0 then v
      else if count h x = IMMORTAL then v
      else
        (case index v x of
           Some n \<Rightarrow> v\<lparr>vedges := vedges v @ [n]\<rparr>
         | None \<Rightarrow> (let (n, v') = add_node x k a b (count h x) v in v'\<lparr>vedges := vedges v' @ [n]\<rparr>)))"

fun report_to :: "heap \<Rightarrow> report \<Rightarrow> visitor \<Rightarrow> visitor" where
  "report_to h Hold v = hold v"
| "report_to h (Edge x k a b) v = edge h x k a b v"

text \<open>\<open>children\<close>: the glue of the object's kind reports in order.\<close>

definition children :: "heap \<Rightarrow> addr \<Rightarrow> gc_kind \<Rightarrow> nat \<Rightarrow> nat \<Rightarrow> visitor \<Rightarrow> visitor" where
  "children h x k a b v = fold (report_to h) (visit h x k a b) v"

subsection \<open>A collection\<close>

text \<open>Every node's references, each node once: the \<open>while next < nodes.len()\<close> loop.\<close>

definition scan_node :: "heap \<Rightarrow> nat \<Rightarrow> visitor \<Rightarrow> visitor" where
  "scan_node h next v =
     (let start = length (vedges v); n = nodes v ! next;
          v = (if rc n \<noteq> 0
               then children h (address n) (nkind n) (glue_a n) (glue_b n) (v\<lparr>current := next\<rparr>)
               else v)
      in v\<lparr>nodes := (nodes v)[next := (nodes v ! next)\<lparr>first_edge := start, end_edge := length (vedges v)\<rparr>]\<rparr>)"

partial_function (option) scan :: "heap \<Rightarrow> nat \<Rightarrow> visitor \<Rightarrow> visitor option" where
  "scan h next v = (if next < length (nodes v) then scan h (Suc next) (scan_node h next v) else Some v)"

definition count_edge :: "nat \<Rightarrow> node list \<Rightarrow> node list" where
  "count_edge target ns = ns[target := (ns ! target)\<lparr>internal := internal (ns ! target) + 1\<rparr>]"

definition counted_held :: "node \<Rightarrow> bool" where
  "counted_held n \<longleftrightarrow> held n \<or> rc n = 0 \<or> internal n < rc n"

definition node_edges :: "nat list \<Rightarrow> node \<Rightarrow> nat list" where
  "node_edges es n = take (end_edge n - first_edge n) (drop (first_edge n) es)"

text \<open>Marking, with the last pending node first.\<close>

function mark :: "nat list \<Rightarrow> node list \<Rightarrow> nat list \<Rightarrow> node list" where
  "mark es ns [] = ns"
| "mark es ns (n # pending) =
     (if n < length ns \<and> \<not> live (ns ! n)
      then
        (let ns' = ns[n := (ns ! n)\<lparr>live := True\<rparr>] in
         mark es ns' (rev (filter (\<lambda>m. \<not> live (ns' ! m)) (node_edges es (ns ! n))) @ pending))
      else mark es ns pending)"
  by pat_completeness auto
termination
proof (relation "measures [\<lambda>(es, ns, pending). length (filter (\<lambda>n. \<not> live n) ns),
    \<lambda>(es, ns, pending). length pending]", goal_cases)
  case (2 es ns n pending ns')
  then have "ns = take n ns @ ns ! n # drop (Suc n) ns" by (simp add: id_take_nth_drop)
  moreover have "ns' = take n ns @ (ns ! n)\<lparr>live := True\<rparr> # drop (Suc n) ns"
    using 2 by (simp add: upd_conv_take_nth_drop)
  ultimately have "filter (\<lambda>n. \<not> live n) ns = filter (\<lambda>n. \<not> live n) (take n ns) @ ns ! n # filter (\<lambda>n. \<not> live n) (drop (Suc n) ns)"
    "filter (\<lambda>n. \<not> live n) ns' = filter (\<lambda>n. \<not> live n) (take n ns) @ filter (\<lambda>n. \<not> live n) (drop (Suc n) ns)"
    using 2 by (metis (no_types, lifting) filter.simps(2) filter_append, simp)
  then show ?case by simp
qed simp_all

definition SMALLEST_THRESHOLD :: nat where "SMALLEST_THRESHOLD = 1024"

text \<open>What \<open>clear\<close> empties, and what a collection leaves.\<close>

definition clearable :: "gc_kind \<Rightarrow> bool" where
  "clearable k \<longleftrightarrow> k \<in> {KSync, KChannel, KJoin, KSharedMap, KSharedQueue, KSharedStack, KSharedArray}"

record collection =
  freed :: nat
  dead_refs :: "addr list"
  cleared :: "addr list"
  garbage :: "addr list"
  threshold :: nat

definition start_visitor :: "heap \<Rightarrow> (addr \<times> gc_kind) list \<Rightarrow> visitor" where
  "start_visitor h cells = fold (\<lambda>(x, k) v. snd (add_node x k 0 0 (count h x) v)) cells no_visitor"

definition mark_held :: "visitor \<Rightarrow> node list" where
  "mark_held v =
     (let ns = fold count_edge (vedges v) (nodes v) in
      mark (vedges v) ns (rev (filter (\<lambda>n. counted_held (ns ! n)) [0..<length ns])))"

definition count_and_free :: "heap \<Rightarrow> (addr \<times> gc_kind) list \<Rightarrow> nat \<Rightarrow> collection option" where
  "count_and_free h cells old_threshold =
     (if cells = [] then Some \<lparr>freed = 0, dead_refs = [], cleared = [], garbage = [], threshold = old_threshold\<rparr>
      else
        (case scan h 0 (start_visitor h cells) of
           None \<Rightarrow> None
         | Some v \<Rightarrow>
             (let ns = mark_held v; dead = filter (\<lambda>n. \<not> live n) ns in
              Some \<lparr>freed = length dead,
                dead_refs = map address (filter (\<lambda>n. nkind n = KRef) dead),
                cleared = map address (filter (\<lambda>n. clearable (nkind n)) dead),
                garbage = map address dead,
                threshold = max SMALLEST_THRESHOLD (length ns - length dead)\<rparr>)))"

subsection \<open>What visiting reports\<close>

definition addrs :: "visitor \<Rightarrow> addr list" where
  "addrs v = map address (nodes v)"

definition wf_index :: "visitor \<Rightarrow> bool" where
  "wf_index v \<longleftrightarrow> distinct (addrs v) \<and>
     (\<forall>x i. index v x = Some i \<longleftrightarrow> i < length (nodes v) \<and> address (nodes v ! i) = x)"

text \<open>The objects a list of reports refers to: not null, not immortal.\<close>

fun targets :: "heap \<Rightarrow> report list \<Rightarrow> addr list" where
  "targets h [] = []"
| "targets h (Hold # rs) = targets h rs"
| "targets h (Edge x k a b # rs) =
     (if x \<noteq> 0 \<and> count h x \<noteq> IMMORTAL then x # targets h rs else targets h rs)"

lemma targets_iff:
  "x \<in> set (targets h rs) \<longleftrightarrow> x \<noteq> 0 \<and> count h x \<noteq> IMMORTAL \<and> (\<exists>k a b. Edge x k a b \<in> set rs)"
proof (induction h rs rule: targets.induct)
  case (3 h y k a b rs)
  then show ?case by (cases "y \<noteq> 0 \<and> count h y \<noteq> IMMORTAL") auto
qed simp_all

lemma targets_append: "targets h (rs @ rs') = targets h rs @ targets h rs'"
  by (induction h rs rule: targets.induct) auto

definition fresh_node :: "heap \<Rightarrow> report list \<Rightarrow> node \<Rightarrow> bool" where
  "fresh_node h rs n \<longleftrightarrow> rc n = count h (address n) \<and> internal n = 0 \<and> first_edge n = 0 \<and>
     end_edge n = 0 \<and> \<not> held n \<and> \<not> live n \<and> address n \<in> set (targets h rs) \<and>
     Edge (address n) (nkind n) (glue_a n) (glue_b n) \<in> set rs"

lemma fresh_node_mono: "fresh_node h rs n \<Longrightarrow> fresh_node h (rs @ rs') n"
  by (auto simp: fresh_node_def targets_append)

text \<open>The state of the visitor after it has followed a list of reports.\<close>

definition followed :: "heap \<Rightarrow> report list \<Rightarrow> visitor \<Rightarrow> visitor \<Rightarrow> bool" where
  "followed h rs v v' \<longleftrightarrow> wf_index v' \<and> current v' = current v \<and>
     (\<exists>js extra. vedges v' = vedges v @ js \<and> (\<forall>j \<in> set js. j < length (nodes v')) \<and>
        map (\<lambda>j. address (nodes v' ! j)) js = targets h rs \<and>
        nodes v' = (nodes v)[current v := (nodes v ! current v)\<lparr>held := held (nodes v ! current v) \<or> Hold \<in> set rs\<rparr>] @ extra \<and>
        (\<forall>n \<in> set extra. fresh_node h rs n))"

lemma map_update_same:
  "i < length xs \<Longrightarrow> f y = f (xs ! i) \<Longrightarrow> map f (xs[i := y]) = map f xs"
  by (simp add: map_update) (metis length_map list_update_id nth_map)

lemma wf_index_update:
  assumes "wf_index v" "i < length (nodes v)" "address n = address (nodes v ! i)"
  shows "wf_index (v\<lparr>nodes := (nodes v)[i := n]\<rparr>)"
proof -
  have "map address ((nodes v)[i := n]) = map address (nodes v)"
    using assms(2,3) by (rule map_update_same)
  moreover have "address ((nodes v)[i := n] ! j) = address (nodes v ! j)" if "j < length (nodes v)" for j
    using that assms(2,3) by (cases "i = j") simp_all
  ultimately show ?thesis using assms(1) by (auto simp: wf_index_def addrs_def)
qed

lemma wf_index_add:
  assumes "wf_index v" "index v x = None"
  shows "wf_index (snd (add_node x k a b n v))"
proof -
  have "x \<notin> set (addrs v)"
    using assms by (auto simp: wf_index_def addrs_def in_set_conv_nth) (metis option.distinct(1))
  with assms show ?thesis
    by (auto simp: wf_index_def addrs_def add_node_def nth_append split: if_splits)
qed

lemma followed_nil: "wf_index v \<Longrightarrow> current v < length (nodes v) \<Longrightarrow> followed h [] v v"
  by (auto simp: followed_def)

lemma followed_hold:
  assumes "followed h rs v w" "current v < length (nodes v)"
  shows "followed h (rs @ [Hold]) v (hold w)"
proof -
  from assms(1) obtain js extra where w: "wf_index w" "current w = current v" "vedges w = vedges v @ js"
    "\<forall>j \<in> set js. j < length (nodes w)" "map (\<lambda>j. address (nodes w ! j)) js = targets h rs"
    "nodes w = (nodes v)[current v := (nodes v ! current v)\<lparr>held := held (nodes v ! current v) \<or> Hold \<in> set rs\<rparr>] @ extra"
    "\<forall>n \<in> set extra. fresh_node h rs n"
    by (auto simp: followed_def)
  have cur: "current w < length (nodes w)" using assms(2) w(2,6) by simp
  have same: "address (nodes (hold w) ! j) = address (nodes w ! j)" for j
    using cur by (cases "j = current w") (simp_all add: hold_def)
  have nodes: "nodes (hold w) = (nodes v)[current v := (nodes v ! current v)\<lparr>held := True\<rparr>] @ extra"
    using assms(2) w(2,6) by (simp add: hold_def list_update_append nth_append)
  show ?thesis
    unfolding followed_def
  proof (intro conjI exI)
    show "wf_index (hold w)" using w(1) cur by (simp add: hold_def wf_index_update)
    show "vedges (hold w) = vedges v @ js" using w(3) by (simp add: hold_def)
    show "map (\<lambda>j. address (nodes (hold w) ! j)) js = targets h (rs @ [Hold])"
      using w(5) same by (simp add: targets_append)
    show "\<forall>n \<in> set extra. fresh_node h (rs @ [Hold]) n" using w(7) fresh_node_mono by blast
  qed (use w nodes in \<open>simp_all add: hold_def\<close>)
qed

lemma followed_edge:
  assumes "followed h rs v w" "current v < length (nodes v)"
  shows "followed h (rs @ [Edge x k a b]) v (edge h x k a b w)"
proof -
  let ?r = "Edge x k a b"
  from assms(1) obtain js extra where w: "wf_index w" "current w = current v" "vedges w = vedges v @ js"
    "\<forall>j \<in> set js. j < length (nodes w)" "map (\<lambda>j. address (nodes w ! j)) js = targets h rs"
    "nodes w = (nodes v)[current v := (nodes v ! current v)\<lparr>held := held (nodes v ! current v) \<or> Hold \<in> set rs\<rparr>] @ extra"
    "\<forall>n \<in> set extra. fresh_node h rs n"
    by (auto simp: followed_def)
  have extra: "\<forall>n \<in> set extra. fresh_node h (rs @ [?r]) n" using w(7) fresh_node_mono by blast
  consider (skip) "x = 0 \<or> count h x = IMMORTAL"
    | (known) n where "x \<noteq> 0" "count h x \<noteq> IMMORTAL" "index w x = Some n"
    | (new) "x \<noteq> 0" "count h x \<noteq> IMMORTAL" "index w x = None"
    by (cases "index w x") auto
  then show ?thesis
  proof cases
    case skip
    then have "edge h x k a b w = w" by (auto simp: edge_def)
    moreover have "targets h (rs @ [?r]) = targets h rs" using skip by (simp add: targets_append)
    ultimately show ?thesis
      unfolding followed_def by (intro conjI exI [of _ js] exI [of _ extra]) (use w extra in simp_all)
  next
    case known
    then have n: "n < length (nodes w)" "address (nodes w ! n) = x" using w(1) by (auto simp: wf_index_def)
    have e: "edge h x k a b w = w\<lparr>vedges := vedges w @ [n]\<rparr>" using known by (simp add: edge_def)
    have "targets h (rs @ [?r]) = targets h rs @ [x]" using known by (simp add: targets_append)
    then show ?thesis
      unfolding followed_def e
      by (intro conjI exI [of _ "js @ [n]"] exI [of _ extra]) (use w extra n in \<open>simp_all add: wf_index_def addrs_def\<close>)
  next
    case new
    let ?m = "length (nodes w)"
    let ?w = "snd (add_node x k a b (count h x) w)"
    let ?n = "\<lparr>address = x, nkind = k, glue_a = a, glue_b = b, rc = count h x, internal = 0,
        first_edge = 0, end_edge = 0, held = False, live = False\<rparr>"
    have e: "edge h x k a b w = ?w\<lparr>vedges := vedges w @ [?m]\<rparr>"
      using new by (simp add: edge_def add_node_def)
    have wf: "wf_index ?w" using w(1) new by (simp add: wf_index_add)
    have nodes: "nodes ?w = nodes w @ [?n]" by (simp add: add_node_def)
    have js: "map (\<lambda>j. address ((nodes w @ [?n]) ! j)) (js @ [?m]) = targets h rs @ [x]"
      using w(4) by (subst w(5) [symmetric]) (auto simp: nth_append)
    have targets: "targets h (rs @ [?r]) = targets h rs @ [x]" using new by (simp add: targets_append)
    have fresh: "fresh_node h (rs @ [?r]) ?n" using new by (auto simp: fresh_node_def targets)
    show ?thesis
      unfolding followed_def e
    proof (intro conjI exI [of _ "js @ [?m]"] exI [of _ "extra @ [?n]"])
      show "wf_index (?w\<lparr>vedges := vedges w @ [?m]\<rparr>)" using wf by (simp add: wf_index_def addrs_def)
      show "map (\<lambda>j. address (nodes (?w\<lparr>vedges := vedges w @ [?m]\<rparr>) ! j)) (js @ [?m]) = targets h (rs @ [?r])"
        using js by (simp add: nodes targets)
      show "\<forall>j \<in> set (js @ [?m]). j < length (nodes (?w\<lparr>vedges := vedges w @ [?m]\<rparr>))"
        using w(4) by (auto simp: nodes less_SucI)
    qed (use w extra fresh in \<open>simp_all add: add_node_def\<close>)
  qed
qed

lemma followed_children:
  assumes "wf_index v" "current v < length (nodes v)"
  shows "followed h rs v (fold (report_to h) rs v)"
proof (induction rs rule: rev_induct)
  case (snoc r rs)
  then show ?case
    using followed_hold followed_edge assms(2) by (cases r) simp_all
qed (simp add: followed_nil assms)

subsection \<open>What a scan leaves\<close>

text \<open>The objects a collection may reach, as the glue describes them.\<close>

inductive_set described :: "heap \<Rightarrow> (addr \<times> gc_kind) list \<Rightarrow> (addr \<times> gc_kind \<times> nat \<times> nat) set"
  for h cells where
  cell: "(x, k) \<in> set cells \<Longrightarrow> (x, k, 0, 0) \<in> described h cells"
| refer: "(x, k, a, b) \<in> described h cells \<Longrightarrow> count h x \<noteq> 0 \<Longrightarrow> Edge y k' a' b' \<in> set (visit h x k a b) \<Longrightarrow>
    y \<noteq> 0 \<Longrightarrow> count h y \<noteq> IMMORTAL \<Longrightarrow> (y, k', a', b') \<in> described h cells"

text \<open>The references of an object, given what its glue reports however it was reached.\<close>

definition outs :: "heap \<Rightarrow> (addr \<Rightarrow> report list) \<Rightarrow> addr \<Rightarrow> addr list" where
  "outs h R x = (if count h x = 0 then [] else targets h (R x))"

definition agrees :: "heap \<Rightarrow> (addr \<times> gc_kind) list \<Rightarrow> (addr \<Rightarrow> report list) \<Rightarrow> bool" where
  "agrees h cells R \<longleftrightarrow> (\<forall>(x, k, a, b) \<in> described h cells. visit h x k a b = R x)"

definition desc :: "node \<Rightarrow> addr \<times> gc_kind \<times> nat \<times> nat" where
  "desc n = (address n, nkind n, glue_a n, glue_b n)"

definition scanned :: "heap \<Rightarrow> (addr \<Rightarrow> report list) \<Rightarrow> visitor \<Rightarrow> node \<Rightarrow> bool" where
  "scanned h R v n \<longleftrightarrow> end_edge n \<le> length (vedges v) \<and>
     map (\<lambda>j. address (nodes v ! j)) (node_edges (vedges v) n) = outs h R (address n) \<and>
     (held n \<longleftrightarrow> count h (address n) \<noteq> 0 \<and> Hold \<in> set (R (address n)))"

definition scan_inv :: "heap \<Rightarrow> (addr \<times> gc_kind) list \<Rightarrow> (addr \<Rightarrow> report list) \<Rightarrow> nat \<Rightarrow> visitor \<Rightarrow> bool" where
  "scan_inv h cells R next v \<longleftrightarrow> wf_index v \<and> next \<le> length (nodes v) \<and>
     (\<forall>j \<in> set (vedges v). j < length (nodes v)) \<and>
     desc ` set (nodes v) \<subseteq> described h cells \<and> fst ` set cells \<subseteq> set (addrs v) \<and>
     (\<forall>n \<in> set (nodes v). rc n = count h (address n) \<and> internal n = 0 \<and> \<not> live n) \<and>
     (\<forall>n \<in> set (drop next (nodes v)). \<not> held n) \<and>
     (\<forall>n \<in> set (take next (nodes v)). scanned h R v n) \<and>
     vedges v = concat (map (node_edges (vedges v)) (take next (nodes v)))"

lemma node_edges_append: "end_edge n \<le> length es \<Longrightarrow> node_edges (es @ js) n = node_edges es n"
  by (simp add: node_edges_def)

lemma scanned_grow:
  assumes "scanned h R v n" "vedges v' = vedges v @ js" "\<forall>j \<in> set (vedges v). j < length (nodes v)"
    "\<forall>j < length (nodes v). address (nodes v' ! j) = address (nodes v ! j)"
  shows "scanned h R v' n"
proof -
  have e: "node_edges (vedges v') n = node_edges (vedges v) n"
    using assms(1,2) by (simp add: scanned_def node_edges_append)
  have "set (node_edges (vedges v) n) \<subseteq> set (vedges v)"
    unfolding node_edges_def by (meson order.trans set_drop_subset set_take_subset)
  then have "map (\<lambda>j. address (nodes v' ! j)) (node_edges (vedges v) n)
      = map (\<lambda>j. address (nodes v ! j)) (node_edges (vedges v) n)"
    using assms(3,4) by (intro map_cong) auto
  then have "map (\<lambda>j. address (nodes v' ! j)) (node_edges (vedges v) n) = outs h R (address n)"
    using assms(1) unfolding scanned_def by (metis (no_types, lifting))
  then show ?thesis using assms(1,2) unfolding scanned_def e by simp
qed

lemma followed_visit:
  assumes inv: "scan_inv h cells R next v" and R: "agrees h cells R"
    and "next < length (nodes v)" "n = nodes v ! next"
  obtains js extra w where "scan_node h next v = w" "wf_index w" "vedges w = vedges v @ js"
    "\<forall>j \<in> set js. j < length (nodes w)" "map (\<lambda>j. address (nodes w ! j)) js = outs h R (address n)"
    "nodes w = take next (nodes v) @ [n\<lparr>held := (count h (address n) \<noteq> 0 \<and> Hold \<in> set (R (address n))),
       first_edge := length (vedges v), end_edge := length (vedges v) + length js\<rparr>] @ drop (Suc next) (nodes v) @ extra"
    "\<forall>m \<in> set extra. \<not> held m \<and> rc m = count h (address m) \<and> internal m = 0 \<and> \<not> live m \<and> desc m \<in> described h cells"
proof -
  let ?w = "scan_node h next v"
  have n: "n \<in> set (nodes v)" "n \<in> set (drop next (nodes v))"
    using assms(3,4) by simp (metis assms(3,4) Cons_nth_drop_Suc list.set_intros(1))
  have d: "desc n \<in> described h cells" and rc: "rc n = count h (address n)" and nh: "\<not> held n" and wf: "wf_index v"
    using inv n by (auto simp: scan_inv_def)
  have visits: "visit h (address n) (nkind n) (glue_a n) (glue_b n) = R (address n)"
    using R d by (auto simp: agrees_def desc_def)
  have upd: "(nodes v)[next := m] = take next (nodes v) @ [m] @ drop (Suc next) (nodes v)" for m
    using assms(3) by (simp add: upd_conv_take_nth_drop)
  show ?thesis
  proof (cases "rc n = 0")
    case True
    have e: "?w = v\<lparr>nodes := (nodes v)[next := n\<lparr>first_edge := length (vedges v), end_edge := length (vedges v)\<rparr>]\<rparr>"
      using True assms(4) by (simp add: scan_node_def)
    show ?thesis
    proof (rule that [of ?w "[]" "[]"])
      show "wf_index ?w" unfolding e using wf assms(3,4) by (simp add: wf_index_update)
    qed (use e True rc nh upd in \<open>simp_all add: outs_def\<close>)
  next
    case False
    let ?v = "v\<lparr>current := next\<rparr>"
    let ?c = "fold (report_to h) (R (address n)) ?v"
    have "wf_index ?v" using wf by (simp add: wf_index_def addrs_def)
    then have "followed h (R (address n)) ?v ?c" using followed_children assms(3) by simp
    then obtain js extra where c: "wf_index ?c" "vedges ?c = vedges v @ js" "\<forall>j \<in> set js. j < length (nodes ?c)"
      "map (\<lambda>j. address (nodes ?c ! j)) js = targets h (R (address n))"
      "nodes ?c = (nodes v)[next := n\<lparr>held := Hold \<in> set (R (address n))\<rparr>] @ extra"
      "\<forall>m \<in> set extra. fresh_node h (R (address n)) m"
      using nh assms(4) by (auto simp: followed_def)
    have nc: "nodes ?c ! next = n\<lparr>held := Hold \<in> set (R (address n))\<rparr>"
      unfolding c(5) using assms(3) by (simp add: nth_append)
    have e: "?w = ?c\<lparr>nodes := (nodes ?c)[next := n\<lparr>held := Hold \<in> set (R (address n)),
        first_edge := length (vedges v), end_edge := length (vedges v) + length js\<rparr>]\<rparr>"
      using False nc c(2) visits unfolding scan_node_def children_def assms(4) [symmetric] Let_def by simp
    have len: "next < length (nodes ?c)" unfolding c(5) using assms(3) by simp
    have same: "address (nodes ?w ! j) = address (nodes ?c ! j)" for j
      using len nc by (cases "j = next") (simp_all add: e)
    show ?thesis
    proof (rule that [of ?w js extra])
      show "wf_index ?w" unfolding e using c(1) len nc by (simp add: wf_index_update)
      show "\<forall>j \<in> set js. j < length (nodes ?w)" using c(3) by (simp add: e)
      show "map (\<lambda>j. address (nodes ?w ! j)) js = outs h R (address n)"
        using c(4) same False rc by (simp add: outs_def)
      show "nodes ?w = take next (nodes v) @ [n\<lparr>held := (count h (address n) \<noteq> 0 \<and> Hold \<in> set (R (address n))),
          first_edge := length (vedges v), end_edge := length (vedges v) + length js\<rparr>] @ drop (Suc next) (nodes v) @ extra"
        unfolding e using False rc assms(3) upd by (simp add: c(5) list_update_append)
      show "\<forall>m \<in> set extra. \<not> held m \<and> rc m = count h (address m) \<and> internal m = 0 \<and> \<not> live m \<and> desc m \<in> described h cells"
      proof
        fix m assume "m \<in> set extra"
        then have f: "fresh_node h (R (address n)) m" using c(6) by blast
        then have "Edge (address m) (nkind m) (glue_a m) (glue_b m) \<in> set (visit h (address n) (nkind n) (glue_a n) (glue_b n))"
          "address m \<noteq> 0" "count h (address m) \<noteq> IMMORTAL"
          using visits by (auto simp: fresh_node_def targets_iff)
        then have "desc m \<in> described h cells"
          using described.refer [of "address n" "nkind n" "glue_a n" "glue_b n"] d False rc unfolding desc_def by simp
        then show "\<not> held m \<and> rc m = count h (address m) \<and> internal m = 0 \<and> \<not> live m \<and> desc m \<in> described h cells"
          using f by (simp add: fresh_node_def)
      qed
    qed (use c(2) e in simp_all)
  qed
qed

lemma scan_node_inv:
  assumes inv: "scan_inv h cells R next v" and R: "agrees h cells R"
    and bound: "next < length (nodes v)"
  shows "scan_inv h cells R (Suc next) (scan_node h next v)"
proof -
  define n where "n = nodes v ! next"
  obtain js extra w where w: "scan_node h next v = w" "wf_index w" "vedges w = vedges v @ js"
    "\<forall>j \<in> set js. j < length (nodes w)" "map (\<lambda>j. address (nodes w ! j)) js = outs h R (address n)"
    "nodes w = take next (nodes v) @ [n\<lparr>held := (count h (address n) \<noteq> 0 \<and> Hold \<in> set (R (address n))),
       first_edge := length (vedges v), end_edge := length (vedges v) + length js\<rparr>] @ drop (Suc next) (nodes v) @ extra"
    "\<forall>m \<in> set extra. \<not> held m \<and> rc m = count h (address m) \<and> internal m = 0 \<and> \<not> live m \<and> desc m \<in> described h cells"
    by (rule followed_visit [OF inv R bound n_def])
  let ?n = "n\<lparr>held := (count h (address n) \<noteq> 0 \<and> Hold \<in> set (R (address n))),
       first_edge := length (vedges v), end_edge := length (vedges v) + length js\<rparr>"
  have split: "nodes v = take next (nodes v) @ n # drop (Suc next) (nodes v)"
    using bound by (simp add: n_def id_take_nth_drop)
  have tk: "take (Suc next) (nodes w) = take next (nodes v) @ [?n]"
    and dr: "drop (Suc next) (nodes w) = drop (Suc next) (nodes v) @ extra"
    using bound unfolding w(6) by (simp_all add: min_def)
  have len: "length (nodes v) \<le> length (nodes w)" unfolding w(6) using bound by simp
  have addr: "\<forall>j < length (nodes v). address (nodes w ! j) = address (nodes v ! j)"
  proof (intro allI impI)
    fix j assume j: "j < length (nodes v)"
    consider "j < next" | "j = next" | "next < j" by linarith
    then show "address (nodes w ! j) = address (nodes v ! j)"
    proof cases
      case 3
      then have "j - Suc next < length (nodes v) - Suc next" using j by linarith
      then show ?thesis using 3 j bound unfolding w(6) n_def by (simp add: nth_append)
    qed (use bound in \<open>simp_all add: w(6) n_def nth_append\<close>)
  qed
  have n_in: "n \<in> set (nodes v)" using bound by (simp add: n_def)
  have sub: "set (nodes w) \<subseteq> insert ?n (set (nodes v) \<union> set extra)"
    unfolding w(6) using set_take_subset [of "next" "nodes v"] set_drop_subset [of "Suc next" "nodes v"] by auto
  have ne: "node_edges (vedges w) ?n = js" by (simp add: node_edges_def w(3))
  have sn: "scanned h R w ?n" using w(5) unfolding scanned_def ne by (simp add: w(3))
  have so: "scanned h R w m" if "m \<in> set (take next (nodes v))" for m
    using that inv w(3) addr by (intro scanned_grow [of h R v m w js]) (auto simp: scan_inv_def)
  have cn: "vedges w = concat (map (node_edges (vedges w)) (take (Suc next) (nodes w)))"
  proof -
    have same: "map (node_edges (vedges w)) (take next (nodes v)) = map (node_edges (vedges v)) (take next (nodes v))"
      using inv by (intro map_cong) (auto simp: scan_inv_def scanned_def w(3) node_edges_append)
    have "vedges v = concat (map (node_edges (vedges v)) (take next (nodes v)))"
      using inv unfolding scan_inv_def by (elim conjE)
    then have "concat (map (node_edges (vedges w)) (take (Suc next) (nodes w))) = vedges v @ js"
      unfolding tk map_append same list.map ne by (simp del: map_eq_conv)
    then show ?thesis using w(3) by simp
  qed
  have dn: "desc ?n = desc n" by (simp add: desc_def)
  have ca: "fst ` set cells \<subseteq> set (addrs w)"
  proof -
    have "set (addrs v) \<subseteq> set (addrs w)"
    proof
      fix x assume "x \<in> set (addrs v)"
      then obtain j where j: "j < length (nodes v)" "address (nodes v ! j) = x"
        by (auto simp: addrs_def in_set_conv_nth)
      then have "x = address (nodes w ! j)" "j < length (nodes w)" using addr len by simp_all
      then show "x \<in> set (addrs w)" by (simp add: addrs_def)
    qed
    then show ?thesis using inv unfolding scan_inv_def by blast
  qed
  show ?thesis
    unfolding scan_inv_def w(1)
  proof (intro conjI)
    show "Suc next \<le> length (nodes w)" using bound len by simp
    show "\<forall>j \<in> set (vedges w). j < length (nodes w)" using inv len w(3,4) by (fastforce simp: scan_inv_def)
    show "desc ` set (nodes w) \<subseteq> described h cells"
      using inv sub w(7) n_in dn unfolding scan_inv_def by (smt (verit) Un_iff image_subset_iff insert_iff subset_iff)
    show "\<forall>n \<in> set (nodes w). rc n = count h (address n) \<and> internal n = 0 \<and> \<not> live n"
    proof
      fix m assume "m \<in> set (nodes w)"
      then consider "m = ?n" | "m \<in> set (nodes v)" | "m \<in> set extra" using sub by blast
      then show "rc m = count h (address m) \<and> internal m = 0 \<and> \<not> live m"
        using inv w(7) n_in unfolding scan_inv_def by cases simp_all
    qed
    show "\<forall>n \<in> set (drop (Suc next) (nodes w)). \<not> held n"
    proof -
      have "set (drop (Suc next) (nodes v)) \<subseteq> set (drop next (nodes v))" by (simp add: set_drop_subset_set_drop)
      then show ?thesis using inv w(7) unfolding dr scan_inv_def by auto
    qed
    show "\<forall>n \<in> set (take (Suc next) (nodes w)). scanned h R w n" unfolding tk using sn so by simp
  qed (use w(2) ca cn in simp_all)
qed
lemma scan_bound:
  assumes "scan_inv h cells R next v" "finite (described h cells)"
  shows "length (nodes v) \<le> card (described h cells)"
proof -
  have "inj_on desc (set (nodes v))"
    using assms(1) by (auto simp: scan_inv_def wf_index_def addrs_def distinct_map desc_def inj_on_def)
  then have "card (desc ` set (nodes v)) = card (set (nodes v))" by (rule card_image)
  moreover have "distinct (nodes v)" using assms(1) by (simp add: scan_inv_def wf_index_def addrs_def distinct_map)
  moreover have "card (desc ` set (nodes v)) \<le> card (described h cells)"
    using assms by (intro card_mono) (simp_all add: scan_inv_def)
  ultimately show ?thesis by (simp add: distinct_card)
qed

lemma scan_returns:
  assumes "finite (described h cells)" "agrees h cells R" "scan_inv h cells R next v"
  shows "\<exists>v'. scan h next v = Some v' \<and> scan_inv h cells R (length (nodes v')) v'"
  using assms(3)
proof (induction "card (described h cells) - next" arbitrary: "next" v rule: less_induct)
  case less
  show ?case
  proof (cases "next < length (nodes v)")
    case True
    have "scan_inv h cells R (Suc next) (scan_node h next v)"
      using scan_node_inv less.prems assms(2) True by blast
    moreover have "card (described h cells) - Suc next < card (described h cells) - next"
      using scan_bound [OF less.prems assms(1)] True by linarith
    ultimately show ?thesis using less.hyps True by (subst scan.simps) simp
  next
    case False
    then have "next = length (nodes v)" using less.prems by (simp add: scan_inv_def)
    then show ?thesis using less.prems False by (subst scan.simps) simp
  qed
qed

lemma start_visitor_inv:
  assumes "distinct (map fst cells)"
  shows "scan_inv h cells R 0 (start_visitor h cells)"
proof -
  have "wf_index v \<and> vedges v = [] \<and> addrs v = map fst cs \<and>
      (\<forall>n \<in> set (nodes v). desc n \<in> (\<lambda>(x, k). (x, k, 0, 0)) ` set cs \<and> rc n = count h (address n) \<and>
        internal n = 0 \<and> \<not> live n \<and> \<not> held n)"
    if "distinct (map fst cs)" "v = start_visitor h cs" for cs v
    using that
  proof (induction cs arbitrary: v rule: rev_induct)
    case Nil
    then show ?case by (simp add: start_visitor_def no_visitor_def wf_index_def addrs_def)
  next
    case (snoc c cs)
    obtain x k where c: "c = (x, k)" by (cases c)
    let ?w = "start_visitor h cs"
    have v: "v = snd (add_node x k 0 0 (count h x) ?w)" using snoc.prems(2) by (simp add: start_visitor_def c)
    have IH: "wf_index ?w" "vedges ?w = []" "addrs ?w = map fst cs"
      "\<forall>n \<in> set (nodes ?w). desc n \<in> (\<lambda>(x, k). (x, k, 0, 0)) ` set cs \<and> rc n = count h (address n) \<and>
        internal n = 0 \<and> \<not> live n \<and> \<not> held n"
      using snoc.IH [of ?w] snoc.prems(1) by simp_all
    have "x \<notin> set (addrs ?w)" using snoc.prems(1) IH(3) by (simp add: c)
    then have "index ?w x = None"
      using IH(1) by (cases "index ?w x") (auto simp: wf_index_def addrs_def)
    then have "wf_index v" unfolding v using IH(1) by (rule wf_index_add [rotated])
    then show ?case using IH(2-4) by (auto simp: v c add_node_def addrs_def desc_def)
  qed
  note start = this [OF assms refl]
  have "(\<lambda>(x, k). (x, k, 0, 0)) ` set cells \<subseteq> described h cells" by (auto intro: described.cell)
  then have "desc ` set (nodes (start_visitor h cells)) \<subseteq> described h cells" using start by blast
  then show ?thesis using start by (simp add: scan_inv_def)
qed

subsection \<open>Counting and marking\<close>

lemma counted:
  assumes "\<forall>j \<in> set es. j < length ns"
  shows "length (fold count_edge es ns) = length ns \<and>
    (\<forall>i < length ns. fold count_edge es ns ! i = (ns ! i)\<lparr>internal := internal (ns ! i) + count_list es i\<rparr>)"
  using assms
proof (induction es arbitrary: ns)
  case (Cons e es)
  have "length (count_edge e ns) = length ns" by (simp add: count_edge_def)
  moreover have "count_edge e ns ! i = (ns ! i)\<lparr>internal := internal (ns ! i) + (if i = e then 1 else 0)\<rparr>"
    if "i < length ns" for i
    using that by (simp add: count_edge_def)
  ultimately show ?case using Cons.IH [of "count_edge e ns"] Cons.prems by simp
qed simp

definition succs :: "nat list \<Rightarrow> node list \<Rightarrow> (nat \<times> nat) set" where
  "succs es ns = {(i, j). i < length ns \<and> j \<in> set (node_edges es (ns ! i))}"

definition lives :: "node list \<Rightarrow> nat set" where
  "lives ns = {i. i < length ns \<and> live (ns ! i)}"

definition unmarked :: "node list \<Rightarrow> node list" where
  "unmarked ns = map (\<lambda>n. n\<lparr>live := False\<rparr>) ns"

lemma succs_unmarked: "unmarked ns = unmarked ns' \<Longrightarrow> succs es ns = succs es ns'"
proof -
  assume a: "unmarked ns = unmarked ns'"
  then have len: "length ns = length ns'" unfolding unmarked_def by (metis length_map)
  have "node_edges es (ns ! i) = node_edges es (ns' ! i)" if "i < length ns" for i
  proof -
    have "(ns ! i)\<lparr>live := False\<rparr> = (ns' ! i)\<lparr>live := False\<rparr>"
      using a len that unfolding unmarked_def by (metis nth_map)
    then have "first_edge (ns ! i) = first_edge (ns' ! i)" "end_edge (ns ! i) = end_edge (ns' ! i)"
      by (cases "ns ! i"; cases "ns' ! i"; simp)+
    then show ?thesis by (simp add: node_edges_def)
  qed
  then show ?thesis using len by (auto simp: succs_def)
qed

lemma mark_reaches:
  assumes "\<forall>(i, j) \<in> succs es ns. j < length ns" "set pending \<subseteq> {..<length ns}"
    "succs es ns `` lives ns \<subseteq> lives ns \<union> set pending"
  shows "unmarked (mark es ns pending) = unmarked ns \<and>
    lives (mark es ns pending) = (succs es ns)\<^sup>* `` (lives ns \<union> set pending)"
  using assms
proof (induction es ns pending rule: mark.induct)
  case (1 es ns)
  then have "(succs es ns)\<^sup>* `` lives ns = lives ns" by (simp add: Image_closed_trancl)
  then show ?case by simp
next
  case (2 es ns n pending)
  have n: "n < length ns" using "2.prems"(2) by simp
  show ?case
  proof (cases "live (ns ! n)")
    case True
    then have "lives ns \<union> set (n # pending) = lives ns \<union> set pending" using n by (auto simp: lives_def)
    then show ?thesis using "2.IH"(2) "2.prems" True by simp
  next
    case False
    let ?ns = "ns[n := (ns ! n)\<lparr>live := True\<rparr>]"
    let ?p = "rev (filter (\<lambda>m. \<not> live (?ns ! m)) (node_edges es (ns ! n))) @ pending"
    have un: "unmarked ?ns = unmarked ns" unfolding unmarked_def by (rule map_update_same) (use n in simp_all)
    have su: "succs es ?ns = succs es ns" using un by (rule succs_unmarked)
    have li: "lives ?ns = insert n (lives ns)" using n by (auto simp: lives_def nth_list_update)
    have sn: "succs es ns `` {n} = set (node_edges es (ns ! n))" using n by (auto simp: succs_def)
    have len: "length ?ns = length ns" by simp
    have bound: "m < length ns" if "m \<in> set (node_edges es (ns ! n))" for m
      using "2.prems"(1) sn that by blast
    have p: "lives ?ns \<union> set ?p = insert n (lives ns) \<union> set (node_edges es (ns ! n)) \<union> set pending"
      unfolding li using bound by (auto simp: lives_def nth_list_update split: if_splits)
    have mark: "mark es ns (n # pending) = mark es ?ns ?p" using n False by (simp add: Let_def)
    have "unmarked (mark es ?ns ?p) = unmarked ?ns \<and> lives (mark es ?ns ?p) = (succs es ?ns)\<^sup>* `` (lives ?ns \<union> set ?p)"
    proof (rule "2.IH"(1))
      show "n < length ns \<and> \<not> live (ns ! n)" using n False by simp
      show "\<forall>(i, j) \<in> succs es ?ns. j < length ?ns" using "2.prems"(1) unfolding su len .
      show "set ?p \<subseteq> {..<length ?ns}" using "2.prems"(2) bound by auto
      show "succs es ?ns `` lives ?ns \<subseteq> lives ?ns \<union> set ?p"
        unfolding su p unfolding li using "2.prems"(3) sn by auto
    qed simp
    moreover have "(succs es ns)\<^sup>* `` (lives ?ns \<union> set ?p) = (succs es ns)\<^sup>* `` (lives ns \<union> set (n # pending))"
    proof -
      have "(succs es ns)\<^sup>* `` set (node_edges es (ns ! n)) \<subseteq> (succs es ns)\<^sup>* `` {n}"
        unfolding sn [symmetric] by (auto intro: converse_rtrancl_into_rtrancl)
      then show ?thesis unfolding p by (auto simp: Image_Un)
    qed
    ultimately show ?thesis unfolding mark un su by simp
  qed
qed

lemma reach_image:
  assumes "\<And>i. i \<in> A \<Longrightarrow> r `` {f i} = f ` (E `` {i})" "E `` A \<subseteq> A" "P \<subseteq> A"
  shows "r\<^sup>* `` (f ` P) = f ` (E\<^sup>* `` P)" (is "?L = ?R")
proof
  have inA: "E\<^sup>* `` P \<subseteq> A"
    using assms(2,3) Image_closed_trancl [of E A] by blast
  show "?L \<subseteq> ?R"
  proof
    fix y assume "y \<in> ?L"
    then obtain p where "p \<in> P" "(f p, y) \<in> r\<^sup>*" by blast
    from this(2) show "y \<in> ?R"
    proof induction
      case base
      then show ?case using \<open>p \<in> P\<close> by blast
    next
      case (step y z)
      then obtain i where i: "i \<in> E\<^sup>* `` P" "y = f i" by blast
      then have "z \<in> f ` (E `` {i})" using assms(1) inA step.hyps by blast
      then show ?case using i(1) by (auto intro: rtrancl_into_rtrancl)
    qed
  qed
  show "?R \<subseteq> ?L"
  proof
    fix y assume "y \<in> ?R"
    then obtain p i where "p \<in> P" "(p, i) \<in> E\<^sup>*" "y = f i" by blast
    from this(2,1,3) show "y \<in> ?L"
    proof (induction arbitrary: y)
      case (step i j)
      then have "f i \<in> ?L" "i \<in> A" using inA by blast+
      then have "f j \<in> r `` {f i}" using assms(1) step.hyps by blast
      then show ?case using \<open>f i \<in> ?L\<close> step.prems by (auto intro: rtrancl_into_rtrancl)
    qed blast
  qed
qed

lemma count_list_map:
  "inj_on f (insert x (set xs)) \<Longrightarrow> count_list (map f xs) (f x) = count_list xs x"
  by (induction xs) (auto simp: inj_on_def)

lemma count_list_concat: "count_list (concat xss) x = sum_list (map (\<lambda>xs. count_list xs x) xss)"
  by (induction xss) simp_all

text \<open>The abstract collection: what is held, and what it refers to.\<close>

definition refers :: "heap \<Rightarrow> (addr \<Rightarrow> report list) \<Rightarrow> (addr \<times> addr) set" where
  "refers h R = {(x, y). y \<in> set (outs h R x)}"

definition pointed :: "heap \<Rightarrow> (addr \<Rightarrow> report list) \<Rightarrow> addr set \<Rightarrow> addr \<Rightarrow> nat" where
  "pointed h R D x = (\<Sum>y \<in> D. count_list (outs h R y) x)"

definition holding :: "heap \<Rightarrow> (addr \<Rightarrow> report list) \<Rightarrow> addr set \<Rightarrow> addr \<Rightarrow> bool" where
  "holding h R D x \<longleftrightarrow> count h x = 0 \<or> Hold \<in> set (R x) \<or> pointed h R D x < count h x"

definition reached_objects :: "heap \<Rightarrow> (addr \<times> gc_kind) list \<Rightarrow> addr set" where
  "reached_objects h cells = fst ` described h cells"

lemma scan_objects:
  assumes inv: "scan_inv h cells R (length (nodes v)) v" and R: "agrees h cells R"
  shows "set (addrs v) = reached_objects h cells"
proof
  show "set (addrs v) \<subseteq> reached_objects h cells"
  proof
    fix x assume "x \<in> set (addrs v)"
    then obtain n where n: "n \<in> set (nodes v)" "x = address n" by (auto simp: addrs_def)
    then have "desc n \<in> described h cells" using inv by (auto simp: scan_inv_def)
    moreover have "x = fst (desc n)" using n by (simp add: desc_def)
    ultimately show "x \<in> reached_objects h cells" by (auto simp: reached_objects_def)
  qed
  have "x \<in> set (addrs v)" if "(x, k, a, b) \<in> described h cells" for x k a b
    using that
  proof induction
    case (cell x k)
    then have "x \<in> fst ` set cells" by (rule image_eqI [rotated]) simp
    then show ?case using inv unfolding scan_inv_def by blast
  next
    case (refer x k a b y k' a' b')
    then obtain n where n: "n \<in> set (nodes v)" "address n = x" by (auto simp: addrs_def)
    have "visit h x k a b = R x" using R refer.hyps(1) by (auto simp: agrees_def)
    then have "y \<in> set (outs h R x)" using refer.hyps by (auto simp: outs_def targets_iff)
    then have "y \<in> set (map (\<lambda>j. address (nodes v ! j)) (node_edges (vedges v) n))"
      using inv n by (simp add: scan_inv_def scanned_def)
    then obtain j where j: "j \<in> set (node_edges (vedges v) n)" "y = address (nodes v ! j)" by auto
    moreover have "set (node_edges (vedges v) n) \<subseteq> set (vedges v)"
      unfolding node_edges_def by (meson order.trans set_drop_subset set_take_subset)
    ultimately have "j < length (nodes v)" using inv by (auto simp: scan_inv_def)
    then show ?case using j(2) by (simp add: addrs_def)
  qed
  then show "reached_objects h cells \<subseteq> set (addrs v)" by (auto simp: reached_objects_def)
qed

lemma scan_counts:
  assumes inv: "scan_inv h cells R (length (nodes v)) v" and R: "agrees h cells R"
    and i: "i < length (nodes v)"
  shows "count_list (vedges v) i = pointed h R (reached_objects h cells) (address (nodes v ! i))"
proof -
  let ?f = "\<lambda>j. address (nodes v ! j)"
  have dist: "distinct (addrs v)" using inv by (simp add: scan_inv_def wf_index_def)
  then have "inj_on ?f {..<length (nodes v)}" by (auto simp: inj_on_def addrs_def distinct_conv_nth)
  moreover have "insert i (set (vedges v)) \<subseteq> {..<length (nodes v)}" using inv i by (auto simp: scan_inv_def)
  ultimately have "count_list (vedges v) i = count_list (map ?f (vedges v)) (?f i)"
    by (metis count_list_map inj_on_subset)
  also have "vedges v = concat (map (node_edges (vedges v)) (nodes v))"
    using inv unfolding scan_inv_def by simp
  then have "map ?f (vedges v) = map ?f (concat (map (node_edges (vedges v)) (nodes v)))" by (rule arg_cong)
  then have "map ?f (vedges v) = concat (map (\<lambda>n. map ?f (node_edges (vedges v) n)) (nodes v))"
    unfolding map_concat map_map comp_def .
  also have "map (\<lambda>n. map ?f (node_edges (vedges v) n)) (nodes v) = map (\<lambda>n. outs h R (address n)) (nodes v)"
    using inv by (intro map_cong) (simp_all add: scan_inv_def scanned_def)
  also have "\<dots> = map (outs h R) (addrs v)" by (simp add: addrs_def)
  also have "count_list (concat (map (outs h R) (addrs v))) (?f i) = (\<Sum>y \<leftarrow> addrs v. count_list (outs h R y) (?f i))"
    by (simp add: count_list_concat comp_def)
  also have "\<dots> = pointed h R (set (addrs v)) (?f i)"
    unfolding pointed_def using dist by (simp add: sum_list_distinct_conv_sum_set)
  finally show ?thesis using scan_objects [OF inv R] by simp
qed
subsection \<open>The garbage\<close>

definition garbage_of :: "heap \<Rightarrow> (addr \<Rightarrow> report list) \<Rightarrow> addr set \<Rightarrow> addr set" where
  "garbage_of h R D = D - (refers h R)\<^sup>* `` {x \<in> D. holding h R D x}"

lemma mark_held_live:
  assumes inv: "scan_inv h cells R (length (nodes v)) v" and R: "agrees h cells R"
    and D: "D = reached_objects h cells"
  shows "unmarked (mark_held v) = unmarked (fold count_edge (vedges v) (nodes v))"
    and "(\<lambda>i. address (nodes v ! i)) ` lives (mark_held v) = (refers h R)\<^sup>* `` {x \<in> D. holding h R D x}"
proof -
  let ?f = "\<lambda>i. address (nodes v ! i)"
  let ?es = "vedges v"
  let ?ns = "fold count_edge ?es (nodes v)"
  let ?p = "rev (filter (\<lambda>n. counted_held (?ns ! n)) [0..<length ?ns])"
  have es: "\<forall>j \<in> set ?es. j < length (nodes v)" using inv by (simp add: scan_inv_def)
  have len: "length ?ns = length (nodes v)"
    and ns: "\<And>i. i < length (nodes v) \<Longrightarrow> ?ns ! i = (nodes v ! i)\<lparr>internal := internal (nodes v ! i) + count_list ?es i\<rparr>"
    using counted [OF es] by blast+
  have node: "rc (nodes v ! i) = count h (?f i)" "internal (nodes v ! i) = 0" "\<not> live (nodes v ! i)"
    "scanned h R v (nodes v ! i)" if "i < length (nodes v)" for i
    using inv that by (simp_all add: scan_inv_def)
  have succs: "succs ?es ?ns = {(i, j). i < length (nodes v) \<and> j \<in> set (node_edges ?es (nodes v ! i))}"
    using ns by (auto simp: succs_def len node_edges_def)
  have edges: "set (node_edges ?es n) \<subseteq> {..<length (nodes v)}" for n
    using es unfolding node_edges_def by (meson lessThan_iff order.trans set_drop_subset set_take_subset subsetI)
  have none: "lives ?ns = {}" using node(3) by (auto simp: lives_def len ns)
  have p: "set ?p = {i. i < length (nodes v) \<and> counted_held (?ns ! i)}" by (auto simp: len)
  have marked: "unmarked (mark ?es ?ns ?p) = unmarked ?ns \<and>
      lives (mark ?es ?ns ?p) = (succs ?es ?ns)\<^sup>* `` (lives ?ns \<union> set ?p)"
  proof (rule mark_reaches)
    show "\<forall>(i, j) \<in> succs ?es ?ns. j < length ?ns" using edges unfolding succs len by blast
    show "set ?p \<subseteq> {..<length ?ns}" unfolding p len by auto
  qed (simp add: none)
  have mh: "mark_held v = mark ?es ?ns ?p" by (simp add: mark_held_def Let_def)
  show "unmarked (mark_held v) = unmarked ?ns" unfolding mh using marked by blast
  have held_iff: "counted_held (?ns ! i) \<longleftrightarrow> holding h R D (?f i)" if "i < length (nodes v)" for i
  proof -
    have "held (nodes v ! i) \<longleftrightarrow> count h (?f i) \<noteq> 0 \<and> Hold \<in> set (R (?f i))"
      using node(4) [OF that] by (simp add: scanned_def)
    then show ?thesis
      using node [OF that] scan_counts [OF inv R that] ns [OF that]
      by (auto simp: counted_held_def holding_def D)
  qed
  have objs: "?f ` {..<length (nodes v)} = D"
    using scan_objects [OF inv R] unfolding D addrs_def set_map by (metis lessThan_atLeast0 atLeast_upt map_nth set_map image_image)
  have img: "?f ` set ?p = {x \<in> D. holding h R D x}"
  proof -
    have "{x \<in> ?f ` {..<length (nodes v)}. holding h R D x} = ?f ` {i. i < length (nodes v) \<and> counted_held (?ns ! i)}"
      using held_iff by auto
    then show ?thesis unfolding p objs by simp
  qed
  have "(refers h R)\<^sup>* `` (?f ` set ?p) = ?f ` ((succs ?es ?ns)\<^sup>* `` set ?p)"
  proof (rule reach_image)
    show "succs ?es ?ns `` {..<length (nodes v)} \<subseteq> {..<length (nodes v)}" using edges unfolding succs by blast
    show "set ?p \<subseteq> {..<length (nodes v)}" unfolding p by auto
    show "refers h R `` {?f i} = ?f ` (succs ?es ?ns `` {i})" if "i \<in> {..<length (nodes v)}" for i
    proof -
      have "map ?f (node_edges ?es (nodes v ! i)) = outs h R (?f i)"
        using node(4) [of i] that by (simp add: scanned_def)
      then have "set (outs h R (?f i)) = ?f ` set (node_edges ?es (nodes v ! i))" by (metis set_map)
      then show ?thesis using that unfolding succs refers_def by auto
    qed
  qed
  then show "?f ` lives (mark_held v) = (refers h R)\<^sup>* `` {x \<in> D. holding h R D x}"
    unfolding mh using marked img none by simp
qed

lemma refers_closed:
  assumes "agrees h cells R"
  shows "refers h R `` reached_objects h cells \<subseteq> reached_objects h cells"
proof
  fix y assume "y \<in> refers h R `` reached_objects h cells"
  then obtain x k a b where x: "(x, k, a, b) \<in> described h cells" "y \<in> set (outs h R x)"
    by (auto simp: refers_def reached_objects_def)
  then have "visit h x k a b = R x" using assms by (auto simp: agrees_def)
  then obtain k' a' b' where "Edge y k' a' b' \<in> set (visit h x k a b)" "count h x \<noteq> 0" "y \<noteq> 0" "count h y \<noteq> IMMORTAL"
    using x(2) by (auto simp: outs_def targets_iff split: if_splits)
  then have "(y, k', a', b') \<in> described h cells" using x(1) by (auto intro: described.refer)
  then show "y \<in> reached_objects h cells" by (force simp: reached_objects_def)
qed

lemma collected:
  assumes "finite (described h cells)" "agrees h cells R" "distinct (map fst cells)"
  shows "\<exists>c. count_and_free h cells t = Some c \<and> distinct (garbage c) \<and> freed c = length (garbage c) \<and>
    set (garbage c) = garbage_of h R (reached_objects h cells)"
proof (cases "cells = []")
  case True
  have "described h [] = {}" by (auto elim: described.induct)
  then have "reached_objects h cells = {}" using True by (simp add: reached_objects_def)
  then show ?thesis using True by (simp add: count_and_free_def garbage_of_def)
next
  case False
  obtain v where v: "scan h 0 (start_visitor h cells) = Some v" and inv: "scan_inv h cells R (length (nodes v)) v"
    using scan_returns [OF assms(1,2)] start_visitor_inv [OF assms(3)] by blast
  let ?f = "\<lambda>i. address (nodes v ! i)"
  let ?m = "mark_held v"
  let ?D = "reached_objects h cells"
  have es: "\<forall>j \<in> set (vedges v). j < length (nodes v)" using inv by (simp add: scan_inv_def)
  have "unmarked ?m = unmarked (fold count_edge (vedges v) (nodes v))"
    using mark_held_live(1) [OF inv assms(2) refl] .
  then have "map address (unmarked ?m) = map address (unmarked (fold count_edge (vedges v) (nodes v)))" by simp
  also have "\<dots> = addrs v"
    using counted [OF es] by (simp add: unmarked_def comp_def addrs_def list_eq_iff_nth_eq)
  finally have addr: "map address ?m = addrs v" by (simp add: unmarked_def comp_def)
  then have len: "length ?m = length (nodes v)" by (metis addrs_def length_map)
  have at: "address (?m ! i) = ?f i" if "i < length (nodes v)" for i
    using addr that len unfolding addrs_def by (metis nth_map)
  have dist: "distinct (addrs v)" using inv by (simp add: scan_inv_def wf_index_def)
  have "set (map address (filter (\<lambda>n. \<not> live n) ?m)) = ?f ` ({..<length (nodes v)} - lives ?m)"
  proof -
    have "set (filter (\<lambda>n. \<not> live n) ?m) = (\<lambda>i. ?m ! i) ` ({..<length (nodes v)} - lives ?m)"
      by (auto simp: lives_def len in_set_conv_nth)
    then show ?thesis unfolding set_map using at by (auto simp: image_image)
  qed
  also have "\<dots> = ?f ` {..<length (nodes v)} - ?f ` lives ?m"
  proof (rule inj_on_image_set_diff)
    show "inj_on ?f {..<length (nodes v)}" using dist by (auto simp: inj_on_def addrs_def distinct_conv_nth)
  qed (auto simp: lives_def len)
  also have "?f ` {..<length (nodes v)} = set (addrs v)" unfolding addrs_def set_map set_conv_nth [of "nodes v"] by blast
  finally have "set (map address (filter (\<lambda>n. \<not> live n) ?m)) = garbage_of h R ?D"
    using mark_held_live(2) [OF inv assms(2) refl] scan_objects [OF inv assms(2)] by (simp add: garbage_of_def)
  moreover have "distinct (map address (filter (\<lambda>n. \<not> live n) ?m))"
    using dist unfolding addr [symmetric] by (rule distinct_map_filter)
  ultimately show ?thesis using False v by (simp add: count_and_free_def Let_def)
qed

text \<open>C6: a collection frees exactly the garbage. From a finite heap whose glue reports the same
  references of an object however it was reached, \<open>count_and_free\<close> always ends; what it finds dead
  is, each object once, every object reached from the cells that no held object leads to.
\<close>

theorem collection_frees_the_garbage:
  assumes "finite (described h cells)" "agrees h cells R" "distinct (map fst cells)"
  shows "\<exists>c. count_and_free h cells t = Some c \<and> distinct (garbage c) \<and> freed c = length (garbage c) \<and>
    set (garbage c) = garbage_of h R (reached_objects h cells)"
  using collected [OF assms] .

subsection \<open>What programs see of a collection\<close>

text \<open>
  The counts of a heap are exact: the references from objects the collection reaches, and
  \<open>outside x\<close> from everywhere else (variables, tasks, objects it does not reach).
\<close>

definition exact_counts :: "heap \<Rightarrow> (addr \<Rightarrow> report list) \<Rightarrow> addr set \<Rightarrow> (addr \<Rightarrow> nat) \<Rightarrow> bool" where
  "exact_counts h R D outside \<longleftrightarrow> (\<forall>x \<in> D. count h x = outside x + pointed h R D x)"

lemma collection_garbage:
  assumes "finite (described h cells)" "agrees h cells R" "distinct (map fst cells)"
    "count_and_free h cells t = Some c"
  shows "set (garbage c) = garbage_of h R (reached_objects h cells)"
  using collected [OF assms(1-3), of t] assms(4) by auto

text \<open>C7: a collection is safe. When the counts are exact, an object that is referred to from outside
  what the collection reaches is not freed, and neither is anything it leads to.\<close>

theorem reachable_objects_survive:
  assumes "finite (described h cells)" "agrees h cells R" "distinct (map fst cells)"
    "exact_counts h R (reached_objects h cells) outside" "count_and_free h cells t = Some c"
    "x \<in> reached_objects h cells" "0 < outside x" "(x, y) \<in> (refers h R)\<^sup>*"
  shows "y \<notin> set (garbage c)"
proof -
  have "holding h R (reached_objects h cells) x"
    using assms(4,6,7) by (simp add: exact_counts_def holding_def)
  then show ?thesis
    using collection_garbage [OF assms(1-3,5)] assms(6,8) by (auto simp: garbage_of_def)
qed

text \<open>C8: a collection leaves no cycle behind. When the counts are exact, a set of reached objects that
  nothing outside it refers to, nothing holds and no thread is freeing is found dead as a whole,
  with whatever cycles it has.\<close>

theorem unreachable_objects_are_freed:
  assumes "finite (described h cells)" "agrees h cells R" "distinct (map fst cells)"
    "exact_counts h R (reached_objects h cells) outside" "count_and_free h cells t = Some c"
    "G \<subseteq> reached_objects h cells" "G \<subseteq> {x. outside x = 0 \<and> count h x \<noteq> 0 \<and> Hold \<notin> set (R x)}"
    "refers h R `` (reached_objects h cells - G) \<inter> G = {}"
  shows "G \<subseteq> set (garbage c)"
proof -
  let ?D = "reached_objects h cells"
  let ?H = "{x \<in> ?D. holding h R ?D x}"
  have "?H \<subseteq> ?D - G"
  proof
    fix x assume x: "x \<in> ?H"
    then have "x \<in> ?D" "holding h R ?D x" by simp_all
    moreover from this have "\<not> (outside x = 0 \<and> count h x \<noteq> 0 \<and> Hold \<notin> set (R x))"
      using assms(4) by (auto simp: exact_counts_def holding_def)
    ultimately show "x \<in> ?D - G" using assms(7) by blast
  qed
  moreover have "refers h R `` (?D - G) \<subseteq> ?D - G"
    using assms(8) refers_closed [OF assms(2)] by blast
  ultimately have "(refers h R)\<^sup>* `` ?H \<subseteq> ?D - G"
    by (metis Image_closed_trancl Image_mono order_refl)
  then show ?thesis
    using collection_garbage [OF assms(1-3,5)] assms(6) by (auto simp: garbage_of_def)
qed

text \<open>A cell and a box that refer to each other, and a cell that a variable holds.\<close>

definition ring_reports :: "addr \<Rightarrow> report list" where
  "ring_reports x =
     (if x = 8 then [Edge 24 KBox 0 0, Edge 0 KFn 0 0]
      else if x = 24 then [Edge 8 KSync 0 0, Edge 40 KArray 1 0]
      else if x = 16 then [Edge 16 KSync 0 0] else [])"

definition ring_heap :: heap where
  "ring_heap = \<lparr>count = (\<lambda>x. if x = 16 then 2 else if x = 8 \<or> x = 24 then 1 else IMMORTAL),
     visit = (\<lambda>x k a b. ring_reports x)\<rparr>"

definition ring_cells :: "(addr \<times> gc_kind) list" where
  "ring_cells = [(8, KSync), (16, KSync)]"

lemma ring_described: "described ring_heap ring_cells = {(8, KSync, 0, 0), (16, KSync, 0, 0), (24, KBox, 0, 0)}"
proof
  have "(x, k, a, b) \<in> {(8, KSync, 0, 0), (16, KSync, 0, 0), (24, KBox, 0, 0)}"
    if "(x, k, a, b) \<in> described ring_heap ring_cells" for x k a b
    using that
    by induction (auto simp: ring_cells_def ring_heap_def ring_reports_def split: if_splits)
  then show "described ring_heap ring_cells \<subseteq> {(8, KSync, 0, 0), (16, KSync, 0, 0), (24, KBox, 0, 0)}" by auto
  have 8: "(8, KSync, 0, 0) \<in> described ring_heap ring_cells" and 16: "(16, KSync, 0, 0) \<in> described ring_heap ring_cells"
    by (auto simp: ring_cells_def intro: described.cell)
  have "(24, KBox, 0, 0) \<in> described ring_heap ring_cells"
    by (rule described.refer [OF 8]) (simp_all add: ring_heap_def ring_reports_def IMMORTAL_def)
  then show "{(8, KSync, 0, 0), (16, KSync, 0, 0), (24, KBox, 0, 0)} \<subseteq> described ring_heap ring_cells"
    using 8 16 by simp
qed

lemma ring_objects: "reached_objects ring_heap ring_cells = {8, 16, 24}"
  by (simp add: reached_objects_def ring_described)

lemma ring_collects:
  "finite (described ring_heap ring_cells)" "agrees ring_heap ring_cells ring_reports" "distinct (map fst ring_cells)"
  by (simp_all add: ring_described agrees_def) (simp_all add: ring_heap_def ring_cells_def)

lemma ring_outs:
  "outs ring_heap ring_reports x = (if x = 8 then [24] else if x = 24 then [8] else if x = 16 then [16] else [])"
  by (simp add: outs_def ring_heap_def ring_reports_def IMMORTAL_def)

lemma ring_exact:
  "exact_counts ring_heap ring_reports (reached_objects ring_heap ring_cells) (\<lambda>x. if x = 16 then 1 else 0)"
  by (simp add: exact_counts_def ring_objects pointed_def ring_outs) (simp add: ring_heap_def)

lemma collection_frees_the_garbage_witness:
  "\<exists>c. count_and_free ring_heap ring_cells 0 = Some c \<and>
    set (garbage c) = garbage_of ring_heap ring_reports (reached_objects ring_heap ring_cells)"
  using collection_frees_the_garbage [OF ring_collects, of 0] by blast

lemma reachable_objects_survive_witness:
  "\<exists>c. count_and_free ring_heap ring_cells 0 = Some c \<and> 16 \<notin> set (garbage c)"
proof -
  obtain c where c: "count_and_free ring_heap ring_cells 0 = Some c"
    using collected [OF ring_collects] by blast
  have "16 \<notin> set (garbage c)"
    by (rule reachable_objects_survive [OF ring_collects ring_exact c, of 16]) (simp_all add: ring_objects)
  with c show ?thesis by blast
qed

lemma unreachable_objects_are_freed_witness:
  "\<exists>c. count_and_free ring_heap ring_cells 0 = Some c \<and> {8, 24} \<subseteq> set (garbage c)"
proof -
  obtain c where c: "count_and_free ring_heap ring_cells 0 = Some c"
    using collected [OF ring_collects] by blast
  have "{8, 24} \<subseteq> set (garbage c)"
    by (rule unreachable_objects_are_freed [OF ring_collects ring_exact c])
      (auto simp: ring_objects refers_def ring_outs, simp_all add: ring_heap_def ring_reports_def)
  with c show ?thesis by blast
qed
end
