(* ===== verification/Generics.thy ===== *)
theory Generics
  imports Types "HOL-Library.List_Lexorder" "HOL-Library.Char_ord" "HOL-Library.Product_Lexorder"
    "HOL-Library.Monad_Syntax"
begin

text \<open>
  The generic part of the type table of \<^verbatim>\<open>crates/tondo/src/types.rs\<close>: how types are shown,
  the canonical form of unions, templates and their instances, substitution, and the matching
  that selects implementations. A \<open>program\<close> is a table with what generic declarations add to it.
  Changing the table can fail to end in the source only by instantiating forever, which the fuel
  of the operations below stands for: \<open>None\<close> when it runs out. The theory \<open>Substitution\<close> has the
  properties.
\<close>

subsection \<open>Programs\<close>

type_synonym template_id = nat

record opaque_def =
  oname :: string
  generics :: "ty list"
  carrier :: ty
  witness :: "ty option"

record template =
  tname :: string
  tparams :: "ty list"
  tkind :: "adt_kind option"
  tsecret :: bool

record closure_info =
  body :: nat
  cparams :: "ty list"
  cresult :: ty
  variadic :: bool
  modes :: "mode list"
  mutates :: bool
  once :: bool
  is_unsafe :: bool

record program =
  table :: types
  templates :: "template list"
  instances :: "template_id \<times> ty list \<Rightarrow> ty option"
  pending :: "adt_id list"
  closures :: "template_id \<Rightarrow> closure_info option"
  opaques :: "opaque_def list"
  runaway :: "string option"

definition empty_program :: program where
  "empty_program = \<lparr>table = default_types, templates = [], instances = Map.empty, pending = [],
     closures = Map.empty, opaques = [], runaway = None\<rparr>"

abbreviation pkind :: "program \<Rightarrow> ty \<Rightarrow> ty_kind" where
  "pkind P \<equiv> kind (table P)"

definition adt_def_of :: "program \<Rightarrow> adt_id \<Rightarrow> adt_def" where
  "adt_def_of P a =
     (if a < length (adts (table P)) then adts (table P) ! a
      else \<lparr>adt_name = [], adt_kind = Record [], adt_instance = None, adt_secret = False\<rparr>)"

definition template_of :: "program \<Rightarrow> template_id \<Rightarrow> template" where
  "template_of P t =
     (if t < length (templates P) then templates P ! t
      else \<lparr>tname = [], tparams = [], tkind = None, tsecret = False\<rparr>)"

definition instance_of :: "program \<Rightarrow> ty \<Rightarrow> (template_id \<times> ty list) option" where
  "instance_of P ty = (case pkind P ty of TAdt a \<Rightarrow> adt_instance (adt_def_of P a) | _ \<Rightarrow> None)"

text \<open>\<open>declare_template\<close>, \<open>declare_param\<close>, \<open>declare_opaque\<close>, \<open>set_witness\<close> and \<open>hide_adt\<close>.\<close>

definition declare_template :: "string \<Rightarrow> ty list \<Rightarrow> program \<Rightarrow> template_id \<times> program" where
  "declare_template nm ps P =
     (length (templates P),
      P\<lparr>templates := templates P @ [\<lparr>tname = nm, tparams = ps, tkind = None, tsecret = False\<rparr>]\<rparr>)"

definition pintern :: "ty_kind \<Rightarrow> program \<Rightarrow> ty \<times> program" where
  "pintern k P = (fst (intern k (table P)), P\<lparr>table := snd (intern k (table P))\<rparr>)"

definition declare_param :: "string \<Rightarrow> program \<Rightarrow> ty \<times> program" where
  "declare_param nm P =
     (let T = table P in
      pintern (TParam (length (params T)))
        (P\<lparr>table := T\<lparr>params := params T @ [\<lparr>param_name = nm, equatable = False, key = False, copy = False,
           param_send = False, param_share = False\<rparr>]\<rparr>\<rparr>))"

definition declare_opaque :: "string \<Rightarrow> ty list \<Rightarrow> ty \<Rightarrow> program \<Rightarrow> ty \<times> program" where
  "declare_opaque nm gs c P =
     pintern (TOpaque (length (opaques P)) gs)
       (P\<lparr>opaques := opaques P @ [\<lparr>oname = nm, generics = gs, carrier = c, witness = None\<rparr>],
          table := (table P)\<lparr>carriers := carriers (table P) @ [c]\<rparr>\<rparr>)"

definition set_witness :: "ty \<Rightarrow> ty \<Rightarrow> program \<Rightarrow> program" where
  "set_witness ty w P =
     (case pkind P ty of
        TOpaque i _ \<Rightarrow> P\<lparr>opaques := (opaques P)[i := (opaques P ! i)\<lparr>witness := Some w\<rparr>]\<rparr>
      | _ \<Rightarrow> P)"

definition hide_adt :: "adt_id \<Rightarrow> program \<Rightarrow> program" where
  "hide_adt a P = P\<lparr>table := (table P)\<lparr>adts := (adts (table P))[a := (adts (table P) ! a)\<lparr>adt_secret := True\<rparr>]\<rparr>\<rparr>"

text \<open>\<open>any_secret\<close>, \<open>pattern_name\<close>, \<open>handle_result\<close>, \<open>closure_calls\<close> and \<open>is_closure\<close>.\<close>

definition hidden :: "field list \<Rightarrow> bool" where
  "hidden fs \<longleftrightarrow> list_ex is_secret fs"

definition any_secret :: "program \<Rightarrow> bool" where
  "any_secret P \<longleftrightarrow>
     list_ex (\<lambda>d. adt_secret d \<or>
       (case adt_kind d of
          Record fs \<Rightarrow> hidden fs
        | Enum vs \<Rightarrow> list_ex (\<lambda>v. case vpayload v of PRecord fs \<Rightarrow> hidden fs | _ \<Rightarrow> False) vs
        | Newtype _ \<Rightarrow> False)) (adts (table P))"

definition pattern_name :: "program \<Rightarrow> adt_id \<Rightarrow> string" where
  "pattern_name P a =
     (case adt_instance (adt_def_of P a) of
        Some (t, _) \<Rightarrow> tname (template_of P t)
      | None \<Rightarrow> adt_name (adt_def_of P a))"

definition handle_result :: "program \<Rightarrow> ty \<Rightarrow> ty" where
  "handle_result P ty = (case pkind P ty of THandle _ r \<Rightarrow> r | _ \<Rightarrow> ERROR)"

definition closure_calls :: "program \<Rightarrow> ty \<Rightarrow> (bool \<times> bool) option" where
  "closure_calls P ty =
     (case instance_of P ty of
        None \<Rightarrow> None
      | Some (t, _) \<Rightarrow> map_option (\<lambda>c. (mutates c, once c)) (closures P t))"

definition is_closure :: "program \<Rightarrow> ty \<Rightarrow> bool" where
  "is_closure P ty \<longleftrightarrow> (case instance_of P ty of Some (t, _) \<Rightarrow> closures P t \<noteq> None | None \<Rightarrow> False)"

subsection \<open>What a type mentions\<close>

text \<open>
  A type is interned after the types it is made of, so these recursions go to smaller indices;
  \<open>below\<close> keeps the parts for which that holds, which is all of them in a program the operations
  built (\<open>below_parts\<close>).
\<close>

definition below :: "ty \<Rightarrow> ty list \<Rightarrow> ty list" where
  "below ty parts = filter (\<lambda>t. t < ty) parts"

lemma in_below [simp]: "t \<in> set (below ty parts) \<longleftrightarrow> t \<in> set parts \<and> t < ty"
  by (auto simp: below_def)

definition args_of :: "program \<Rightarrow> adt_id \<Rightarrow> ty list" where
  "args_of P a = (case adt_instance (adt_def_of P a) of Some (_, args) \<Rightarrow> args | None \<Rightarrow> [])"

function params_in :: "program \<Rightarrow> ty \<Rightarrow> ty list" where
  "params_in P ty =
     (case pkind P ty of
        TParam _ \<Rightarrow> [ty]
      | TTuple ts \<Rightarrow> concat (map (params_in P) (below ty ts))
      | TUnion ts \<Rightarrow> concat (map (params_in P) (below ty ts))
      | TOpaque _ ts \<Rightarrow> concat (map (params_in P) (below ty ts))
      | TFn ps r _ _ _ \<Rightarrow> concat (map (params_in P) (below ty (ps @ [r])))
      | TCFn ps r _ \<Rightarrow> concat (map (params_in P) (below ty (ps @ [r])))
      | TOption t \<Rightarrow> concat (map (params_in P) (below ty [t]))
      | TArray t \<Rightarrow> concat (map (params_in P) (below ty [t]))
      | TDeque t \<Rightarrow> concat (map (params_in P) (below ty [t]))
      | TSet t \<Rightarrow> concat (map (params_in P) (below ty [t]))
      | THandle _ t \<Rightarrow> concat (map (params_in P) (below ty [t]))
      | TCArray t _ \<Rightarrow> concat (map (params_in P) (below ty [t]))
      | TPointer t \<Rightarrow> concat (map (params_in P) (below ty [t]))
      | TResult a b \<Rightarrow> concat (map (params_in P) (below ty [a, b]))
      | TMap a b \<Rightarrow> concat (map (params_in P) (below ty [a, b]))
      | TAdt a \<Rightarrow> concat (map (params_in P) (below ty (args_of P a)))
      | _ \<Rightarrow> [])"
  by pat_completeness auto
termination by (relation "measure snd") auto

function has_params :: "program \<Rightarrow> ty \<Rightarrow> bool" where
  "has_params P ty =
     (case pkind P ty of
        TParam _ \<Rightarrow> True
      | TTuple ts \<Rightarrow> list_ex (has_params P) (below ty ts)
      | TUnion ts \<Rightarrow> list_ex (has_params P) (below ty ts)
      | TOpaque _ ts \<Rightarrow> list_ex (has_params P) (below ty ts)
      | TFn ps r _ _ _ \<Rightarrow> list_ex (has_params P) (below ty (ps @ [r]))
      | TCFn ps r _ \<Rightarrow> list_ex (has_params P) (below ty (ps @ [r]))
      | TOption t \<Rightarrow> list_ex (has_params P) (below ty [t])
      | TArray t \<Rightarrow> list_ex (has_params P) (below ty [t])
      | TDeque t \<Rightarrow> list_ex (has_params P) (below ty [t])
      | TSet t \<Rightarrow> list_ex (has_params P) (below ty [t])
      | THandle _ t \<Rightarrow> list_ex (has_params P) (below ty [t])
      | TCArray t _ \<Rightarrow> list_ex (has_params P) (below ty [t])
      | TPointer t \<Rightarrow> list_ex (has_params P) (below ty [t])
      | TResult a b \<Rightarrow> list_ex (has_params P) (below ty [a, b])
      | TMap a b \<Rightarrow> list_ex (has_params P) (below ty [a, b])
      | TAdt a \<Rightarrow> list_ex (has_params P) (below ty (args_of P a))
      | _ \<Rightarrow> False)"
  by pat_completeness auto
termination by (relation "measure snd") auto

text \<open>\<open>opaques_in\<close> stops at the opaque results it finds; \<open>has_error\<close> does not look into arguments.\<close>

function opaques_in :: "program \<Rightarrow> ty \<Rightarrow> ty list" where
  "opaques_in P ty =
     (case pkind P ty of
        TOpaque _ _ \<Rightarrow> [ty]
      | TTuple ts \<Rightarrow> concat (map (opaques_in P) (below ty ts))
      | TUnion ts \<Rightarrow> concat (map (opaques_in P) (below ty ts))
      | TFn ps r _ _ _ \<Rightarrow> concat (map (opaques_in P) (below ty (ps @ [r])))
      | TCFn ps r _ \<Rightarrow> concat (map (opaques_in P) (below ty (ps @ [r])))
      | TOption t \<Rightarrow> concat (map (opaques_in P) (below ty [t]))
      | TArray t \<Rightarrow> concat (map (opaques_in P) (below ty [t]))
      | TDeque t \<Rightarrow> concat (map (opaques_in P) (below ty [t]))
      | TSet t \<Rightarrow> concat (map (opaques_in P) (below ty [t]))
      | THandle _ t \<Rightarrow> concat (map (opaques_in P) (below ty [t]))
      | TCArray t _ \<Rightarrow> concat (map (opaques_in P) (below ty [t]))
      | TPointer t \<Rightarrow> concat (map (opaques_in P) (below ty [t]))
      | TResult a b \<Rightarrow> concat (map (opaques_in P) (below ty [a, b]))
      | TMap a b \<Rightarrow> concat (map (opaques_in P) (below ty [a, b]))
      | TAdt a \<Rightarrow> concat (map (opaques_in P) (below ty (args_of P a)))
      | _ \<Rightarrow> [])"
  by pat_completeness auto
termination by (relation "measure snd") auto

function has_error :: "program \<Rightarrow> ty \<Rightarrow> bool" where
  "has_error P ty =
     (case pkind P ty of
        TError \<Rightarrow> True
      | TTuple ts \<Rightarrow> list_ex (has_error P) (below ty ts)
      | TOption t \<Rightarrow> list_ex (has_error P) (below ty [t])
      | TResult a b \<Rightarrow> list_ex (has_error P) (below ty [a, b])
      | TArray t \<Rightarrow> list_ex (has_error P) (below ty [t])
      | TDeque t \<Rightarrow> list_ex (has_error P) (below ty [t])
      | TSet t \<Rightarrow> list_ex (has_error P) (below ty [t])
      | THandle _ t \<Rightarrow> list_ex (has_error P) (below ty [t])
      | TCArray t _ \<Rightarrow> list_ex (has_error P) (below ty [t])
      | TPointer t \<Rightarrow> list_ex (has_error P) (below ty [t])
      | TMap a b \<Rightarrow> list_ex (has_error P) (below ty [a, b])
      | TUnion ts \<Rightarrow> list_ex (has_error P) (below ty ts)
      | TFn ps r _ _ _ \<Rightarrow> list_ex (has_error P) (below ty (ps @ [r]))
      | TCFn ps r _ \<Rightarrow> list_ex (has_error P) (below ty (ps @ [r]))
      | _ \<Rightarrow> False)"
  by pat_completeness auto
termination by (relation "measure snd") auto

text \<open>How deeply types nest, and the depth beyond which an instance is not created.\<close>

definition depth_parts :: "program \<Rightarrow> ty \<Rightarrow> ty list" where
  "depth_parts P ty =
     (case pkind P ty of
        TTuple ts \<Rightarrow> ts | TUnion ts \<Rightarrow> ts
      | TOption t \<Rightarrow> [t] | TArray t \<Rightarrow> [t] | TDeque t \<Rightarrow> [t] | TSet t \<Rightarrow> [t] | THandle _ t \<Rightarrow> [t]
      | TCArray t _ \<Rightarrow> [t] | TPointer t \<Rightarrow> [t]
      | TResult a b \<Rightarrow> [a, b] | TMap a b \<Rightarrow> [a, b]
      | TAdt a \<Rightarrow> args_of P a
      | _ \<Rightarrow> [])"

function depth :: "program \<Rightarrow> ty \<Rightarrow> nat" where
  "depth P ty = 1 + fold max (map (depth P) (below ty (depth_parts P ty))) 0"
  by pat_completeness auto
termination by (relation "measure snd") auto

declare params_in.simps [simp del] has_params.simps [simp del] opaques_in.simps [simp del]
  has_error.simps [simp del] depth.simps [simp del]

definition MAX_TYPE_DEPTH :: nat where "MAX_TYPE_DEPTH = 40"

text \<open>\<open>secret\<close>, through newtypes, with the fuel of \<open>repr\<close>.\<close>

fun secret_loop :: "nat \<Rightarrow> program \<Rightarrow> ty \<Rightarrow> bool" where
  "secret_loop 0 P ty = False"
| "secret_loop (Suc n) P ty =
     (case pkind P ty of
        TAdt a \<Rightarrow> adt_secret (adt_def_of P a) \<or>
          (case adt_kind (adt_def_of P a) of Newtype inner \<Rightarrow> secret_loop n P inner | _ \<Rightarrow> False)
      | _ \<Rightarrow> False)"

definition secret_ty :: "program \<Rightarrow> ty \<Rightarrow> bool" where
  "secret_ty P ty = secret_loop (Suc (length (kinds (table P)))) P ty"

subsection \<open>Showing types\<close>

text \<open>\<open>Handle::name\<close> and \<open>Mode::keyword\<close>.\<close>

definition handle_name :: "handle \<Rightarrow> string" where
  "handle_name h =
     (case h of
        Join \<Rightarrow> ''Join'' | Group \<Rightarrow> ''Group'' | Sender \<Rightarrow> ''Sender'' | Receiver \<Rightarrow> ''Receiver''
      | Mutex \<Rightarrow> ''sync.Mutex'' | RwLock \<Rightarrow> ''sync.RwLock'' | Atomic \<Rightarrow> ''sync.Atomic'' | Once \<Rightarrow> ''sync.Once''
      | SyncArray \<Rightarrow> ''sync.Array'' | SyncMap \<Rightarrow> ''sync.Map'' | SyncSet \<Rightarrow> ''sync.Set''
      | SyncStack \<Rightarrow> ''sync.Stack'' | SyncQueue \<Rightarrow> ''sync.Queue'' | Semaphore \<Rightarrow> ''sync.Semaphore''
      | Permit \<Rightarrow> ''sync.Permit'' | Barrier \<Rightarrow> ''sync.Barrier'' | Guard \<Rightarrow> ''lock'' | File \<Rightarrow> ''fs.File''
      | Writer \<Rightarrow> ''io.Writer'' | Reader \<Rightarrow> ''io.Reader'' | Buffer \<Rightarrow> ''io.Buffer'' | Command \<Rightarrow> ''Command''
      | Pipeline \<Rightarrow> ''Pipeline'' | Process \<Rightarrow> ''process.Process'' | JsonReader \<Rightarrow> ''json.NativeReader''
      | JsonWriter \<Rightarrow> ''json.NativeWriter'' | Clock \<Rightarrow> ''testing.VirtualTime'' | Regex \<Rightarrow> ''regex.NativeRegex''
      | ReflectBox \<Rightarrow> ''reflect.Box'' | Native \<Rightarrow> ''internal.Native'' | Ref \<Rightarrow> ''Ref'' | Weak \<Rightarrow> ''WeakRef'')"

definition mode_keyword :: "mode \<Rightarrow> string" where
  "mode_keyword m = (case m of ByValue \<Rightarrow> [] | ByRef \<Rightarrow> ''ref'' | ByMut \<Rightarrow> ''mut'' | ByVar \<Rightarrow> ''var'')"

fun join :: "string \<Rightarrow> string list \<Rightarrow> string" where
  "join sep [] = []"
| "join sep [s] = s"
| "join sep (s # rest) = s @ sep @ join sep rest"

primrec mapO :: "('a \<Rightarrow> 'b option) \<Rightarrow> 'a list \<Rightarrow> 'b list option" where
  "mapO f [] = Some []"
| "mapO f (x # xs) = do { y \<leftarrow> f x; ys \<leftarrow> mapO f xs; Some (y # ys) }"

lemma mapO_mono [partial_function_mono]:
  "(\<And>x. mono_option (\<lambda>f. B f x)) \<Longrightarrow> mono_option (\<lambda>f. mapO (\<lambda>x. B f x) xs)"
proof (induction xs)
  case Nil
  show ?case unfolding mapO.simps by (rule option.const_mono)
next
  case (Cons x xs)
  show ?case unfolding mapO.simps by (intro bind_mono Cons option.const_mono)
qed

text \<open>The signature a function type or a closure is shown by.\<close>

definition signature :: "program \<Rightarrow> ty \<Rightarrow> (string \<times> ty list \<times> ty \<times> bool \<times> mode list \<times> bool) option" where
  "signature P ty =
     (case pkind P ty of
        TFn ps r v ms u \<Rightarrow> Some ([], ps, r, v, ms, u)
      | TAdt a \<Rightarrow>
          (case adt_instance (adt_def_of P a) of
             Some (t, _) \<Rightarrow>
               map_option (\<lambda>c. (''closure '', cparams c, cresult c, variadic c, modes c, is_unsafe c)) (closures P t)
           | None \<Rightarrow> None)
      | _ \<Rightarrow> None)"

definition plain_handles :: "handle list" where
  "plain_handles = [Semaphore, Permit, Barrier, Guard, File, Writer, Reader, Buffer, Command, Pipeline,
     Process, JsonReader, JsonWriter, Clock, Regex, ReflectBox, Native]"

text \<open>What a handle's brackets show: a shared collection shows its elements.\<close>

definition of_elements :: "handle \<Rightarrow> bool" where
  "of_elements h \<longleftrightarrow> h \<in> {Once, SyncArray, SyncSet, SyncStack, SyncQueue}"

definition handle_args :: "program \<Rightarrow> handle \<Rightarrow> ty \<Rightarrow> ty list" where
  "handle_args P h state =
     (case pkind P state of
        TMap k v \<Rightarrow> if h = SyncMap then [k, v] else [state]
      | TOption t \<Rightarrow> if of_elements h then [t] else [state]
      | TArray t \<Rightarrow> if of_elements h then [t] else [state]
      | TSet t \<Rightarrow> if of_elements h then [t] else [state]
      | TDeque t \<Rightarrow> if of_elements h then [t] else [state]
      | _ \<Rightarrow> [state])"

definition OWN_PREFIX :: string where "OWN_PREFIX = ''root.''"

definition strip_own :: "string \<Rightarrow> string" where
  "strip_own s = (if take (length OWN_PREFIX) s = OWN_PREFIX then drop (length OWN_PREFIX) s else s)"

definition is_union :: "program \<Rightarrow> ty \<Rightarrow> bool" where
  "is_union P t = (case pkind P t of TUnion _ \<Rightarrow> True | _ \<Rightarrow> False)"

definition optional_grouped :: "program \<Rightarrow> ty \<Rightarrow> bool" where
  "optional_grouped P t =
     (case pkind P t of TOption _ \<Rightarrow> True | TResult _ _ \<Rightarrow> True | TUnion _ \<Rightarrow> True | _ \<Rightarrow> False)"

definition grouped :: "bool \<Rightarrow> string \<Rightarrow> string" where
  "grouped b s = (if b then ''('' @ s @ '')'' else s)"

text \<open>\<open>display\<close>; a closure's signature may mention types made later, so it is a partial function.\<close>

partial_function (option) display :: "program \<Rightarrow> ty \<Rightarrow> string option" where
  "display P ty =
     (case signature P ty of
        Some (prefix, ps, r, v, ms, u) \<Rightarrow>
          do {
            shown \<leftarrow> mapO (\<lambda>pm. do { s \<leftarrow> display P (fst pm);
                Some (if snd pm = ByValue then s else mode_keyword (snd pm) @ '' '' @ s) }) (zip ps ms);
            shown \<leftarrow> (if v \<and> shown \<noteq> []
              then do {
                e \<leftarrow> (case pkind P (last ps) of TArray e \<Rightarrow> display P e | _ \<Rightarrow> Some (last shown));
                Some (butlast shown @ [''...'' @ e]) }
              else Some shown);
            res \<leftarrow> (if r = UNIT then Some [] else do { s \<leftarrow> display P r; Some ('': '' @ s) });
            Some (prefix @ (if u then ''unsafe fn('' else ''fn('') @ join '', '' shown @ '')'' @ res)
          }
      | None \<Rightarrow>
     (case pkind P ty of
        TError \<Rightarrow> Some ''{error}''
      | TUnit \<Rightarrow> Some ''Unit''
      | TNever \<Rightarrow> Some ''Never''
      | TBool \<Rightarrow> Some ''Bool''
      | TString \<Rightarrow> Some ''String''
      | TInt i \<Rightarrow> Some (name i)
      | TFloat f \<Rightarrow> Some (if f = F32 then ''Float32'' else ''Float'')
      | TChar \<Rightarrow> Some ''Char''
      | TByte \<Rightarrow> Some ''Byte''
      | TTuple ts \<Rightarrow> do { shown \<leftarrow> mapO (display P) ts; Some (''('' @ join '', '' shown @ '')'') }
      | TAdt a \<Rightarrow> Some (strip_own (adt_name (adt_def_of P a)))
      | TOption t \<Rightarrow> do { s \<leftarrow> display P t; Some (grouped (optional_grouped P t) s @ ''?'') }
      | TArray t \<Rightarrow> do { s \<leftarrow> display P t; Some (''Array['' @ s @ '']'') }
      | TPointer t \<Rightarrow> do { s \<leftarrow> display P t; Some (''Pointer['' @ s @ '']'') }
      | TCArray t n \<Rightarrow> do { s \<leftarrow> display P t; Some (s @ ''['' @ dec n @ '']'') }
      | TDeque t \<Rightarrow> do { s \<leftarrow> display P t; Some (''Deque['' @ s @ '']'') }
      | TMap k v \<Rightarrow> do { s \<leftarrow> display P k; t \<leftarrow> display P v; Some (''Map['' @ s @ '', '' @ t @ '']'') }
      | TSet t \<Rightarrow> do { s \<leftarrow> display P t; Some (''Set['' @ s @ '']'') }
      | THandle h state \<Rightarrow>
          (if h \<in> set plain_handles then Some (handle_name h)
           else do { shown \<leftarrow> mapO (display P) (handle_args P h state);
                     Some (handle_name h @ ''['' @ join '', '' shown @ '']'') })
      | TResult ok err \<Rightarrow>
          do { e \<leftarrow> display P err;
               if ok = UNIT then Some (''!'' @ grouped (is_union P err) e)
               else do { s \<leftarrow> display P ok; Some (grouped (is_union P ok) s @ '' ! '' @ grouped (is_union P err) e) } }
      | TUnion ts \<Rightarrow> do { shown \<leftarrow> mapO (display P) ts; Some (join '' | '' shown) }
      | TParam i \<Rightarrow> Some (if i < length (params (table P)) then param_name (params (table P) ! i) else [])
      | TOpaque i _ \<Rightarrow> Some (if i < length (opaques P) then oname (opaques P ! i) else [])
      | TCFn ps r v \<Rightarrow>
          do { shown \<leftarrow> mapO (display P) ps;
               res \<leftarrow> (if r = UNIT then Some [] else do { s \<leftarrow> display P r; Some ('': '' @ s) });
               Some (''extern fn('' @ join '', '' (shown @ (if v then [''...''] else [])) @ '')'' @ res) }
      | TFn _ _ _ _ _ \<Rightarrow> None))"

definition shown_key :: "program \<Rightarrow> ty \<Rightarrow> string \<times> nat" where
  "shown_key P t = (case display P t of Some s \<Rightarrow> s | None \<Rightarrow> [], t)"

subsection \<open>Unions\<close>

text \<open>\<open>Types::union\<close>: flat, without \<open>Never\<close> and duplicates, in the order of the shown names.\<close>

definition union_parts :: "program \<Rightarrow> ty list \<Rightarrow> ty list" where
  "union_parts P members =
     concat (map (\<lambda>m. case pkind P m of TUnion inner \<Rightarrow> inner | TNever \<Rightarrow> [] | _ \<Rightarrow> [m]) members)"

definition union_members :: "program \<Rightarrow> ty list \<Rightarrow> ty list" where
  "union_members P members = remdups_adj (sort_key (shown_key P) (union_parts P members))"

definition union_ty :: "ty list \<Rightarrow> program \<Rightarrow> ty \<times> program" where
  "union_ty members P =
     (case union_members P members of
        [] \<Rightarrow> (NEVER, P)
      | [single] \<Rightarrow> (single, P)
      | flat \<Rightarrow> pintern (TUnion flat) P)"

definition members_of :: "program \<Rightarrow> ty \<Rightarrow> ty list option" where
  "members_of P ty = (case pkind P ty of TUnion ms \<Rightarrow> Some ms | _ \<Rightarrow> None)"

subsection \<open>Instances and substitution\<close>

text \<open>\<open>handle\<close> interns a handle; a group's \<open>wait\<close> needs the option of its result too.\<close>

definition handle_ty :: "handle \<Rightarrow> ty \<Rightarrow> program \<Rightarrow> ty \<times> program" where
  "handle_ty h t P =
     (let P = (if h = Group then snd (pintern (TOption t) P) else P) in pintern (THandle h t) P)"

text \<open>A map, with the entry tuple and the option of its values that lowering needs.\<close>

definition map_ty :: "ty \<Rightarrow> ty \<Rightarrow> program \<Rightarrow> ty \<times> program" where
  "map_ty k v P =
     (let P = snd (pintern (TTuple [k, v]) P); P = snd (pintern (TOption v) P) in pintern (TMap k v) P)"

fun mapS :: "('a \<Rightarrow> program \<Rightarrow> ('b \<times> program) option) \<Rightarrow> 'a list \<Rightarrow> program \<Rightarrow> ('b list \<times> program) option" where
  "mapS f [] P = Some ([], P)"
| "mapS f (x # xs) P = do { (y, P) \<leftarrow> f x P; (ys, P) \<leftarrow> mapS f xs P; Some (y # ys, P) }"

text \<open>The instance's type, named by its template and shown arguments, before it is defined.\<close>

definition declare_instance :: "template_id \<Rightarrow> ty list \<Rightarrow> program \<Rightarrow> (adt_id \<times> ty) \<times> program" where
  "declare_instance t args P =
     (let shown = map (\<lambda>a. fst (shown_key P a)) args;
          nm = tname (template_of P t) @ ''['' @ join '', '' shown @ '']'';
          ((a, ty), T) = declare_adt nm (table P);
          T = T\<lparr>adts := (adts T)[a := (adts T ! a)\<lparr>adt_instance := Some (t, args),
                adt_secret := tsecret (template_of P t)\<rparr>]\<rparr>
      in ((a, ty), P\<lparr>table := T, instances := (instances P)((t, args) \<mapsto> ty)\<rparr>))"

definition pdefine_adt :: "adt_id \<Rightarrow> adt_kind \<Rightarrow> program \<Rightarrow> program" where
  "pdefine_adt a k P = P\<lparr>table := define_adt a k (table P)\<rparr>"

text \<open>
  \<open>subst\<close>, \<open>instantiate\<close> and \<open>define_instance\<close>. A substitution is a HashMap from parameters,
  here a list of bindings of which the first for a parameter counts.
\<close>

type_synonym subst_map = "(ty \<times> ty) list"

definition bindings :: "ty list \<Rightarrow> ty list \<Rightarrow> subst_map" where
  "bindings ps args = rev (zip ps args)"

fun subst :: "nat \<Rightarrow> subst_map \<Rightarrow> ty \<Rightarrow> program \<Rightarrow> (ty \<times> program) option"
  and instantiate :: "nat \<Rightarrow> template_id \<Rightarrow> ty list \<Rightarrow> program \<Rightarrow> (ty \<times> program) option"
  and define_instance :: "nat \<Rightarrow> adt_id \<Rightarrow> program \<Rightarrow> program option" where
  "subst 0 m ty P = None"
| "subst (Suc n) m ty P =
     (if m = [] then Some (ty, P)
      else (case pkind P ty of
        TParam _ \<Rightarrow> Some (case map_of m ty of Some t \<Rightarrow> t | None \<Rightarrow> ty, P)
      | TTuple ts \<Rightarrow> do { (ts, P) \<leftarrow> mapS (subst n m) ts P; Some (pintern (TTuple ts) P) }
      | TOption t \<Rightarrow> do { (t, P) \<leftarrow> subst n m t P; Some (pintern (TOption t) P) }
      | TResult a b \<Rightarrow> do { (a, P) \<leftarrow> subst n m a P; (b, P) \<leftarrow> subst n m b P; Some (pintern (TResult a b) P) }
      | TArray t \<Rightarrow> do { (t, P) \<leftarrow> subst n m t P; Some (pintern (TArray t) P) }
      | TPointer t \<Rightarrow> do { (t, P) \<leftarrow> subst n m t P; Some (pintern (TPointer t) P) }
      | TCArray t c \<Rightarrow> do { (t, P) \<leftarrow> subst n m t P; Some (pintern (TCArray t c) P) }
      | TDeque t \<Rightarrow> do { (t, P) \<leftarrow> subst n m t P; Some (pintern (TDeque t) P) }
      | TSet t \<Rightarrow> do { (t, P) \<leftarrow> subst n m t P; Some (pintern (TSet t) P) }
      | THandle h t \<Rightarrow> do { (t, P) \<leftarrow> subst n m t P; Some (handle_ty h t P) }
      | TMap k v \<Rightarrow> do { (k, P) \<leftarrow> subst n m k P; (v, P) \<leftarrow> subst n m v P; Some (map_ty k v P) }
      | TUnion ts \<Rightarrow> do { (ts, P) \<leftarrow> mapS (subst n m) ts P; Some (union_ty ts P) }
      | TFn ps r v ms u \<Rightarrow>
          do { (ps, P) \<leftarrow> mapS (subst n m) ps P; (r, P) \<leftarrow> subst n m r P; Some (pintern (TFn ps r v ms u) P) }
      | TCFn ps r v \<Rightarrow>
          do { (ps, P) \<leftarrow> mapS (subst n m) ps P; (r, P) \<leftarrow> subst n m r P; Some (pintern (TCFn ps r v) P) }
      | TOpaque i ts \<Rightarrow> do { (ts, P) \<leftarrow> mapS (subst n m) ts P; Some (pintern (TOpaque i ts) P) }
      | TAdt a \<Rightarrow>
          (case adt_instance (adt_def_of P a) of
             Some (t, args) \<Rightarrow> do { (args, P) \<leftarrow> mapS (subst n m) args P; instantiate n t args P }
           | None \<Rightarrow> Some (ty, P))
      | _ \<Rightarrow> Some (ty, P)))"
| "instantiate 0 t args P = None"
| "instantiate (Suc n) t args P =
     (case instances P (t, args) of
        Some ty \<Rightarrow> Some (ty, P)
      | None \<Rightarrow>
          if list_ex (\<lambda>a. MAX_TYPE_DEPTH < depth P a) args
          then Some (ERROR, P\<lparr>runaway := (case runaway P of None \<Rightarrow> Some (tname (template_of P t)) | r \<Rightarrow> r)\<rparr>)
          else
            (let ((a, ty), P) = declare_instance t args P in
             if tkind (template_of P t) \<noteq> None
             then do { P \<leftarrow> define_instance n a P; Some (ty, P) }
             else Some (ty, P\<lparr>pending := pending P @ [a]\<rparr>)))"
| "define_instance 0 a P = None"
| "define_instance (Suc n) a P =
     (case adt_instance (adt_def_of P a) of
        None \<Rightarrow> None
      | Some (t, args) \<Rightarrow>
          (let m = bindings (tparams (template_of P t)) args;
               fields_of = (\<lambda>fs P. do { (ts, P) \<leftarrow> mapS (subst n m) (map fty fs) P;
                 Some (map (\<lambda>(f, t). f\<lparr>fty := t\<rparr>) (zip fs ts), P) });
               payload_of = (\<lambda>p P. case p of
                   PUnit \<Rightarrow> Some (PUnit, P)
                 | PTuple ts \<Rightarrow> do { (ts, P) \<leftarrow> mapS (subst n m) ts P; Some (PTuple ts, P) }
                 | PRecord fs \<Rightarrow> do { (fs, P) \<leftarrow> fields_of fs P; Some (PRecord fs, P) })
           in
           (case tkind (template_of P t) of
              None \<Rightarrow> None
            | Some (Newtype inner) \<Rightarrow>
                do { (inner, P) \<leftarrow> subst n m inner P; Some (pdefine_adt a (Newtype inner) P) }
            | Some (Record fs) \<Rightarrow> do { (fs, P) \<leftarrow> fields_of fs P; Some (pdefine_adt a (Record fs) P) }
            | Some (Enum vs) \<Rightarrow>
                do { (vs, P) \<leftarrow> mapS (\<lambda>v P. do { (p, P) \<leftarrow> payload_of (vpayload v) P;
                       Some (v\<lparr>vpayload := p\<rparr>, P) }) vs P;
                     Some (pdefine_adt a (Enum vs) P) })))"

text \<open>\<open>define_template\<close> defines the instances made before it.\<close>

fun define_pending :: "nat \<Rightarrow> template_id \<Rightarrow> adt_id list \<Rightarrow> program \<Rightarrow> program option" where
  "define_pending n t [] P = Some P"
| "define_pending n t (a # rest) P =
     (case adt_instance (adt_def_of P a) of
        Some (t', _) \<Rightarrow>
          if t' = t then do { P \<leftarrow> define_instance n a P; define_pending n t rest P }
          else define_pending n t rest (P\<lparr>pending := pending P @ [a]\<rparr>)
      | None \<Rightarrow> define_pending n t rest (P\<lparr>pending := pending P @ [a]\<rparr>))"

definition define_template :: "nat \<Rightarrow> template_id \<Rightarrow> adt_kind \<Rightarrow> program \<Rightarrow> program option" where
  "define_template n t k P =
     (let P = P\<lparr>templates := (templates P)[t := (templates P ! t)\<lparr>tkind := Some k\<rparr>]\<rparr>
      in define_pending n t (pending P) (P\<lparr>pending := []\<rparr>))"

text \<open>\<open>replace\<close> and \<open>reveal\<close>; an opaque result without a witness, where the source panics, is \<open>None\<close>.\<close>

fun replace_ty :: "nat \<Rightarrow> subst_map \<Rightarrow> ty \<Rightarrow> program \<Rightarrow> (ty \<times> program) option" where
  "replace_ty 0 m ty P = None"
| "replace_ty (Suc n) m ty P =
     (case map_of m ty of Some to \<Rightarrow> Some (to, P) | None \<Rightarrow>
     (case pkind P ty of
        TTuple ts \<Rightarrow> do { (ts, P) \<leftarrow> mapS (replace_ty n m) ts P; Some (pintern (TTuple ts) P) }
      | TUnion ts \<Rightarrow> do { (ts, P) \<leftarrow> mapS (replace_ty n m) ts P; Some (union_ty ts P) }
      | TFn ps r v ms u \<Rightarrow>
          do { (ps, P) \<leftarrow> mapS (replace_ty n m) ps P; (r, P) \<leftarrow> replace_ty n m r P; Some (pintern (TFn ps r v ms u) P) }
      | TCFn ps r v \<Rightarrow>
          do { (ps, P) \<leftarrow> mapS (replace_ty n m) ps P; (r, P) \<leftarrow> replace_ty n m r P; Some (pintern (TCFn ps r v) P) }
      | TOption t \<Rightarrow> do { (t, P) \<leftarrow> replace_ty n m t P; Some (pintern (TOption t) P) }
      | TArray t \<Rightarrow> do { (t, P) \<leftarrow> replace_ty n m t P; Some (pintern (TArray t) P) }
      | TPointer t \<Rightarrow> do { (t, P) \<leftarrow> replace_ty n m t P; Some (pintern (TPointer t) P) }
      | TCArray t c \<Rightarrow> do { (t, P) \<leftarrow> replace_ty n m t P; Some (pintern (TCArray t c) P) }
      | TDeque t \<Rightarrow> do { (t, P) \<leftarrow> replace_ty n m t P; Some (pintern (TDeque t) P) }
      | TSet t \<Rightarrow> do { (t, P) \<leftarrow> replace_ty n m t P; Some (pintern (TSet t) P) }
      | THandle h t \<Rightarrow> do { (t, P) \<leftarrow> replace_ty n m t P; Some (handle_ty h t P) }
      | TResult a b \<Rightarrow>
          do { (a, P) \<leftarrow> replace_ty n m a P; (b, P) \<leftarrow> replace_ty n m b P; Some (pintern (TResult a b) P) }
      | TMap k v \<Rightarrow> do { (k, P) \<leftarrow> replace_ty n m k P; (v, P) \<leftarrow> replace_ty n m v P; Some (map_ty k v P) }
      | TAdt a \<Rightarrow>
          (case adt_instance (adt_def_of P a) of
             Some (t, args) \<Rightarrow> do { (args, P) \<leftarrow> mapS (replace_ty n m) args P; instantiate n t args P }
           | None \<Rightarrow> Some (ty, P))
      | _ \<Rightarrow> Some (ty, P)))"

fun reveal :: "nat \<Rightarrow> ty \<Rightarrow> program \<Rightarrow> (ty \<times> program) option"
  and reveal_all :: "nat \<Rightarrow> ty list \<Rightarrow> subst_map \<Rightarrow> program \<Rightarrow> (subst_map \<times> program) option" where
  "reveal 0 ty P = None"
| "reveal (Suc n) ty P =
     (if opaques_in P ty = [] then Some (ty, P)
      else do { (m, P) \<leftarrow> reveal_all n (opaques_in P ty) [] P; replace_ty n m ty P })"
| "reveal_all 0 found m P = None"
| "reveal_all (Suc n) [] m P = Some (m, P)"
| "reveal_all (Suc n) (ot # found) m P =
     (case pkind P ot of
        TOpaque i args \<Rightarrow>
          do { w \<leftarrow> witness (opaques P ! i);
               (w, P) \<leftarrow> subst n (bindings (generics (opaques P ! i)) args) w P;
               (w, P) \<leftarrow> reveal n w P;
               reveal_all n found ((ot, w) # m) P }
      | _ \<Rightarrow> None)"

text \<open>\<open>closure\<close>: the body and the signature of a closure's instance.\<close>

definition closure_of :: "nat \<Rightarrow> ty \<Rightarrow> program \<Rightarrow> ((nat \<times> ty list \<times> closure_info) option \<times> program) option" where
  "closure_of n ty P =
     (case instance_of P ty of
        None \<Rightarrow> Some (None, P)
      | Some (t, args) \<Rightarrow>
          (case closures P t of
             None \<Rightarrow> Some (None, P)
           | Some info \<Rightarrow>
               (let m = bindings (tparams (template_of P t)) args in
                do { (ps, P) \<leftarrow> mapS (subst n m) (cparams info) P;
                     (r, P) \<leftarrow> subst n m (cresult info) P;
                     Some (Some (body info, args, info\<lparr>cparams := ps, cresult := r\<rparr>), P) })))"

subsection \<open>Matching and unification\<close>

text \<open>
  \<open>same_shape\<close>: the pairs of corresponding components of two types with the same outer
  constructor, which \<open>each\<close> is asked about in order until it refuses one.
\<close>

definition shape_pairs :: "program \<Rightarrow> ty \<Rightarrow> ty \<Rightarrow> (ty \<times> ty) list option" where
  "shape_pairs P a b =
     (case (pkind P a, pkind P b) of
        (TTuple x, TTuple y) \<Rightarrow> if length x = length y then Some (zip x y) else None
      | (TUnion x, TUnion y) \<Rightarrow> if length x = length y then Some (zip x y) else None
      | (TOpaque i x, TOpaque j y) \<Rightarrow> if i = j then Some (zip x y) else None
      | (TFn x r v m u, TFn y s w n z) \<Rightarrow>
          if length x = length y \<and> v = w \<and> m = n \<and> u = z then Some (zip x y @ [(r, s)]) else None
      | (TCFn x r v, TCFn y s w) \<Rightarrow> if length x = length y \<and> v = w then Some (zip x y @ [(r, s)]) else None
      | (TOption x, TOption y) \<Rightarrow> Some [(x, y)]
      | (TArray x, TArray y) \<Rightarrow> Some [(x, y)]
      | (TPointer x, TPointer y) \<Rightarrow> Some [(x, y)]
      | (TDeque x, TDeque y) \<Rightarrow> Some [(x, y)]
      | (TSet x, TSet y) \<Rightarrow> Some [(x, y)]
      | (THandle h x, THandle k y) \<Rightarrow> if h = k then Some [(x, y)] else None
      | (TResult p q, TResult r t) \<Rightarrow> Some [(p, r), (q, t)]
      | (TMap p q, TMap r t) \<Rightarrow> Some [(p, r), (q, t)]
      | (TAdt _, TAdt _) \<Rightarrow>
          (case (instance_of P a, instance_of P b) of
             (Some (x, xs), Some (y, ys)) \<Rightarrow> if x = y then Some (zip xs ys) else None
           | _ \<Rightarrow> None)
      | _ \<Rightarrow> None)"

fun all_each :: "(ty \<Rightarrow> ty \<Rightarrow> 'm \<Rightarrow> bool \<times> 'm) \<Rightarrow> (ty \<times> ty) list \<Rightarrow> 'm \<Rightarrow> bool \<times> 'm" where
  "all_each f [] m = (True, m)"
| "all_each f ((a, b) # rest) m =
     (case f a b m of (True, m) \<Rightarrow> all_each f rest m | (False, m) \<Rightarrow> (False, m))"

lemma all_each_cong [fundef_cong]:
  assumes "xs = ys" "m = m'" "\<And>a b m. (a, b) \<in> set ys \<Longrightarrow> f a b m = g a b m"
  shows "all_each f xs m = all_each g ys m'"
proof -
  have "all_each f ys m' = all_each g ys m'"
    using assms(3) by (induction ys arbitrary: m') (auto split: prod.splits bool.splits)
  then show ?thesis using assms(1,2) by simp
qed

definition pairs_below :: "ty \<Rightarrow> (ty \<times> ty) list \<Rightarrow> (ty \<times> ty) list" where
  "pairs_below p pairs = filter (\<lambda>(a, b). a < p) pairs"

function matches :: "program \<Rightarrow> ty list \<Rightarrow> ty \<Rightarrow> ty \<Rightarrow> subst_map \<Rightarrow> bool \<times> subst_map" where
  "matches P vars p a m =
     (if p \<in> set vars then
        (case map_of m p of
           Some bound \<Rightarrow> (bound = a, m)
         | None \<Rightarrow> (True, (p, a) # m))
      else if p = a then (True, m)
      else
        (case shape_pairs P p a of
           None \<Rightarrow> (False, m)
         | Some pairs \<Rightarrow> all_each (\<lambda>x y m. matches P vars x y m) (pairs_below p pairs) m))"
  by pat_completeness auto
termination
  by (relation "measure (\<lambda>(P, vars, p, a, m). p)") (auto simp: pairs_below_def)

declare matches.simps [simp del]

text \<open>\<open>unify_both\<close>; a variable is followed through the bindings, which may not end.\<close>

fun resolve :: "nat \<Rightarrow> subst_map \<Rightarrow> ty \<Rightarrow> ty option" where
  "resolve 0 m ty = None"
| "resolve (Suc n) m ty = (case map_of m ty of Some t \<Rightarrow> resolve n m t | None \<Rightarrow> Some ty)"

fun all_eachO :: "(ty \<Rightarrow> ty \<Rightarrow> 'm \<Rightarrow> (bool \<times> 'm) option) \<Rightarrow> (ty \<times> ty) list \<Rightarrow> 'm \<Rightarrow> (bool \<times> 'm) option" where
  "all_eachO f [] m = Some (True, m)"
| "all_eachO f ((a, b) # rest) m =
     (case f a b m of None \<Rightarrow> None | Some (True, m) \<Rightarrow> all_eachO f rest m | Some (False, m) \<Rightarrow> Some (False, m))"

fun unify_both :: "nat \<Rightarrow> program \<Rightarrow> ty list \<Rightarrow> ty \<Rightarrow> ty \<Rightarrow> subst_map \<Rightarrow> (bool \<times> subst_map) option" where
  "unify_both 0 P vars a b m = None"
| "unify_both (Suc n) P vars a b m =
     do {
       a \<leftarrow> resolve n m a;
       b \<leftarrow> resolve n m b;
       (if a = b then Some (True, m)
        else if a \<in> set vars then Some (True, (a, b) # m)
        else if b \<in> set vars then Some (True, (b, a) # m)
        else (case shape_pairs P a b of
                None \<Rightarrow> Some (False, m)
              | Some pairs \<Rightarrow> all_eachO (unify_both n P vars) pairs m))
     }"

end
