(* ===== verification/Substitution.thy ===== *)
theory Substitution
  imports Generics
begin

text \<open>
  What the generic part of the type table guarantees: a program stays well formed, types keep
  their meaning while it grows, unions have one form, and an implementation that matches a type
  gives it by substitution.
\<close>

abbreviation size_of :: "program \<Rightarrow> nat" where "size_of P \<equiv> length (kinds (table P))"

text \<open>The types a kind is made of.\<close>

fun kind_parts :: "ty_kind \<Rightarrow> ty list" where
  "kind_parts (TTuple ts) = ts"
| "kind_parts (TOption t) = [t]"
| "kind_parts (TResult a b) = [a, b]"
| "kind_parts (TArray t) = [t]"
| "kind_parts (TDeque t) = [t]"
| "kind_parts (TMap a b) = [a, b]"
| "kind_parts (TSet t) = [t]"
| "kind_parts (TUnion ts) = ts"
| "kind_parts (TPointer t) = [t]"
| "kind_parts (TFn ps r _ _ _) = ps @ [r]"
| "kind_parts (TCFn ps r _) = ps @ [r]"
| "kind_parts (TCArray t _) = [t]"
| "kind_parts (THandle _ t) = [t]"
| "kind_parts (TOpaque _ ts) = ts"
| "kind_parts _ = []"

definition parts :: "program \<Rightarrow> ty \<Rightarrow> ty list" where
  "parts P ty = (case pkind P ty of TAdt a \<Rightarrow> args_of P a | k \<Rightarrow> kind_parts k)"

fun adt_types :: "adt_kind \<Rightarrow> ty list" where
  "adt_types (Record fs) = map fty fs"
| "adt_types (Newtype t) = [t]"
| "adt_types (Enum vs) = concat (map (payload_types \<circ> vpayload) vs)"

text \<open>A union in canonical form.\<close>

definition normal_union :: "program \<Rightarrow> ty list \<Rightarrow> bool" where
  "normal_union P ms \<longleftrightarrow> 2 \<le> length ms \<and> union_members P ms = ms \<and>
     (\<forall>m \<in> set ms. \<not> is_union P m \<and> pkind P m \<noteq> TNever)"

text \<open>What holds of every program the operations build.\<close>

definition wf_kinds :: "program \<Rightarrow> bool" where
  "wf_kinds P \<longleftrightarrow> take 19 (kinds (table P)) = default_kinds \<and> distinct (kinds (table P)) \<and>
     (\<forall>ty < size_of P. set (parts P ty) \<subseteq> {..<ty} \<and>
        (\<forall>ms. pkind P ty = TUnion ms \<longrightarrow> normal_union P ms))"

definition wf_adts :: "program \<Rightarrow> bool" where
  "wf_adts P \<longleftrightarrow> (\<forall>a. TAdt a \<in> set (kinds (table P)) \<longleftrightarrow> a < length (adts (table P))) \<and>
     (\<forall>t args ty. instances P (t, args) = Some ty \<longleftrightarrow>
        (\<exists>a < length (adts (table P)). ty < size_of P \<and> pkind P ty = TAdt a \<and>
           adt_instance (adts (table P) ! a) = Some (t, args)))"

definition wf_generics :: "program \<Rightarrow> bool" where
  "wf_generics P \<longleftrightarrow>
     (\<forall>d \<in> set (adts (table P)). set (adt_types (adt_kind d)) \<subseteq> {..<size_of P}) \<and>
     (\<forall>t \<in> set (templates P). set (tparams t) \<subseteq> {..<size_of P} \<and>
        (\<forall>k. tkind t = Some k \<longrightarrow> set (adt_types k) \<subseteq> {..<size_of P})) \<and>
     (\<forall>t c. closures P t = Some c \<longrightarrow> set (cparams c) \<union> {cresult c} \<subseteq> {..<size_of P})"

definition wf_program :: "program \<Rightarrow> bool" where
  "wf_program P \<longleftrightarrow> wf_kinds P \<and> wf_adts P \<and> wf_generics P"

text \<open>A program grows: types keep their kinds and names.\<close>

definition extends :: "program \<Rightarrow> program \<Rightarrow> bool" where
  "extends P P' \<longleftrightarrow> (\<exists>ks. kinds (table P') = kinds (table P) @ ks) \<and>
     length (adts (table P)) \<le> length (adts (table P')) \<and>
     (\<forall>a < length (adts (table P)). adt_name (adts (table P') ! a) = adt_name (adts (table P) ! a) \<and>
        adt_instance (adts (table P') ! a) = adt_instance (adts (table P) ! a)) \<and>
     params (table P') = params (table P) \<and> templates P' = templates P \<and> closures P' = closures P \<and>
     opaques P' = opaques P"

lemma extends_refl [simp]: "extends P P"
  by (simp add: extends_def)

lemma extends_trans [trans]: "extends P P' \<Longrightarrow> extends P' P'' \<Longrightarrow> extends P P''"
  unfolding extends_def by (elim conjE exE) (auto simp: less_le_trans)

lemma extends_size: "extends P P' \<Longrightarrow> size_of P \<le> size_of P'"
  by (auto simp: extends_def)

lemma extends_kind: "extends P P' \<Longrightarrow> ty < size_of P \<Longrightarrow> pkind P' ty = pkind P ty"
  by (auto simp: extends_def kind_def nth_append)

lemma out_kind: "size_of P \<le> ty \<Longrightarrow> pkind P ty = TError"
  by (simp add: kind_def)

lemma wf_adt_bound:
  assumes "wf_program P" "pkind P ty = TAdt a"
  shows "a < length (adts (table P))"
proof -
  have "ty < size_of P" using assms(2) out_kind [of P ty] by (cases "ty < size_of P") auto
  then have "TAdt a \<in> set (kinds (table P))" using assms(2) by (auto simp: kind_def in_set_conv_nth)
  then show ?thesis using assms(1) by (simp add: wf_program_def wf_adts_def)
qed

lemma extends_instance:
  "wf_program P \<Longrightarrow> extends P P' \<Longrightarrow> ty < size_of P \<Longrightarrow> pkind P ty = TAdt a \<Longrightarrow>
    adt_instance (adt_def_of P' a) = adt_instance (adt_def_of P a) \<and>
    adt_name (adt_def_of P' a) = adt_name (adt_def_of P a)"
  using wf_adt_bound [of P ty a] by (auto simp: extends_def adt_def_of_def)

lemma below_all: "(\<forall>t \<in> set ts. t < ty) \<Longrightarrow> below ty ts = ts"
  by (simp add: below_def)

text \<open>In a well-formed program \<open>below\<close> keeps all parts, so the recursions are those of the source.\<close>

lemma below_parts: "wf_program P \<Longrightarrow> ty < size_of P \<Longrightarrow> below ty (parts P ty) = parts P ty"
  by (intro below_all) (auto simp: wf_program_def wf_kinds_def)

lemma parts_below: "wf_program P \<Longrightarrow> t \<in> set (parts P ty) \<Longrightarrow> t < ty \<and> t < size_of P"
proof -
  assume a: "wf_program P" "t \<in> set (parts P ty)"
  then have ty: "ty < size_of P" using out_kind [of P ty] by (cases "ty < size_of P") (auto simp: parts_def)
  then have "t < ty" using a by (auto simp: wf_program_def wf_kinds_def)
  with ty show ?thesis by simp
qed

subsection \<open>Displayed names are stable\<close>

lemma mapO_mono_on:
  "mapO f xs = Some ys \<Longrightarrow> (\<And>x s. x \<in> set xs \<Longrightarrow> f x = Some s \<Longrightarrow> g x = Some s) \<Longrightarrow> mapO g xs = Some ys"
  by (induction xs arbitrary: ys) (auto simp: bind_eq_Some_conv)

text \<open>Two programs that agree on the first \<open>n\<close> types, which are closed.\<close>

definition agree :: "nat \<Rightarrow> program \<Rightarrow> program \<Rightarrow> bool" where
  "agree n P P' \<longleftrightarrow>
     (\<forall>ty < n. pkind P' ty = pkind P ty \<and> signature P' ty = signature P ty \<and>
        (\<forall>a. pkind P ty = TAdt a \<longrightarrow> adt_name (adt_def_of P' a) = adt_name (adt_def_of P a)) \<and>
        set (kind_parts (pkind P ty)) \<subseteq> {..<n} \<and>
        (\<forall>pre ps r v ms u. signature P ty = Some (pre, ps, r, v, ms, u) \<longrightarrow> set ps \<union> {r} \<subseteq> {..<n})) \<and>
     params (table P') = params (table P) \<and> opaques P' = opaques P"

lemma agree_sym:
  assumes "agree n P P'"
  shows "agree n P' P"
  unfolding agree_def
proof (intro conjI allI impI)
  fix ty assume ty: "ty < n"
  show "pkind P ty = pkind P' ty" "signature P ty = signature P' ty" using assms ty by (simp_all add: agree_def)
  show "set (kind_parts (pkind P' ty)) \<subseteq> {..<n}" using assms ty by (simp add: agree_def)
  { fix pre ps r v ms u assume "signature P' ty = Some (pre, ps, r, v, ms, u)"
    then show "set ps \<union> {r} \<subseteq> {..<n}" using assms ty unfolding agree_def by metis }
  { fix a assume "pkind P' ty = TAdt a"
    then show "adt_name (adt_def_of P a) = adt_name (adt_def_of P' a)" using assms ty by (simp add: agree_def) }
qed (use assms in \<open>simp_all add: agree_def\<close>)

lemma agree_kind: "agree n P P' \<Longrightarrow> ty < n \<Longrightarrow> pkind P' ty = pkind P ty"
  by (simp add: agree_def)

lemma agree_parts: "agree n P P' \<Longrightarrow> ty < n \<Longrightarrow> t \<in> set (kind_parts (pkind P ty)) \<Longrightarrow> t < n"
  by (auto simp: agree_def)

lemma agree_handle_args:
  assumes "agree n P P'" "state < n"
  shows "handle_args P' h state = handle_args P h state \<and> set (handle_args P h state) \<subseteq> {..<n}"
  using agree_kind [OF assms] agree_parts [OF assms] assms(2)
  by (cases "pkind P state") (auto simp: handle_args_def)

lemma agree_handle_arg:
  "agree n P P' \<Longrightarrow> x \<in> set (handle_args P h state) \<Longrightarrow> state < n \<Longrightarrow> x < n"
  using agree_handle_args by blast

lemma agree_display_step:
  assumes ag: "agree n P P'" and t: "t < n"
  shows "is_union P' t = is_union P t" "optional_grouped P' t = optional_grouped P t"
  using agree_kind [OF ag t] by (simp_all add: is_union_def optional_grouped_def)

lemma agree_display:
  assumes "agree n P P'" "display P ty = Some s" "ty < n"
  shows "display P' ty = Some s"
proof -
  define R where "R = (\<lambda>(Q, u) r. agree n Q P' \<longrightarrow> u < n \<longrightarrow> display P' u = Some r)"
  have "R (P, ty) s"
  proof (rule display.raw_induct [of R, OF _ assms(2)], goal_cases)
    case step: (1 f Q u r)
    show "R (Q, u) r"
      unfolding R_def prod.case
    proof (intro impI)
      assume ag: "agree n Q P'" and u: "u < n"
      have IH: "display P' t = Some s" if "f Q t = Some s" "t < n" for t s
        using step(1) [OF that(1)] that(2) ag by (simp add: R_def)
      have k: "pkind P' u = pkind Q u" and sg: "signature P' u = signature Q u"
        using ag u by (simp_all add: agree_def)
      have part: "t < n" if "t \<in> set (kind_parts (pkind Q u))" for t using agree_parts [OF ag u that] .
      have parts_in: "set (kind_parts (pkind Q u)) \<subseteq> {..<n}" using part by auto
      have names: "params (table P') = params (table Q)" "opaques P' = opaques Q"
        "\<And>a. pkind Q u = TAdt a \<Longrightarrow> adt_name (adt_def_of P' a) = adt_name (adt_def_of Q a)"
        using ag u by (simp_all add: agree_def)
      have list: "mapO (display P') ts = Some ss" if "mapO (f Q) ts = Some ss" "set ts \<subseteq> {..<n}" for ts ss
        using mapO_mono_on [OF that(1), of "display P'"] IH that(2) by blast
      show "display P' u = Some r"
      proof (cases "signature Q u")
        case None
        note body = step(2) [unfolded None option.case]
        show ?thesis
          using body part parts_in names
          unfolding display.simps [of P' u] sg None option.case k
          by (cases "pkind Q u")
            (auto simp: bind_eq_Some_conv agree_display_step [OF ag] agree_handle_args [OF ag] dest!: IH list
              dest: agree_handle_arg [OF ag] split: if_splits)
      next
        case (Some sig)
        obtain pre ps rt v ms un where sig: "sig = (pre, ps, rt, v, ms, un)" by (cases sig) auto
        have in_n: "set ps \<subseteq> {..<n}" "rt < n"
          using ag u Some sig unfolding agree_def by (metis Un_subset_iff insert_subset lessThan_iff)+
        note body = step(2) [unfolded Some sig option.case prod.case]
        have sh: "mapO (\<lambda>pm. display P' (fst pm) \<bind> (\<lambda>s. Some (if snd pm = ByValue then s else mode_keyword (snd pm) @ '' '' @ s))) (zip ps ms) = Some ss"
          if "mapO (\<lambda>pm. f Q (fst pm) \<bind> (\<lambda>s. Some (if snd pm = ByValue then s else mode_keyword (snd pm) @ '' '' @ s))) (zip ps ms) = Some ss" for ss
          using that
        proof (rule mapO_mono_on)
          fix pm s
          assume "pm \<in> set (zip ps ms)" and f: "f Q (fst pm) \<bind> (\<lambda>s. Some (if snd pm = ByValue then s else mode_keyword (snd pm) @ '' '' @ s)) = Some s"
          have "fst pm \<in> set ps"
            using \<open>pm \<in> set (zip ps ms)\<close> by (metis prod.collapse set_zip_leftD)
          then have "fst pm < n" using in_n(1) by blast
          then show "display P' (fst pm) \<bind> (\<lambda>s. Some (if snd pm = ByValue then s else mode_keyword (snd pm) @ '' '' @ s)) = Some s"
            using f by (auto simp: bind_eq_Some_conv dest!: IH)
        qed
        have el: "(case pkind P' (last ps) of TArray e \<Rightarrow> display P' e | _ \<Rightarrow> Some d) = Some e"
          if "(case pkind Q (last ps) of TArray e \<Rightarrow> f Q e | _ \<Rightarrow> Some d) = Some e" "ps \<noteq> []" for d e
        proof -
          have l: "last ps < n" using in_n(1) that(2) last_in_set by blast
          show ?thesis
            using that(1) agree_kind [OF ag l] agree_parts [OF ag l] by (cases "pkind Q (last ps)") (auto dest!: IH)
        qed
        show ?thesis
          using body in_n unfolding display.simps [of P' u] sg Some sig option.case prod.case
          by (auto simp: bind_eq_Some_conv dest!: IH sh el split: if_splits)
      qed
    qed
  qed
  then show ?thesis using assms by (simp add: R_def)
qed

lemma extends_agree:
  assumes wf: "wf_program P" and ex: "extends P P'"
  shows "agree (size_of P) P P'"
  unfolding agree_def
proof (intro conjI allI impI)
  fix ty assume ty: "ty < size_of P"
  show k: "pkind P' ty = pkind P ty" using extends_kind [OF ex ty] .
  have inst: "adt_instance (adt_def_of P' a) = adt_instance (adt_def_of P a)"
    "adt_name (adt_def_of P' a) = adt_name (adt_def_of P a)" if "pkind P ty = TAdt a" for a
    using extends_instance [OF wf ex ty that] by blast+
  have cl: "closures P' = closures P" using ex by (simp add: extends_def)
  show "signature P' ty = signature P ty"
    unfolding signature_def k cl using inst(1) by (cases "pkind P ty") simp_all
  { fix a assume "pkind P ty = TAdt a"
    then show "adt_name (adt_def_of P' a) = adt_name (adt_def_of P a)" by (rule inst(2)) }
  have "set (kind_parts (pkind P ty)) \<subseteq> set (parts P ty)"
    by (auto simp: parts_def split: ty_kind.splits)
  then show kp: "set (kind_parts (pkind P ty)) \<subseteq> {..<size_of P}" using parts_below [OF wf] by blast
  { fix pre ps r v ms u assume sig: "signature P ty = Some (pre, ps, r, v, ms, u)"
    show "set ps \<union> {r} \<subseteq> {..<size_of P}"
    proof (cases "pkind P ty")
      case (TAdt a)
      then obtain t args c where "closures P t = Some c" "ps = cparams c" "r = cresult c"
        using sig by (auto simp: signature_def split: option.splits)
      then show ?thesis using wf unfolding wf_program_def wf_generics_def by blast
    qed (use sig kp in \<open>auto simp: signature_def\<close>) }
qed (use ex in \<open>simp_all add: extends_def\<close>)

lemma extends_display:
  assumes "wf_program P" "extends P P'" "t < size_of P"
  shows "display P' t = display P t"
proof -
  note ag = extends_agree [OF assms(1,2)]
  show ?thesis
    using agree_display [OF ag _ assms(3)] agree_display [OF agree_sym [OF ag] _ assms(3)]
    by (cases "display P t"; cases "display P' t") auto
qed

lemma extends_shown_key:
  "wf_program P \<Longrightarrow> extends P P' \<Longrightarrow> t < size_of P \<Longrightarrow> shown_key P' t = shown_key P t"
  using extends_display [of P P' t] by (simp add: shown_key_def)

lemma insort_key_agree:
  "(\<And>y. y \<in> insert x (set ys) \<Longrightarrow> f y = g y) \<Longrightarrow> insort_key f x ys = insort_key g x ys"
  by (induction ys) auto

lemma sort_key_agree: "(\<And>x. x \<in> set xs \<Longrightarrow> f x = g x) \<Longrightarrow> sort_key f xs = sort_key g xs"
proof (induction xs)
  case (Cons x xs)
  then have "insort_key f x (sort_key g xs) = insort_key g x (sort_key g xs)"
    by (intro insort_key_agree) auto
  then show ?case using Cons by simp
qed simp

lemma extends_union_members:
  assumes "wf_program P" "extends P P'" "set ms \<subseteq> {..<size_of P}"
  shows "union_members P' ms = union_members P ms" "union_parts P' ms = union_parts P ms"
proof -
  have k: "pkind P' m = pkind P m" if "m \<in> set ms" for m using that assms(3) extends_kind [OF assms(2)] by auto
  then show up: "union_parts P' ms = union_parts P ms"
    unfolding union_parts_def by (intro arg_cong [where f = concat] map_cong refl) simp
  have "t < size_of P" if tin: "t \<in> set (union_parts P ms)" for t
  proof -
    obtain m where m: "m \<in> set ms" "t \<in> set (case pkind P m of TUnion inner \<Rightarrow> inner | TNever \<Rightarrow> [] | _ \<Rightarrow> [m])"
      using tin unfolding union_parts_def by auto
    then have "t = m \<or> t \<in> set (parts P m)" by (cases "pkind P m") (auto simp: parts_def)
    then show ?thesis using m(1) assms(3) parts_below [OF assms(1)] by (metis in_mono lessThan_iff)
  qed
  then have "sort_key (shown_key P') (union_parts P ms) = sort_key (shown_key P) (union_parts P ms)"
    using extends_shown_key [OF assms(1,2)] by (intro sort_key_agree) simp_all
  then show "union_members P' ms = union_members P ms" by (simp add: union_members_def up)
qed

lemma extends_normal_union:
  assumes "wf_program P" "extends P P'" "set ms \<subseteq> {..<size_of P}"
  shows "normal_union P' ms = normal_union P ms"
proof -
  have k: "pkind P' m = pkind P m" if "m \<in> set ms" for m using that assms(3) extends_kind [OF assms(2)] by auto
  show ?thesis
    using k unfolding normal_union_def extends_union_members [OF assms] is_union_def by auto
qed

subsection \<open>The operations keep a program well formed\<close>

lemma extends_parts:
  assumes "wf_program P" "extends P P'" "ty < size_of P"
  shows "parts P' ty = parts P ty"
  using extends_kind [OF assms(2,3)] extends_instance [OF assms]
  by (cases "pkind P ty") (simp_all add: parts_def args_of_def)

lemma sorted_remdups_adj_distinct: "sorted xs \<Longrightarrow> distinct (remdups_adj xs)"
  by (induction xs rule: remdups_adj.induct) (auto simp: less_le)

lemma shown_key_inj: "shown_key P a = shown_key P b \<longleftrightarrow> a = b"
  by (auto simp: shown_key_def)

lemma union_members_sorted:
  "sorted (map (shown_key P) (union_members P ms))" "distinct (union_members P ms)"
  "set (union_members P ms) = set (union_parts P ms)"
proof -
  have inj: "inj (shown_key P)" by (simp add: inj_def shown_key_inj)
  let ?s = "sort_key (shown_key P) (union_parts P ms)"
  have m: "map (shown_key P) (remdups_adj ?s) = remdups_adj (map (shown_key P) ?s)"
    using inj by (simp add: remdups_adj_map_injective)
  show "sorted (map (shown_key P) (union_members P ms))"
    unfolding union_members_def m by (intro sorted_remdups_adj sorted_sort_key)
  have "distinct (map (shown_key P) (union_members P ms))"
    unfolding union_members_def m by (intro sorted_remdups_adj_distinct sorted_sort_key)
  then show "distinct (union_members P ms)" by (simp add: distinct_map)
  show "set (union_members P ms) = set (union_parts P ms)" by (simp add: union_members_def)
qed

lemma union_members_unique:
  assumes "set (union_parts P ms) = set (union_parts P ms')"
  shows "union_members P ms = union_members P ms'"
proof -
  have inj: "inj (shown_key P)" by (simp add: inj_def shown_key_inj)
  have "distinct (map (shown_key P) (union_members P ms))" "distinct (map (shown_key P) (union_members P ms'))"
    using union_members_sorted(2) [of P ms] union_members_sorted(2) [of P ms'] inj
    by (simp_all add: distinct_map inj_on_def inj_def)
  moreover have "set (map (shown_key P) (union_members P ms)) = set (map (shown_key P) (union_members P ms'))"
    using assms by (simp add: union_members_sorted(3))
  ultimately have "map (shown_key P) (union_members P ms) = map (shown_key P) (union_members P ms')"
    using union_members_sorted(1) by (intro sorted_distinct_set_unique)
  then show ?thesis using inj by (simp add: inj_map_eq_map)
qed

lemma union_parts_plain:
  assumes "wf_program P" "t \<in> set (union_parts P ms)"
  shows "\<not> is_union P t" "pkind P t \<noteq> TNever" "set ms \<subseteq> {..<size_of P} \<Longrightarrow> t < size_of P"
proof -
  obtain m where m: "m \<in> set ms" "t \<in> set (case pkind P m of TUnion inner \<Rightarrow> inner | TNever \<Rightarrow> [] | _ \<Rightarrow> [m])"
    using assms(2) unfolding union_parts_def by auto
  have "\<not> is_union P t \<and> pkind P t \<noteq> TNever \<and> (m < size_of P \<longrightarrow> t < size_of P)"
  proof (cases "\<exists>inner. pkind P m = TUnion inner")
    case True
    then obtain inner where u: "pkind P m = TUnion inner" by blast
    then have b: "m < size_of P" using out_kind [of P m] by (cases "m < size_of P") auto
    then have "normal_union P inner" using assms(1) u by (auto simp: wf_program_def wf_kinds_def)
    moreover have "t \<in> set inner" using m(2) u by simp
    moreover from this have "t \<in> set (parts P m)" using u by (simp add: parts_def)
    ultimately show ?thesis using parts_below [OF assms(1)] unfolding normal_union_def by blast
  next
    case False
    then show ?thesis using m(2) by (cases "pkind P m") (auto simp: is_union_def)
  qed
  then show "\<not> is_union P t" "pkind P t \<noteq> TNever" "set ms \<subseteq> {..<size_of P} \<Longrightarrow> t < size_of P"
    using m(1) by auto
qed

lemma union_parts_id:
  assumes "\<And>m. m \<in> set ms \<Longrightarrow> \<not> is_union P m \<and> pkind P m \<noteq> TNever"
  shows "union_parts P ms = ms"
proof -
  have "(case pkind P m of TUnion inner \<Rightarrow> inner | TNever \<Rightarrow> [] | _ \<Rightarrow> [m]) = [m]" if "m \<in> set ms" for m
    using assms [OF that] by (cases "pkind P m") (simp_all add: is_union_def)
  then show ?thesis unfolding union_parts_def by (induction ms) simp_all
qed

lemma union_members_idem:
  assumes "wf_program P"
  shows "union_members P (union_members P ms) = union_members P ms"
proof -
  have "union_parts P (union_members P ms) = union_members P ms"
    using union_parts_plain(1,2) [OF assms] by (intro union_parts_id) (simp add: union_members_sorted(3))
  then show ?thesis by (intro union_members_unique) (simp add: union_members_sorted(3))
qed

lemma union_members_normal:
  assumes "wf_program P" "2 \<le> length (union_members P ms)"
  shows "normal_union P (union_members P ms)"
  using assms union_members_idem union_parts_plain(1,2) [OF assms(1), of _ ms]
  by (simp add: normal_union_def union_members_sorted(3))

definition grows :: "program \<Rightarrow> program \<Rightarrow> bool" where
  "grows P P' \<longleftrightarrow> wf_program P' \<and> extends P P'"

lemma grows_refl [simp]: "wf_program P \<Longrightarrow> grows P P"
  by (simp add: grows_def)

lemma grows_trans [trans]: "grows P P' \<Longrightarrow> grows P' P'' \<Longrightarrow> grows P P''"
  unfolding grows_def using extends_trans by blast

lemma grows_size: "grows P P' \<Longrightarrow> size_of P \<le> size_of P'"
  by (simp add: grows_def extends_size)

lemma grows_kind: "grows P P' \<Longrightarrow> t < size_of P \<Longrightarrow> pkind P' t = pkind P t"
  by (simp add: grows_def extends_kind)

lemma grows_wf: "grows P P' \<Longrightarrow> wf_program P'"
  by (simp add: grows_def)

lemma wf_size: "wf_program P \<Longrightarrow> 19 \<le> size_of P"
proof -
  assume "wf_program P"
  then have "take 19 (kinds (table P)) = default_kinds" by (simp add: wf_program_def wf_kinds_def)
  then have "length (take 19 (kinds (table P))) = 19" by (simp add: default_kinds_def all_int_tys_def)
  then show ?thesis by simp
qed

lemma wf_kind_in: "ty < size_of P \<Longrightarrow> pkind P ty \<in> set (kinds (table P))"
  by (simp add: kind_def)

lemma wf_generics_mono:
  assumes "wf_generics P" "size_of P \<le> size_of P'" "templates P' = templates P" "closures P' = closures P"
    "\<And>d. d \<in> set (adts (table P')) \<Longrightarrow> set (adt_types (adt_kind d)) \<subseteq> {..<size_of P'}"
  shows "wf_generics P'"
proof -
  have "{..<size_of P} \<subseteq> {..<size_of P'}" using assms(2) by auto
  note le = this
  show ?thesis
    unfolding wf_generics_def assms(3,4)
  proof (intro conjI ballI allI impI)
    show "set (adt_types (adt_kind d)) \<subseteq> {..<size_of P'}" if "d \<in> set (adts (table P'))" for d using assms(5) that .
  next
    fix t assume t: "t \<in> set (templates P)"
    show "set (tparams t) \<subseteq> {..<size_of P'}" using assms(1) t unfolding wf_generics_def by (meson le order_trans)
    fix k assume "tkind t = Some k"
    then show "set (adt_types k) \<subseteq> {..<size_of P'}" using assms(1) t unfolding wf_generics_def by (meson le order_trans)
  next
    fix t c assume "closures P t = Some c"
    then show "set (cparams c) \<union> {cresult c} \<subseteq> {..<size_of P'}" using assms(1) unfolding wf_generics_def by (meson le order_trans)
  qed
qed

lemma pintern_grows:
  assumes wf: "wf_program P" and k: "set (kind_parts k) \<subseteq> {..<size_of P}" "\<And>a. k \<noteq> TAdt a"
    "\<And>ms. k = TUnion ms \<Longrightarrow> normal_union P ms"
  shows "grows P (snd (pintern k P))" "fst (pintern k P) < size_of (snd (pintern k P))"
    "pkind (snd (pintern k P)) (fst (pintern k P)) = k" "instances (snd (pintern k P)) = instances P"
    "adts (table (snd (pintern k P))) = adts (table P)"
proof -
  let ?P = "snd (pintern k P)" let ?t = "fst (pintern k P)"
  show "pkind ?P ?t = k" by (simp add: pintern_def intern_kind)
  show "instances ?P = instances P" by (simp add: pintern_def)
  show adts: "adts (table ?P) = adts (table P)" by (simp add: pintern_def intern_def split: option.splits)
  have "grows P ?P \<and> ?t < size_of ?P"
  proof (cases "position (\<lambda>x. x = k) (kinds (table P))")
    case (Some ty)
    then have "ty < size_of P" using position_SomeD by blast
    then show ?thesis using Some wf by (simp add: pintern_def intern_def)
  next
    case None
    then have new: "k \<notin> set (kinds (table P))" by (auto simp: position_None)
    have P: "kinds (table ?P) = kinds (table P) @ [k]" "?t = size_of P"
      using None by (simp_all add: pintern_def intern_def)
    have ex: "extends P ?P"
      unfolding extends_def using P(1) adts by (auto simp: pintern_def intern_def split: option.splits)
    have at: "pkind ?P (size_of P) = k" using P(1) by (simp add: kind_def)
    have "wf_kinds ?P"
      unfolding wf_kinds_def
    proof (intro conjI allI impI)
      show "take 19 (kinds (table ?P)) = default_kinds"
        using wf wf_size [OF wf] P(1) by (simp add: wf_program_def wf_kinds_def)
      show "distinct (kinds (table ?P))" using wf new P(1) by (simp add: wf_program_def wf_kinds_def)
      fix ty assume ty: "ty < size_of ?P"
      show "set (parts ?P ty) \<subseteq> {..<ty}"
      proof (cases "ty < size_of P")
        case True
        then show ?thesis using extends_parts [OF wf ex True] parts_below [OF wf] by auto
      next
        case False
        then have "ty = size_of P" using ty P(1) by simp
        then show ?thesis using at k(1,2) by (cases k) (auto simp: parts_def)
      qed
      fix ms assume ms: "pkind ?P ty = TUnion ms"
      show "normal_union ?P ms"
      proof (cases "ty < size_of P")
        case True
        then have u: "pkind P ty = TUnion ms" using ms extends_kind [OF ex True] by simp
        then have "set ms \<subseteq> {..<size_of P}" using parts_below [OF wf, of _ ty] by (auto simp: parts_def)
        moreover have "normal_union P ms" using wf u True by (auto simp: wf_program_def wf_kinds_def)
        ultimately show ?thesis using extends_normal_union [OF wf ex] by blast
      next
        case False
        then have "ty = size_of P" using ty P(1) by simp
        then have "k = TUnion ms" using ms at by simp
        then show ?thesis using k extends_normal_union [OF wf ex] by auto
      qed
    qed
    moreover have "wf_adts ?P"
    proof -
      have "(ty < size_of ?P \<and> pkind ?P ty = TAdt a) \<longleftrightarrow> (ty < size_of P \<and> pkind P ty = TAdt a)" for ty a
      proof (cases "ty < size_of P")
        case True
        then show ?thesis using extends_kind [OF ex True] P(1) by simp
      next
        case False
        then show ?thesis using at k(2) P(1) by (cases "ty = size_of P") auto
      qed
      then have at: "ty < size_of ?P \<and> pkind ?P ty = TAdt a \<and> X \<longleftrightarrow> ty < size_of P \<and> pkind P ty = TAdt a \<and> X" for ty a X
        by blast
      have "TAdt a \<in> set (kinds (table ?P)) \<longleftrightarrow> TAdt a \<in> set (kinds (table P))" for a using k(2) P(1) by auto
      then have "wf_adts ?P = wf_adts P"
        unfolding wf_adts_def adts at by (simp add: pintern_def)
      then show ?thesis using wf by (simp add: wf_program_def)
    qed
    moreover have "wf_generics ?P"
    proof (rule wf_generics_mono [of P])
      show "wf_generics P" using wf by (simp add: wf_program_def)
      show "set (adt_types (adt_kind d)) \<subseteq> {..<size_of ?P}" if "d \<in> set (adts (table ?P))" for d
        using that wf P(1) unfolding adts wf_program_def wf_generics_def by fastforce
    qed (use P(1) in \<open>simp_all add: pintern_def\<close>)
    ultimately show ?thesis using ex P by (simp add: grows_def wf_program_def)
  qed
  then show "grows P ?P" "?t < size_of ?P" by blast+
qed

lemma wf_union:
  assumes "wf_program P" "pkind P ty = TUnion ms"
  shows "normal_union P ms" "set ms \<subseteq> {..<size_of P}"
proof -
  have "ty < size_of P" using assms(2) out_kind [of P ty] by (cases "ty < size_of P") auto
  then show "normal_union P ms" using assms by (auto simp: wf_program_def wf_kinds_def)
  show "set ms \<subseteq> {..<size_of P}" using parts_below [OF assms(1), of _ ty] assms(2) by (auto simp: parts_def)
qed


text \<open>What an operation that gives a type keeps.\<close>

definition gives_type :: "program \<Rightarrow> ty \<times> program \<Rightarrow> bool" where
  "gives_type P r \<longleftrightarrow> grows P (snd r) \<and> fst r < size_of (snd r)"

lemma gives_typeI: "grows P P' \<Longrightarrow> t < size_of P' \<Longrightarrow> gives_type P (t, P')"
  by (simp add: gives_type_def)


lemma pintern_gives:
  assumes "wf_program P" "set (kind_parts k) \<subseteq> {..<size_of P}" "\<And>a. k \<noteq> TAdt a"
    "\<And>ms. k = TUnion ms \<Longrightarrow> normal_union P ms"
  shows "gives_type P (pintern k P)"
  using pintern_grows(1,2) [OF assms] by (simp add: gives_type_def)

lemma union_ty_gives:
  assumes wf: "wf_program P" and ms: "set ms \<subseteq> {..<size_of P}"
  shows "gives_type P (union_ty ms P)"
proof -
  have flat: "set (union_members P ms) \<subseteq> {..<size_of P}"
    using union_parts_plain(3) [OF wf] ms by (auto simp: union_members_sorted(3))
  consider "union_members P ms = []" | x where "union_members P ms = [x]"
    | x y zs where "union_members P ms = x # y # zs"
    by (metis list.exhaust)
  then show ?thesis
  proof cases
    case 1
    then show ?thesis using wf wf_size [OF wf] by (simp add: union_ty_def gives_type_def NEVER_def)
  next
    case 2
    then show ?thesis using wf flat by (simp add: union_ty_def gives_type_def)
  next
    case (3 x y zs)
    then have n: "normal_union P (x # y # zs)" using union_members_normal [OF wf, of ms] by simp
    have "gives_type P (pintern (TUnion (x # y # zs)) P)"
      using wf flat n unfolding 3 by (intro pintern_gives) simp_all
    then show ?thesis by (simp add: union_ty_def 3)
  qed
qed
















subsection \<open>What mentions a parameter\<close>

lemma params_in_parts:
  assumes "wf_program P"
  shows "params_in P ty = (case pkind P ty of TParam _ \<Rightarrow> [ty] | _ \<Rightarrow> concat (map (params_in P) (parts P ty)))"
proof (cases "ty < size_of P")
  case True
  then show ?thesis
    using below_parts [OF assms True] by (cases "pkind P ty") (simp_all add: parts_def params_in.simps [of P ty])
next
  case False
  then show ?thesis using out_kind [of P ty] by (simp add: parts_def params_in.simps)
qed

text \<open>a type has parameters exactly when it mentions one: the two searches agree.\<close>

theorem has_params_finds_them: "has_params P ty \<longleftrightarrow> params_in P ty \<noteq> []"
proof (induction P ty rule: has_params.induct)
  case (1 P ty)
  have l: "list_ex (has_params P) (below ty ts) \<longleftrightarrow> concat (map (params_in P) (below ty ts)) \<noteq> []"
    if "\<And>t. t \<in> set (below ty ts) \<Longrightarrow> has_params P t \<longleftrightarrow> params_in P t \<noteq> []" for ts
    using that by (induction "below ty ts") (auto simp: list_ex_iff)
  show ?case
    by (cases "pkind P ty"; subst has_params.simps; subst params_in.simps)
      (simp_all, (subst l; use 1 in simp)+)
qed

subsection \<open>Substitution into a matched pattern\<close>

text \<open>The outer constructor of a type, with what it holds besides types.\<close>

fun head :: "ty_kind \<Rightarrow> ty_kind" where
  "head (TTuple ts) = TTuple (map (\<lambda>_. 0) ts)"
| "head (TOption t) = TOption 0"
| "head (TResult a b) = TResult 0 0"
| "head (TArray t) = TArray 0"
| "head (TDeque t) = TDeque 0"
| "head (TMap a b) = TMap 0 0"
| "head (TSet t) = TSet 0"
| "head (TUnion ts) = TUnion (map (\<lambda>_. 0) ts)"
| "head (TPointer t) = TPointer 0"
| "head (TFn ps r v ms u) = TFn (map (\<lambda>_. 0) ps) 0 v ms u"
| "head (TCFn ps r v) = TCFn (map (\<lambda>_. 0) ps) 0 v"
| "head (TCArray t n) = TCArray 0 n"
| "head (THandle h t) = THandle h 0"
| "head (TOpaque i ts) = TOpaque i (map (\<lambda>_. 0) ts)"
| "head k = k"

definition ty_head :: "program \<Rightarrow> ty \<Rightarrow> ty_kind + template_id" where
  "ty_head P p =
     (case pkind P p of
        TAdt x \<Rightarrow> (case adt_instance (adt_def_of P x) of Some (t, _) \<Rightarrow> Inr t | None \<Rightarrow> Inl (TAdt x))
      | k \<Rightarrow> Inl (head k))"

definition same_head :: "program \<Rightarrow> ty \<Rightarrow> ty \<Rightarrow> bool" where
  "same_head P p a \<longleftrightarrow> length (parts P p) = length (parts P a) \<and> (\<forall>i. pkind P p \<noteq> TParam i) \<and>
     ty_head P p = ty_head P a"

lemma pintern_known:
  assumes "wf_program P" "a < size_of P"
  shows "pintern (pkind P a) P = (a, P)"
proof -
  have "distinct (kinds (table P))" using assms(1) by (simp add: wf_program_def wf_kinds_def)
  then show ?thesis using assms(2) by (simp add: pintern_def intern_def kind_def position_nth)
qed

lemma union_ty_known:
  assumes wf: "wf_program P" and a: "a < size_of P" "pkind P a = TUnion ms"
  shows "union_ty ms P = (a, P)"
proof -
  have n: "normal_union P ms" using wf_union [OF wf a(2)] by blast
  then obtain x y zs where ms: "ms = x # y # zs"
    unfolding normal_union_def by (metis One_nat_def Suc_1 Suc_le_length_iff)
  have "union_members P ms = ms" using n by (simp add: normal_union_def)
  then show ?thesis using pintern_known [OF wf a(1)] a(2) by (simp add: union_ty_def ms)
qed

lemma instantiate_known:
  assumes wf: "wf_program P" and a: "a < size_of P" "pkind P a = TAdt x" "adt_instance (adt_def_of P x) = Some (t, args)"
  shows "instantiate (Suc n) t args P = Some (a, P)"
proof -
  have x: "x < length (adts (table P))" using wf_adt_bound [OF wf a(2)] .
  then have "instances P (t, args) = Some a"
    using wf a unfolding wf_program_def wf_adts_def adt_def_of_def by auto
  then show ?thesis by simp
qed

lemma interned_after:
  assumes g: "grows P P'" and a: "a < size_of P" "pkind P a = k"
  shows "pintern k P' = (a, P')"
  using pintern_known [OF grows_wf [OF g], of a] a grows_kind [OF g a(1)] grows_size [OF g] by simp

lemma handle_ty_known:
  assumes g: "grows P P'" and a: "a < size_of P" "pkind P a = THandle h t"
  shows "\<exists>P''. handle_ty h t P' = (a, P'') \<and> grows P P''"
proof -
  have t: "t < size_of P'"
    using parts_below [OF grows_wf [OF g], of t a] grows_kind [OF g a(1)] a(2) by (simp add: parts_def)
  let ?P = "if h = Group then snd (pintern (TOption t) P') else P'"
  have "grows P' ?P" using grows_wf [OF g] t pintern_grows(1) [OF grows_wf [OF g], of "TOption t"] by simp
  then have "grows P ?P" using grows_trans [OF g] by blast
  then show ?thesis using interned_after [OF _ a] by (simp add: handle_ty_def Let_def split del: if_split)
qed

lemma map_ty_known:
  assumes g: "grows P P'" and a: "a < size_of P" "pkind P a = TMap k v"
  shows "\<exists>P''. map_ty k v P' = (a, P'') \<and> grows P P''"
proof -
  have t: "k < size_of P'" "v < size_of P'"
    using parts_below [OF grows_wf [OF g], of _ a] grows_kind [OF g a(1)] a(2) by (simp_all add: parts_def)
  let ?Q = "snd (pintern (TTuple [k, v]) P')" let ?R = "snd (pintern (TOption v) ?Q)"
  have q: "grows P' ?Q" using pintern_grows(1) [OF grows_wf [OF g], of "TTuple [k, v]"] t by simp
  have "grows ?Q ?R"
    using pintern_grows(1) [OF grows_wf [OF q], of "TOption v"] t(2) grows_size [OF q] by simp
  then have "grows P ?R" using grows_trans [OF g] grows_trans [OF q] by blast
  then show ?thesis using interned_after [OF _ a] by (simp add: map_ty_def Let_def)
qed

lemma mapS_all:
  assumes "length xs = length ys" "wf_program Q"
    "\<And>x y Q1. (x, y) \<in> set (zip xs ys) \<Longrightarrow> grows Q Q1 \<Longrightarrow> \<exists>Q2. f x Q1 = Some (y, Q2) \<and> grows Q1 Q2"
  shows "\<exists>Q'. mapS f xs Q = Some (ys, Q') \<and> grows Q Q'"
  using assms
proof (induction xs ys arbitrary: Q rule: list_induct2)
  case (Cons x xs y ys)
  obtain Q1 where q: "f x Q = Some (y, Q1)" "grows Q Q1"
    using Cons.prems(2) [of x y Q] Cons.prems(1) by auto
  have "\<exists>Q'. mapS f xs Q1 = Some (ys, Q') \<and> grows Q1 Q'"
    by (rule Cons.IH [OF grows_wf [OF q(2)]]) (use Cons.prems(2) grows_trans [OF q(2)] in simp)
  then show ?case using q grows_trans [OF q(2)] by auto
qed simp

lemma ty_head_Inl: "ty_head P a = Inl k \<Longrightarrow> head (pkind P a) = k"
  by (cases "pkind P a") (auto simp: ty_head_def split: option.splits)

lemma head_leaf: "head j = head k \<Longrightarrow> kind_parts j = [] \<Longrightarrow> kind_parts k = [] \<Longrightarrow> j = k"
  by (cases j; cases k) simp_all

text \<open>
  One step of a substitution: when the parts of \<open>p\<close> become those of \<open>a\<close>, a type of the same
  head that the program has, \<open>p\<close> becomes \<open>a\<close>.
\<close>

lemma subst_step:
  assumes wf: "wf_program Q" and m: "m \<noteq> []" and a: "a < size_of Q" and p: "p < size_of Q" and h: "same_head Q p a"
    and adt: "\<And>x. pkind Q p = TAdt x \<Longrightarrow> adt_instance (adt_def_of Q x) = None \<Longrightarrow> p = a"
    and P: "\<And>x y Q1. (x, y) \<in> set (zip (parts Q p) (parts Q a)) \<Longrightarrow> grows Q Q1 \<Longrightarrow>
      \<exists>Q2. subst (Suc n) m x Q1 = Some (y, Q2) \<and> grows Q1 Q2"
  shows "\<exists>Q'. subst (Suc (Suc n)) m p Q = Some (a, Q') \<and> grows Q Q'"
proof -
  let ?s = "subst (Suc n) m"
  have len: "length (parts Q p) = length (parts Q a)" using h by (simp add: same_head_def)
  have many: "\<exists>Q'. mapS ?s xs Q = Some (ys, Q') \<and> grows Q Q'"
    if "length xs = length ys" "set (zip xs ys) \<subseteq> set (zip (parts Q p) (parts Q a))" for xs ys
    by (rule mapS_all [OF that(1) wf]) (use that(2) P in blast)
  have one: "\<exists>Q'. ?s x Q = Some (y, Q') \<and> grows Q Q'" if "(x, y) \<in> set (zip (parts Q p) (parts Q a))" for x y
    using P [OF that grows_refl [OF wf]] .
  have two: "\<exists>Q1 Q2. ?s x Q = Some (y, Q1) \<and> ?s x' Q1 = Some (y', Q2) \<and> grows Q Q2"
    if "(x, y) \<in> set (zip (parts Q p) (parts Q a))" "(x', y') \<in> set (zip (parts Q p) (parts Q a))" for x y x' y'
    using one [OF that(1)] P [OF that(2)] grows_trans by blast
  have known: "pintern k Q' = (a, Q')" if "grows Q Q'" "pkind Q a = k" for Q' k
    using interned_after [OF that(1) a that(2)] .
  have fn: "\<exists>Q1 Q2. mapS ?s ps Q = Some (qs, Q1) \<and> ?s r Q1 = Some (s, Q2) \<and> pintern (c qs s) Q2 = (a, Q2) \<and> grows Q Q2"
    if eq: "parts Q p = ps @ [r]" "parts Q a = qs @ [s]" "length ps = length qs" "pkind Q a = c qs s" for ps qs r s c
  proof -
    have z: "zip (parts Q p) (parts Q a) = zip ps qs @ [(r, s)]" using eq(1-3) by simp
    obtain Q1 where q: "mapS ?s ps Q = Some (qs, Q1)" "grows Q Q1" using many [of ps qs] eq(3) z by auto
    obtain Q2 where "?s r Q1 = Some (s, Q2)" "grows Q1 Q2" using P [of r s, OF _ q(2)] z by auto
    then show ?thesis using q known [OF _ eq(4)] grows_trans by blast
  qed
  have leaf: "\<exists>Q'. Some (p, Q) = Some (a, Q') \<and> grows Q Q'" if "parts Q p = []"
    "\<And>x. pkind Q p \<noteq> TAdt x"
  proof -
    have "ty_head Q p = Inl (head (pkind Q p))" using that(2) by (cases "pkind Q p") (auto simp: ty_head_def)
    then have "ty_head Q a = Inl (head (pkind Q p))" using h by (simp add: same_head_def)
    then have "head (pkind Q p) = head (pkind Q a)" using ty_head_Inl by metis
    moreover have "kind_parts (pkind Q p) = []" using that(1) by (cases "pkind Q p") (simp_all add: parts_def)
    moreover have "parts Q a = []" using len that(1) by simp
    then have "kind_parts (pkind Q a) = []" by (cases "pkind Q a") (simp_all add: parts_def)
    ultimately have "pkind Q p = pkind Q a" by (rule head_leaf)
    then have "a = p" using pintern_known [OF wf a] pintern_known [OF wf p] by auto
    then show ?thesis using wf by auto
  qed
  show ?thesis
  proof (cases "pkind Q p")
    case (TTuple ts)
    then obtain us where k: "pkind Q a = TTuple us" "length ts = length us"
      using h by (cases "pkind Q a") (auto simp: same_head_def ty_head_def parts_def split: option.splits)
    obtain Q' where "mapS ?s ts Q = Some (us, Q')" "grows Q Q'"
      using many [of ts us] TTuple k by (auto simp: parts_def)
    then show ?thesis using TTuple m known k(1) by auto
  next
    case (TAdt x)
    then obtain y where y: "pkind Q a = TAdt y" using h by (cases "pkind Q a") (auto simp: same_head_def ty_head_def split: option.splits)
    show ?thesis
    proof (cases "adt_instance (adt_def_of Q x)")
      case None
      then show ?thesis using adt TAdt m wf by auto
    next
      case (Some inst)
      obtain t xs where i: "inst = (t, xs)" by (cases inst)
      have hd: "length (args_of Q x) = length (args_of Q y)"
        using h TAdt y by (simp add: same_head_def parts_def)
      show ?thesis
      proof (cases "adt_instance (adt_def_of Q y)")
        case None
        then have False using h TAdt y Some i by (simp add: same_head_def ty_head_def)
        then show ?thesis ..
      next
        case inst': (Some inst')
        then obtain ys where i': "adt_instance (adt_def_of Q y) = Some (t, ys)"
          using h TAdt y Some i by (cases inst') (auto simp: same_head_def ty_head_def split: option.splits)
        obtain Q' where q: "mapS ?s xs Q = Some (ys, Q')" "grows Q Q'"
          using many [of xs ys] TAdt y Some i i' hd by (auto simp: parts_def args_of_def)
        have "instantiate (Suc n) t ys Q' = Some (a, Q')"
        proof (rule instantiate_known [OF grows_wf [OF q(2)]])
          show "a < size_of Q'" using a grows_size [OF q(2)] by simp
          show "pkind Q' a = TAdt y" using y grows_kind [OF q(2) a] by simp
          show "adt_instance (adt_def_of Q' y) = Some (t, ys)"
            using i' extends_instance [OF wf _ a y, of Q'] q(2) by (simp add: grows_def)
        qed
        then show ?thesis using TAdt Some i m q by auto
      qed
    qed
  next
    case (TOption t)
    then obtain u where k: "pkind Q a = TOption u"
      using h by (cases "pkind Q a") (auto simp: same_head_def ty_head_def split: option.splits)
    then show ?thesis using one [of t u] TOption m known by (auto simp: parts_def)
  next
    case (TResult r s)
    then obtain u v where k: "pkind Q a = TResult u v"
      using h by (cases "pkind Q a") (auto simp: same_head_def ty_head_def split: option.splits)
    then show ?thesis using two [of r u s v] TResult m known by (auto simp: parts_def)
  next
    case (TMap r s)
    then obtain u v where k: "pkind Q a = TMap u v"
      using h by (cases "pkind Q a") (auto simp: same_head_def ty_head_def split: option.splits)
    then show ?thesis using two [of r u s v] TMap m map_ty_known [OF _ a k] by (fastforce simp: parts_def)
  next
    case (THandle hd t)
    then obtain u where k: "pkind Q a = THandle hd u"
      using h by (cases "pkind Q a") (auto simp: same_head_def ty_head_def split: option.splits)
    then show ?thesis using one [of t u] THandle m handle_ty_known [OF _ a k] by (fastforce simp: parts_def)
  next
    case (TFn ps r v ms u)
    then obtain qs s where k: "pkind Q a = TFn qs s v ms u" "length ps = length qs"
      using h by (cases "pkind Q a") (auto simp: same_head_def ty_head_def parts_def split: option.splits)
    show ?thesis using fn [of ps r qs s "\<lambda>ps r. TFn ps r v ms u"] TFn k m by (auto simp: parts_def)
  next
    case (TCFn ps r v)
    then obtain qs s where k: "pkind Q a = TCFn qs s v" "length ps = length qs"
      using h by (cases "pkind Q a") (auto simp: same_head_def ty_head_def parts_def split: option.splits)
    show ?thesis using fn [of ps r qs s "\<lambda>ps r. TCFn ps r v"] TCFn k m by (auto simp: parts_def)
  next
    case (TOpaque j ts)
    then obtain us where k: "pkind Q a = TOpaque j us" "length ts = length us"
      using h by (cases "pkind Q a") (auto simp: same_head_def ty_head_def parts_def split: option.splits)
    obtain Q' where "mapS ?s ts Q = Some (us, Q')" "grows Q Q'"
      using many [of ts us] TOpaque k by (auto simp: parts_def)
    then show ?thesis using TOpaque m known k(1) by auto
  next
    case (TPointer t)
    then obtain u where k: "pkind Q a = TPointer u"
      using h by (cases "pkind Q a") (auto simp: same_head_def ty_head_def split: option.splits)
    then show ?thesis using one [of t u] TPointer m known by (auto simp: parts_def)
  next
    case (TDeque t)
    then obtain u where k: "pkind Q a = TDeque u"
      using h by (cases "pkind Q a") (auto simp: same_head_def ty_head_def split: option.splits)
    then show ?thesis using one [of t u] TDeque m known by (auto simp: parts_def)
  next
    case (TSet t)
    then obtain u where k: "pkind Q a = TSet u"
      using h by (cases "pkind Q a") (auto simp: same_head_def ty_head_def split: option.splits)
    then show ?thesis using one [of t u] TSet m known by (auto simp: parts_def)
  next
    case (TCArray t c)
    then obtain u where k: "pkind Q a = TCArray u c"
      using h by (cases "pkind Q a") (auto simp: same_head_def ty_head_def split: option.splits)
    then show ?thesis using one [of t u] TCArray m known by (auto simp: parts_def)
  next
    case (TParam i)
    then show ?thesis using h by (simp add: same_head_def)
  next
    case (TUnion ts)
    then obtain us where k: "pkind Q a = TUnion us" "length ts = length us"
      using h by (cases "pkind Q a") (auto simp: same_head_def ty_head_def parts_def split: option.splits)
    obtain Q' where q: "mapS ?s ts Q = Some (us, Q')" "grows Q Q'"
      using many [of ts us] TUnion k by (auto simp: parts_def)
    have "union_ty us Q' = (a, Q')"
      using union_ty_known [OF grows_wf [OF q(2)]] k(1) a grows_kind [OF q(2) a] grows_size [OF q(2)] by simp
    then show ?thesis using TUnion m q by auto
  next
    case (TArray t)
    then obtain u where k: "pkind Q a = TArray u"
      using h by (cases "pkind Q a") (auto simp: same_head_def ty_head_def split: option.splits)
    then show ?thesis using one [of t u] TArray m known by (auto simp: parts_def)
  qed (use leaf m in \<open>simp_all add: parts_def\<close>)
qed

text \<open>What a substitution makes of a type, without running it.\<close>

inductive image :: "program \<Rightarrow> subst_map \<Rightarrow> ty \<Rightarrow> ty \<Rightarrow> bool" for P m where
  bound: "pkind P p = TParam i \<Longrightarrow> map_of m p = Some a \<Longrightarrow> image P m p a"
| free: "\<forall>q \<in> set (params_in P p). map_of m q = None \<Longrightarrow> image P m p p"
| shape: "same_head P p a \<Longrightarrow> (\<And>x. pkind P p = TAdt x \<Longrightarrow> adt_instance (adt_def_of P x) = None \<Longrightarrow> p = a) \<Longrightarrow>
    list_all2 (image P m) (parts P p) (parts P a) \<Longrightarrow> image P m p a"

lemma params_in_part: "wf_program P \<Longrightarrow> t \<in> set (parts P ty) \<Longrightarrow> set (params_in P t) \<subseteq> set (params_in P ty)"
  unfolding params_in_parts [of P ty] by (cases "pkind P ty") (auto simp: parts_def)

lemma same_head_refl:
  "(\<And>i. pkind P p \<noteq> TParam i) \<Longrightarrow> same_head P p p"
  by (simp add: same_head_def)

lemma image_parts:
  assumes wf: "wf_program P" and i: "image P m p a" and np: "\<And>i. pkind P p \<noteq> TParam i"
  shows "same_head P p a \<and> (\<forall>x. pkind P p = TAdt x \<longrightarrow> adt_instance (adt_def_of P x) = None \<longrightarrow> p = a) \<and>
    list_all2 (image P m) (parts P p) (parts P a)"
  using i
proof cases
  case free
  then have "image P m t t" if "t \<in> set (parts P p)" for t
    using params_in_part [OF wf that] by (intro image.free) blast
  then have "list_all2 (image P m) (parts P p) (parts P p)" by (intro list.rel_refl_strong)
  then show ?thesis using free(1) same_head_refl [OF np] by simp
qed (use np in auto)

lemma image_subst:
  assumes wf: "wf_program P" and m: "m \<noteq> []"
  shows "image P m p a \<Longrightarrow> p < size_of P \<Longrightarrow> a < size_of P \<Longrightarrow> p < n \<Longrightarrow> grows P Q \<Longrightarrow>
    \<exists>Q'. subst (Suc n) m p Q = Some (a, Q') \<and> grows Q Q'"
proof (induction p arbitrary: a n Q rule: less_induct)
  case (less p)
  have wq: "wf_program Q" using grows_wf [OF less.prems(5)] .
  have kq: "pkind Q t = pkind P t" "parts Q t = parts P t" if "t < size_of P" for t
    using grows_kind [OF less.prems(5) that] extends_parts [OF wf _ that, of Q] less.prems(5)
    by (simp_all add: grows_def)
  show ?case
  proof (cases "\<exists>i. pkind P p = TParam i")
    case True
    then obtain i where i: "pkind P p = TParam i" by blast
    from less.prems(1) have "a = (case map_of m p of Some t \<Rightarrow> t | None \<Rightarrow> p)"
    proof cases
      case free
      then show ?thesis using i params_in.simps [of P p] by simp
    next
      case shape
      then show ?thesis using i by (simp add: same_head_def)
    qed simp
    then show ?thesis using m i kq(1) [OF less.prems(2)] wq by simp
  next
    case False
    obtain n' where n: "n = Suc n'" using less.prems(4) by (cases n) auto
    have ip: "same_head P p a" "\<And>x. pkind P p = TAdt x \<Longrightarrow> adt_instance (adt_def_of P x) = None \<Longrightarrow> p = a"
      "list_all2 (image P m) (parts P p) (parts P a)"
      using image_parts [OF wf less.prems(1)] False by blast+
    have inst: "adt_instance (adt_def_of Q x) = adt_instance (adt_def_of P x)"
      if "t < size_of P" "pkind P t = TAdt x" for t x
      using extends_instance [OF wf _ that, of Q] less.prems(5) by (simp add: grows_def)
    have hq: "ty_head Q t = ty_head P t" if "t < size_of P" for t
      using inst [OF that] kq(1) [OF that] by (cases "pkind P t") (simp_all add: ty_head_def)
    show ?thesis
      unfolding n
    proof (rule subst_step [OF wq m])
      show "a < size_of Q" "p < size_of Q" using less.prems(2,3) grows_size [OF less.prems(5)] by simp_all
      show "same_head Q p a"
        using ip(1) hq [OF less.prems(2)] hq [OF less.prems(3)]
        unfolding same_head_def kq [OF less.prems(2)] kq [OF less.prems(3)] by simp
      show "p = a" if "pkind Q p = TAdt x" "adt_instance (adt_def_of Q x) = None" for x
        using ip(2) that inst [OF less.prems(2)] kq(1) [OF less.prems(2)] by simp
      fix x y Q1
      assume z: "(x, y) \<in> set (zip (parts Q p) (parts Q a))" and g: "grows Q Q1"
      then have z: "(x, y) \<in> set (zip (parts P p) (parts P a))"
        using kq(2) [OF less.prems(2)] kq(2) [OF less.prems(3)] by simp
      have xy: "x < p" "x < size_of P" "y < size_of P"
        using parts_below [OF wf, of x p] parts_below [OF wf, of y a] set_zip_leftD [OF z] set_zip_rightD [OF z] by blast+
      have "image P m x y" using ip(3) z by (auto simp: list_all2_iff)
      then show "\<exists>Q2. subst (Suc n') m x Q1 = Some (y, Q2) \<and> grows Q1 Q2"
        using less.IH [OF xy(1) _ xy(2,3) _ grows_trans [OF less.prems(5) g]] xy(1) less.prems(4) n by simp
    qed
  qed
qed

text \<open>The checker gives a generic type and an opaque result always as many arguments.\<close>

definition same_arity :: "program \<Rightarrow> bool" where
  "same_arity P \<longleftrightarrow>
     (\<forall>a b t xs ys. instance_of P a = Some (t, xs) \<longrightarrow> instance_of P b = Some (t, ys) \<longrightarrow> length xs = length ys) \<and>
     (\<forall>a b i xs ys. pkind P a = TOpaque i xs \<longrightarrow> pkind P b = TOpaque i ys \<longrightarrow> length xs = length ys)"

lemma shape_pairs_head:
  assumes "same_arity P" and s: "shape_pairs P p a = Some pairs"
  shows "same_head P p a" "pairs = zip (parts P p) (parts P a)"
    "\<And>x. pkind P p = TAdt x \<Longrightarrow> adt_instance (adt_def_of P x) \<noteq> None"
proof -
  have "same_head P p a \<and> pairs = zip (parts P p) (parts P a) \<and>
      (\<forall>x. pkind P p = TAdt x \<longrightarrow> adt_instance (adt_def_of P x) \<noteq> None)"
  proof (cases "pkind P p")
    case (TAdt x)
    then obtain y t xs ys where "pkind P a = TAdt y" "instance_of P p = Some (t, xs)" "instance_of P a = Some (t, ys)"
      "pairs = zip xs ys"
      using s by (cases "pkind P a") (auto simp: shape_pairs_def split: option.splits if_splits)
    moreover from this have "length xs = length ys" using assms(1) unfolding same_arity_def by blast
    ultimately show ?thesis using TAdt by (auto simp: same_head_def ty_head_def instance_of_def parts_def args_of_def)
  next
    case (TOpaque i xs)
    then obtain ys where a: "pkind P a = TOpaque i ys" "pairs = zip xs ys"
      using s by (cases "pkind P a") (auto simp: shape_pairs_def split: if_splits)
    moreover have "length xs = length ys" using assms(1) TOpaque a(1) unfolding same_arity_def by blast
    ultimately show ?thesis using TOpaque by (auto simp: same_head_def ty_head_def parts_def map_replicate_const)
  qed (use s in \<open>cases "pkind P a"; auto simp: shape_pairs_def same_head_def ty_head_def parts_def map_replicate_const split: if_splits\<close>)+
  then show "same_head P p a" "pairs = zip (parts P p) (parts P a)"
    "\<And>x. pkind P p = TAdt x \<Longrightarrow> adt_instance (adt_def_of P x) \<noteq> None" by blast+
qed

lemma all_each_chain:
  assumes "all_each f pairs m = (True, m')" "fst ` set m \<subseteq> V"
    "\<And>x y m m'. (x, y) \<in> set pairs \<Longrightarrow> fst ` set m \<subseteq> V \<Longrightarrow> f x y m = (True, m') \<Longrightarrow>
      fst ` set m' \<subseteq> V \<and> map_of m \<subseteq>\<^sub>m map_of m' \<and>
      (\<forall>l. map_of m' \<subseteq>\<^sub>m map_of l \<longrightarrow> fst ` set l \<subseteq> V \<longrightarrow> R l x y)"
  shows "fst ` set m' \<subseteq> V \<and> map_of m \<subseteq>\<^sub>m map_of m' \<and>
    (\<forall>l. map_of m' \<subseteq>\<^sub>m map_of l \<longrightarrow> fst ` set l \<subseteq> V \<longrightarrow> (\<forall>(x, y) \<in> set pairs. R l x y))"
  using assms
proof (induction f pairs m rule: all_each.induct)
  case (2 f a b rest m)
  obtain m1 where f: "f a b m = (True, m1)" and r: "all_each f rest m1 = (True, m')"
    using "2.prems"(1) by (auto split: prod.splits bool.splits)
  have h: "fst ` set m1 \<subseteq> V" "map_of m \<subseteq>\<^sub>m map_of m1"
    "\<And>l. map_of m1 \<subseteq>\<^sub>m map_of l \<Longrightarrow> fst ` set l \<subseteq> V \<Longrightarrow> R l a b"
    using "2.prems"(3) [of a b m m1] "2.prems"(2) f by simp_all
  have t: "fst ` set m' \<subseteq> V \<and> map_of m1 \<subseteq>\<^sub>m map_of m' \<and>
    (\<forall>l. map_of m' \<subseteq>\<^sub>m map_of l \<longrightarrow> fst ` set l \<subseteq> V \<longrightarrow> (\<forall>(x, y) \<in> set rest. R l x y))"
    by (rule "2.IH" [OF f [symmetric] _ r h(1)]) (simp, rule "2.prems"(3), simp_all)
  then have m1: "map_of m1 \<subseteq>\<^sub>m map_of l" if "map_of m' \<subseteq>\<^sub>m map_of l" for l using that map_le_trans by blast
  have "map_of m \<subseteq>\<^sub>m map_of m'" using h(2) t map_le_trans by blast
  then show ?case using t h(3) m1 by simp
qed simp

lemma matches_image:
  assumes wf: "wf_program P" and ar: "same_arity P" and vars: "\<And>v. v \<in> set vars \<Longrightarrow> \<exists>i. pkind P v = TParam i"
  shows "matches P vars p a m = (True, m') \<Longrightarrow> fst ` set m \<subseteq> set vars \<Longrightarrow> set (params_in P a) \<inter> set vars = {} \<Longrightarrow>
    fst ` set m' \<subseteq> set vars \<and> map_of m \<subseteq>\<^sub>m map_of m' \<and>
    (\<forall>l. map_of m' \<subseteq>\<^sub>m map_of l \<longrightarrow> fst ` set l \<subseteq> set vars \<longrightarrow> image P l p a)"
proof (induction p arbitrary: a m m' rule: less_induct)
  case (less p)
  show ?case
  proof (cases "p \<in> set vars")
    case True
    obtain i where i: "pkind P p = TParam i" using vars True by blast
    have "map_of m' p = Some a \<and> map_of m \<subseteq>\<^sub>m map_of m' \<and> fst ` set m' \<subseteq> set vars"
      using less.prems(1,2) True
      by (subst (asm) matches.simps) (fastforce split: option.splits simp: map_le_def)
    then show ?thesis using image.bound [OF i] by (auto simp: map_le_def dom_def)
  next
    case False
    show ?thesis
    proof (cases "p = a")
      case True
      then have "m' = m" using less.prems(1) False by (subst (asm) matches.simps) simp
      moreover have "image P l p a" if l: "fst ` set l \<subseteq> set vars" for l
      proof -
        have "map_of l q = None" if "q \<in> set (params_in P p)" for q
          using that l less.prems(3) True by (auto simp: map_of_eq_None_iff)
        then show ?thesis using image.free [of P p l] True by blast
      qed
      ultimately show ?thesis using less.prems(2) by auto
    next
      case ne: False
      obtain pairs where s: "shape_pairs P p a = Some pairs"
        and e: "all_each (\<lambda>x y m. matches P vars x y m) (pairs_below p pairs) m = (True, m')"
        using less.prems(1) False ne by (subst (asm) matches.simps) (auto split: option.splits)
      note sh = shape_pairs_head [OF ar s]
      have b: "pairs_below p pairs = pairs"
        using parts_below [OF wf, of _ p] unfolding pairs_below_def sh(2)
        by (intro filter_True) (auto dest: set_zip_leftD)
      have "fst ` set m' \<subseteq> set vars \<and> map_of m \<subseteq>\<^sub>m map_of m' \<and>
        (\<forall>l. map_of m' \<subseteq>\<^sub>m map_of l \<longrightarrow> fst ` set l \<subseteq> set vars \<longrightarrow> (\<forall>(x, y) \<in> set pairs. image P l x y))"
      proof (rule all_each_chain [OF e [unfolded b] less.prems(2)])
        fix x y m1 m2
        assume xy: "(x, y) \<in> set pairs" and m1: "fst ` set m1 \<subseteq> set vars" "matches P vars x y m1 = (True, m2)"
        have "x < p" using parts_below [OF wf, of x p] set_zip_leftD [OF xy [unfolded sh(2)]] by blast
        moreover have "y \<in> set (parts P a)" using set_zip_rightD [OF xy [unfolded sh(2)]] .
        then have "set (params_in P y) \<inter> set vars = {}" using params_in_part [OF wf] less.prems(3) by blast
        ultimately show "fst ` set m2 \<subseteq> set vars \<and> map_of m1 \<subseteq>\<^sub>m map_of m2 \<and>
          (\<forall>l. map_of m2 \<subseteq>\<^sub>m map_of l \<longrightarrow> fst ` set l \<subseteq> set vars \<longrightarrow> image P l x y)"
          using less.IH [OF _ m1(2,1)] by simp
      qed
      note ch = this
      have im: "image P l p a" if "\<forall>(x, y) \<in> set pairs. image P l x y" for l
      proof (rule image.shape [OF sh(1)])
        have "length (parts P p) = length (parts P a)" using sh(1) by (simp add: same_head_def)
        then show "list_all2 (image P l) (parts P p) (parts P a)"
          using that unfolding sh(2) list_all2_iff by blast
        show "p = a" if "pkind P p = TAdt x" "adt_instance (adt_def_of P x) = None" for x
          using sh(3) [OF that(1)] that(2) by blast
      qed
      show ?thesis
      proof (intro conjI allI impI)
        show "fst ` set m' \<subseteq> set vars" "map_of m \<subseteq>\<^sub>m map_of m'" using ch by blast+
        fix l assume "map_of m' \<subseteq>\<^sub>m map_of l" "fst ` set l \<subseteq> set vars"
        then show "image P l p a" using ch by (intro im) simp
      qed
    qed
  qed
qed

lemma head_parts: "head j = head k \<Longrightarrow> kind_parts j = kind_parts k \<Longrightarrow> j = k"
  by (cases j; cases k) simp_all

lemma same_parts:
  assumes wf: "wf_program P" and "p < size_of P" "a < size_of P" and h: "ty_head P p = ty_head P a"
    and q: "parts P p = parts P a"
  shows "p = a"
proof (cases "ty_head P p")
  case (Inl k)
  then have "head (pkind P p) = head (pkind P a)" using h ty_head_Inl by metis
  moreover have "kind_parts (pkind P x) = parts P x" if "ty_head P x = Inl k" for x
    using that by (cases "pkind P x") (auto simp: parts_def ty_head_def args_of_def split: option.splits)
  then have "kind_parts (pkind P p) = kind_parts (pkind P a)" using Inl h q by metis
  ultimately have "pkind P p = pkind P a" by (rule head_parts)
  then have "pintern (pkind P p) P = (a, P)" using pintern_known [OF wf assms(3)] by (simp only:)
  then show ?thesis using pintern_known [OF wf assms(2)] by (simp only: prod.inject)
next
  case (Inr t)
  have inst: "\<exists>y. pkind P x = TAdt y \<and> adt_instance (adt_def_of P y) = Some (t, parts P x)" if "ty_head P x = Inr t" for x
    using that by (cases "pkind P x") (auto simp: parts_def ty_head_def args_of_def split: option.splits)
  obtain y where y: "pkind P p = TAdt y" "adt_instance (adt_def_of P y) = Some (t, parts P p)" using inst Inr by blast
  obtain z where z: "pkind P a = TAdt z" "adt_instance (adt_def_of P z) = Some (t, parts P p)"
    using inst Inr h q by metis
  have "instantiate (Suc 0) t (parts P p) P = Some (p, P)" "instantiate (Suc 0) t (parts P p) P = Some (a, P)"
    using instantiate_known [OF wf assms(2) y] instantiate_known [OF wf assms(3) z] by blast+
  then show ?thesis by (simp only: option.inject prod.inject)
qed

lemma image_nil:
  assumes wf: "wf_program P"
  shows "image P [] p a \<Longrightarrow> p < size_of P \<Longrightarrow> a < size_of P \<Longrightarrow> p = a"
proof (induction p arbitrary: a rule: less_induct)
  case (less p)
  show ?case
  proof (cases "\<exists>i. pkind P p = TParam i")
    case True
    with less.prems(1) show ?thesis by cases (auto simp: same_head_def)
  next
    case False
    then have ip: "same_head P p a" "list_all2 (image P []) (parts P p) (parts P a)"
      using image_parts [OF wf less.prems(1)] by blast+
    have "list_all2 (=) (parts P p) (parts P a)"
    proof (rule list.rel_mono_strong [OF ip(2)])
      fix x y
      assume xy: "x \<in> set (parts P p)" "y \<in> set (parts P a)" "image P [] x y"
      then have "x < p" "x < size_of P" "y < size_of P" using parts_below [OF wf] by blast+
      then show "x = y" using less.IH xy(3) by blast
    qed
    then have "parts P p = parts P a" by (simp add: list_all2_eq)
    then show ?thesis using same_parts [OF wf less.prems(2,3)] ip(1) by (simp add: same_head_def)
  qed
qed

subsection \<open>Properties\<close>


text \<open>C3: a union has one form. \<open>union\<close> gives the same type for member lists with the same members
  once nested unions are opened and \<open>Never\<close> dropped, in whatever order and however often, and the
  union it interns has just those members, each once, none of them a union or \<open>Never\<close>.\<close>

theorem union_has_one_form:
  assumes "wf_program P" "set ms \<subseteq> {..<size_of P}" "set (union_parts P ms') = set (union_parts P ms)"
  shows "union_ty ms' P = union_ty ms P \<and> fst (union_ty ms P) < size_of (snd (union_ty ms P)) \<and>
    union_members P ms \<in> {l. distinct l \<and> set l = set (union_parts P ms) \<and>
      set l \<inter> {t. is_union P t \<or> pkind P t = TNever} = {}} \<and>
    members_of (snd (union_ty ms P)) (fst (union_ty ms P)) \<in>
      (if 2 \<le> length (union_members P ms) then {Some (union_members P ms)} else UNIV)"
proof -
  have "union_members P ms' = union_members P ms" using union_members_unique [OF assms(3)] .
  then have "union_ty ms' P = union_ty ms P" by (simp add: union_ty_def)
  moreover have "fst (union_ty ms P) < size_of (snd (union_ty ms P))"
    using union_ty_gives [OF assms(1,2)] by (simp add: gives_type_def)
  moreover have "members_of (snd (union_ty ms P)) (fst (union_ty ms P)) = Some (union_members P ms)"
    if two: "2 \<le> length (union_members P ms)"
  proof -
    obtain x y zs where u: "union_members P ms = x # y # zs"
      using two by (metis One_nat_def Suc_1 Suc_le_length_iff)
    show ?thesis by (simp add: union_ty_def u members_of_def pintern_def intern_kind)
  qed
  ultimately show ?thesis
    using union_members_sorted(2,3) [of P ms] union_parts_plain(1,2) [OF assms(1), of _ ms] by auto
qed

text \<open>C1: a match is a substitution. When an implementation's pattern matches a type that does not
  mention the implementation's parameters, substituting what they were bound to into the pattern
  returns and gives that type, in a table that keeps every type.\<close>

theorem matching_substitutes:
  assumes "wf_program P" "same_arity P" "set vars \<subseteq> {v. \<exists>i. pkind P v = TParam i}"
    "p < size_of P" "a < size_of P" "set (params_in P a) \<inter> set vars = {}" "matches P vars p a [] = (True, m)"
  shows "\<exists>P'. subst (p + 2) m p P = Some (a, P') \<and> wf_program P' \<and> extends P P'"
proof -
  have v: "\<exists>i. pkind P v = TParam i" if "v \<in> set vars" for v using assms(3) that by blast
  have "fst ` set m \<subseteq> set vars \<and> map_of [] \<subseteq>\<^sub>m map_of m \<and>
      (\<forall>l. map_of m \<subseteq>\<^sub>m map_of l \<longrightarrow> fst ` set l \<subseteq> set vars \<longrightarrow> image P l p a)"
    by (rule matches_image [OF assms(1,2) v assms(7) _ assms(6)]) simp_all
  then have im: "image P m p a" by simp
  show ?thesis
  proof (cases "m = []")
    case True
    then have "p = a" using image_nil [OF assms(1)] im assms(4,5) by blast
    then show ?thesis using True assms(1) by simp
  next
    case False
    then show ?thesis
      using image_subst [OF assms(1) False im assms(4,5) _ grows_refl [OF assms(1)], of "Suc p"]
      by (auto simp: grows_def)
  qed
qed

subsection \<open>Examples\<close>

lemma wf_program_plain:
  assumes "adts (table P) = []" "instances P = Map.empty" "templates P = []" "closures P = Map.empty"
    "take 19 (kinds (table P)) = default_kinds" "distinct (kinds (table P))"
    "list_all (\<lambda>ty. list_all (\<lambda>t. t < ty) (kind_parts (pkind P ty)) \<and>
       (case pkind P ty of TUnion _ \<Rightarrow> False | TAdt _ \<Rightarrow> False | _ \<Rightarrow> True)) [0..<size_of P]"
  shows "wf_program P"
proof -
  have at: "list_all (\<lambda>t. t < ty) (kind_parts (pkind P ty)) \<and> (\<forall>ms. pkind P ty \<noteq> TUnion ms) \<and> (\<forall>a. pkind P ty \<noteq> TAdt a)"
    if "ty < size_of P" for ty
    using assms(7) that by (auto simp: list_all_iff split: ty_kind.splits)
  have "TAdt a \<notin> set (kinds (table P))" for a
  proof
    assume "TAdt a \<in> set (kinds (table P))"
    then obtain ty where "ty < size_of P" "pkind P ty = TAdt a" by (auto simp: in_set_conv_nth kind_def)
    then show False using at by blast
  qed
  moreover have "parts P ty = kind_parts (pkind P ty)" if "ty < size_of P" for ty
    using at [OF that] by (cases "pkind P ty") (auto simp: parts_def)
  ultimately show ?thesis
    using assms(1-6) at
    by (simp add: wf_program_def wf_kinds_def wf_adts_def wf_generics_def) (auto simp: list_all_iff)
qed

lemma same_arity_plain:
  assumes "list_all (\<lambda>k. case k of TOpaque _ _ \<Rightarrow> False | TAdt _ \<Rightarrow> False | _ \<Rightarrow> True) (kinds (table P))"
  shows "same_arity P"
proof -
  have "pkind P a \<noteq> TOpaque i xs \<and> pkind P a \<noteq> TAdt x" for a i xs x
    using assms by (auto simp: kind_def list_all_iff dest!: nth_mem split: ty_kind.splits)
  then show ?thesis by (auto simp: same_arity_def instance_of_def split: ty_kind.splits)
qed

text \<open>A parameter \<open>T\<close> (19), \<open>Array[T]\<close> and \<open>(T, Array[T])\<close> (21), \<open>(Int, Array[Int])\<close> (23)
  and \<open>(Int, Array[T])\<close> (24).\<close>

definition pair_program :: program where
  "pair_program = empty_program\<lparr>table := default_types\<lparr>
     kinds := default_kinds @ [TParam 0, TArray 19, TTuple [19, 20], TArray 8, TTuple [8, 22], TTuple [8, 20]],
     params := [\<lparr>param_name = ''T'', equatable = False, key = False, copy = False,
       param_send = False, param_share = False\<rparr>]\<rparr>\<rparr>"

lemma wf_pair_program: "wf_program pair_program"
proof (rule wf_program_plain)
  show "take 19 (kinds (table pair_program)) = default_kinds" by code_simp
  show "distinct (kinds (table pair_program))" by code_simp
  show "list_all (\<lambda>ty. list_all (\<lambda>t. t < ty) (kind_parts (pkind pair_program ty)) \<and>
       (case pkind pair_program ty of TUnion _ \<Rightarrow> False | TAdt _ \<Rightarrow> False | _ \<Rightarrow> True)) [0..<size_of pair_program]"
    by code_simp
qed (simp_all add: pair_program_def empty_program_def default_types_def no_types_def default_kinds_def all_int_tys_def intern_def)

lemma pair_arity: "same_arity pair_program"
  by (rule same_arity_plain) code_simp



lemma union_has_one_form_witness:
  "union_ty [4, 8, 2, 4] pair_program = union_ty [8, 4] pair_program"
proof -
  have "set [8::nat, 4] \<subseteq> {..<size_of pair_program}" by code_simp
  moreover have "set (union_parts pair_program [4, 8, 2, 4]) = set (union_parts pair_program [8, 4])" by code_simp
  ultimately show ?thesis using union_has_one_form [OF wf_pair_program] by blast
qed

lemma pair_matches: "matches pair_program [19] 21 23 [] = (True, [(19, 8)])"
  by code_simp

lemma matching_substitutes_witness:
  "\<exists>P'. subst 23 [(19, 8)] 21 pair_program = Some (23, P') \<and> wf_program P'"
proof -
  have "set [19::nat] \<subseteq> {v. \<exists>i. pkind pair_program v = TParam i}"
  proof -
    have "pkind pair_program 19 = TParam 0" by code_simp
    then show ?thesis by simp
  qed
  moreover have "(21::nat) < size_of pair_program" "(23::nat) < size_of pair_program" by code_simp+
  moreover have "set (params_in pair_program 23) \<inter> set [19] = {}" by code_simp
  ultimately show ?thesis
    using matching_substitutes [OF wf_pair_program pair_arity _ _ _ _ pair_matches] by auto
qed






end
