(* ===== verification/Sync.thy ===== *)
theory Sync
  imports Prelude "HOL-Library.Multiset"
begin

unbundle bit_operations_syntax

text \<open>
  The locks of \<open>std.sync\<close>, \<^verbatim>\<open>crates/tondo-runtime/src/sync.rs\<close>: the state word of a cell and the
  tasks that take, wait for and release it, as steps that interleave at the atomic operations of
  the code. A task's claim on its wait comes from the scheduler, \<^verbatim>\<open>tasks.rs\<close>: a cancellation may
  claim it first, whoever wakes or hands claims it otherwise. Waiting for a change of the value
  (\<open>updateWhen\<close>), the debugger's reads and the checks that record lock orders and races are left out.
\<close>

subsection \<open>The state word\<close>

type_synonym usize = "64 word"

definition WRITER :: usize where "WRITER = 1"
definition PARKED :: usize where "PARKED = 2"
definition STARVING :: usize where "STARVING = 4"
definition READER :: usize where "READER = 8"

text \<open>\<open>try_take\<close>, \<open>grant\<close> and \<open>ungrant\<close> on the word: the new state, or \<open>None\<close> when not free.\<close>

definition try_take_bits :: "bool \<Rightarrow> usize \<Rightarrow> usize option" where
  "try_take_bits exclusive state =
     (if exclusive then (if state AND NOT PARKED \<noteq> 0 then None else Some (state OR WRITER))
      else (if state AND (WRITER OR STARVING) \<noteq> 0 then None else Some (state + READER)))"

definition grant_bits :: "bool \<Rightarrow> usize \<Rightarrow> usize option" where
  "grant_bits exclusive state =
     (if exclusive then (if state AND WRITER \<noteq> 0 \<or> READER \<le> state then None else Some (state OR WRITER))
      else (if state AND WRITER \<noteq> 0 then None else Some (state + READER)))"

definition ungrant_bits :: "bool \<Rightarrow> usize \<Rightarrow> usize" where
  "ungrant_bits exclusive state = (if exclusive then state AND NOT WRITER else state - READER)"

definition sync_locked_bits :: "usize \<Rightarrow> bool" where
  "sync_locked_bits state \<longleftrightarrow> state AND (WRITER OR NOT (READER - 1)) \<noteq> 0"

text \<open>The same word by its parts.\<close>

record lock_word =
  writer :: bool
  parked :: bool
  starving :: bool
  readers :: nat

definition encode :: "lock_word \<Rightarrow> usize" where
  "encode w = of_bool (writer w) + 2 * of_bool (parked w) + 4 * of_bool (starving w) + 8 * of_nat (readers w)"

definition try_take :: "bool \<Rightarrow> lock_word \<Rightarrow> lock_word option" where
  "try_take exclusive w =
     (if exclusive
      then (if writer w \<or> starving w \<or> readers w \<noteq> 0 then None else Some (w\<lparr>writer := True\<rparr>))
      else (if writer w \<or> starving w then None else Some (w\<lparr>readers := readers w + 1\<rparr>)))"

definition grant :: "bool \<Rightarrow> lock_word \<Rightarrow> lock_word option" where
  "grant exclusive w =
     (if exclusive
      then (if writer w \<or> readers w \<noteq> 0 then None else Some (w\<lparr>writer := True\<rparr>))
      else (if writer w then None else Some (w\<lparr>readers := readers w + 1\<rparr>)))"

definition ungrant :: "bool \<Rightarrow> lock_word \<Rightarrow> lock_word" where
  "ungrant exclusive w = (if exclusive then w\<lparr>writer := False\<rparr> else w\<lparr>readers := readers w - 1\<rparr>)"

subsection \<open>Tasks and a cell\<close>

type_synonym tid = nat

datatype claim = Unclaimed | Woken | Handed | Cancelled

text \<open>
  Where a task is in the lock's code: \<open>Spinning\<close> to \<open>Waiting\<close> in \<open>taken\<close>, with whether it takes the
  lock to change the value and whether it was woken before; \<open>Removing\<close> after a cancellation;
  \<open>Releasing\<close> to \<open>Clearing\<close> in \<open>tondo_rt_sync_unlock\<close> and \<open>wake_lockers\<close>.
\<close>

datatype place =
  Outside
| Spinning bool bool | Entering bool bool | Marking bool bool | Retrying bool bool | Queueing bool bool
| Aging bool | Waiting bool | Removing
| Releasing | Waking | Handing | Granted bool | Ending | Clearing

record cell =
  state :: lock_word
  queue :: "tid option"
  waiting :: "(tid \<times> bool) list"
  fired :: "tid \<Rightarrow> claim"
  pc :: "tid \<Rightarrow> place"
  writing :: "tid multiset"
  reading :: "tid multiset"

definition free_cell :: cell where
  "free_cell = \<lparr>state = \<lparr>writer = False, parked = False, starving = False, readers = 0\<rparr>, queue = None,
     waiting = [], fired = (\<lambda>_. Unclaimed), pc = (\<lambda>_. Outside), writing = {#}, reading = {#}\<rparr>"

definition holding :: "bool \<Rightarrow> tid \<Rightarrow> cell \<Rightarrow> cell" where
  "holding exclusive t s =
     (if exclusive then s\<lparr>writing := add_mset t (writing s)\<rparr> else s\<lparr>reading := add_mset t (reading s)\<rparr>)"

definition at :: "tid \<Rightarrow> place \<Rightarrow> cell \<Rightarrow> cell" where
  "at t p s = s\<lparr>pc := (pc s)(t := p)\<rparr>"

inductive step :: "cell \<Rightarrow> cell \<Rightarrow> bool" where
  \<comment> \<open>\<open>taken\<close>; the lock is not taken again in a way that would wait for the task itself.\<close>
  start: "pc s t = Outside \<Longrightarrow> t \<notin># writing s \<Longrightarrow> \<not> exclusive \<or> t \<notin># reading s \<Longrightarrow>
    step s (at t (Spinning exclusive False) s)"
| try_only: "pc s t = Outside \<Longrightarrow> t \<notin># writing s \<Longrightarrow> t \<notin># reading s \<Longrightarrow> try_take True (state s) = Some w \<Longrightarrow>
    step s (holding True t (s\<lparr>state := w\<rparr>))"
| take: "pc s t = Spinning exclusive woken \<Longrightarrow> try_take exclusive (state s) = Some w \<Longrightarrow>
    step s (at t Outside (holding exclusive t (s\<lparr>state := w\<rparr>)))"
| give_up: "pc s t = Spinning exclusive woken \<Longrightarrow> try_take exclusive (state s) = None \<Longrightarrow>
    step s (at t (Entering exclusive woken) s)"
| enter: "pc s t = Entering exclusive woken \<Longrightarrow> queue s = None \<Longrightarrow>
    step s (at t (Marking exclusive woken) (s\<lparr>queue := Some t\<rparr>))"
| mark: "pc s t = Marking exclusive woken \<Longrightarrow>
    step s (at t (Retrying exclusive woken) (s\<lparr>state := (state s)\<lparr>parked := True\<rparr>\<rparr>))"
| retake: "pc s t = Retrying exclusive woken \<Longrightarrow> try_take exclusive (state s) = Some w \<Longrightarrow>
    step s (at t Outside (holding exclusive t (s\<lparr>state := w, queue := None\<rparr>)))"
| refuse: "pc s t = Retrying exclusive woken \<Longrightarrow> try_take exclusive (state s) = None \<Longrightarrow>
    step s (at t (Queueing exclusive woken) s)"
| push_back: "pc s t = Queueing exclusive False \<Longrightarrow>
    step s (at t (Waiting exclusive) (s\<lparr>waiting := waiting s @ [(t, exclusive)], fired := (fired s)(t := Unclaimed),
      queue := None\<rparr>))"
| push_front: "pc s t = Queueing exclusive True \<Longrightarrow>
    step s (at t (Aging exclusive) (s\<lparr>waiting := (t, exclusive) # waiting s, fired := (fired s)(t := Unclaimed)\<rparr>))"
| age: "pc s t = Aging exclusive \<Longrightarrow>
    step s (at t (Waiting exclusive) (s\<lparr>state := (state s)\<lparr>starving := starving (state s) \<or> late\<rparr>, queue := None\<rparr>))"
| cancel: "pc s t = Waiting exclusive \<Longrightarrow> fired s t = Unclaimed \<Longrightarrow>
    step s (s\<lparr>fired := (fired s)(t := Cancelled)\<rparr>)"
| cancelled: "pc s t = Waiting exclusive \<Longrightarrow> fired s t = Cancelled \<Longrightarrow> step s (at t Removing s)"
| remove: "pc s t = Removing \<Longrightarrow> queue s = None \<Longrightarrow>
    step s (at t Outside (s\<lparr>waiting := filter (\<lambda>(u, _). u \<noteq> t) (waiting s)\<rparr>))"
| handed: "pc s t = Waiting exclusive \<Longrightarrow> fired s t = Handed \<Longrightarrow> step s (at t Outside s)"
| woken: "pc s t = Waiting exclusive \<Longrightarrow> fired s t = Woken \<Longrightarrow> step s (at t (Spinning exclusive True) s)"
  \<comment> \<open>\<open>tondo_rt_sync_unlock\<close>.\<close>
| release: "pc s t = Outside \<Longrightarrow> t \<in># writing s \<Longrightarrow>
    step s (at t (if parked (state s) then Releasing else Outside)
      (s\<lparr>state := (state s)\<lparr>writer := False\<rparr>, writing := writing s - {#t#}\<rparr>))"
| release_read: "pc s t = Outside \<Longrightarrow> t \<in># reading s \<Longrightarrow>
    step s (at t (if parked (state s) then Releasing else Outside)
      (s\<lparr>state := (state s)\<lparr>readers := readers (state s) - 1\<rparr>, reading := reading s - {#t#}\<rparr>))"
| wakers: "pc s t = Releasing \<Longrightarrow> queue s = None \<Longrightarrow>
    step s (at t (if starving (state s) then Handing else Waking) (s\<lparr>queue := Some t\<rparr>))"
  \<comment> \<open>\<open>wake_lockers\<close>, without starvation.\<close>
| wake: "pc s t = Waking \<Longrightarrow> waiting s = (u, exclusive) # rest \<Longrightarrow> fired s u = Unclaimed \<Longrightarrow>
    step s (at t Clearing (s\<lparr>waiting := rest, fired := (fired s)(u := Woken)\<rparr>))"
| wake_skip: "pc s t = Waking \<Longrightarrow> waiting s = (u, exclusive) # rest \<Longrightarrow> fired s u \<noteq> Unclaimed \<Longrightarrow>
    step s (s\<lparr>waiting := rest\<rparr>)"
| wake_none: "pc s t = Waking \<Longrightarrow> waiting s = [] \<Longrightarrow> step s (at t Clearing s)"
  \<comment> \<open>\<open>wake_lockers\<close>, handing the lock over.\<close>
| hand: "pc s t = Handing \<Longrightarrow> waiting s = (u, exclusive) # rest \<Longrightarrow> grant exclusive (state s) = Some w \<Longrightarrow>
    step s (at t (Granted exclusive) (s\<lparr>state := w\<rparr>))"
| hand_stop: "pc s t = Handing \<Longrightarrow> waiting s = (u, exclusive) # rest \<Longrightarrow> grant exclusive (state s) = None \<Longrightarrow>
    step s (at t Ending s)"
| hand_none: "pc s t = Handing \<Longrightarrow> waiting s = [] \<Longrightarrow> step s (at t Ending s)"
| hand_over: "pc s t = Granted exclusive \<Longrightarrow> waiting s = (u, x) # rest \<Longrightarrow> fired s u = Unclaimed \<Longrightarrow>
    step s (at t (if exclusive then Ending else Handing)
      (holding exclusive u (s\<lparr>waiting := rest, fired := (fired s)(u := Handed)\<rparr>)))"
| hand_skip: "pc s t = Granted exclusive \<Longrightarrow> waiting s = (u, x) # rest \<Longrightarrow> fired s u \<noteq> Unclaimed \<Longrightarrow>
    step s (at t Handing (s\<lparr>state := ungrant exclusive (state s), waiting := rest\<rparr>))"
| hand_end: "pc s t = Ending \<Longrightarrow>
    step s (at t Clearing (s\<lparr>state := (state s)\<lparr>starving := starving (state s) \<and> waiting s \<noteq> []\<rparr>\<rparr>))"
| clear: "pc s t = Clearing \<Longrightarrow>
    step s (at t Outside (s\<lparr>state := (state s)\<lparr>parked := parked (state s) \<and> waiting s \<noteq> []\<rparr>, queue := None\<rparr>))"

definition reachable :: "cell \<Rightarrow> bool" where
  "reachable s \<longleftrightarrow> step\<^sup>*\<^sup>* free_cell s"

subsection \<open>Invariants\<close>

fun in_queue :: "place \<Rightarrow> bool" where
  "in_queue (Marking _ _) = True" | "in_queue (Retrying _ _) = True" | "in_queue (Queueing _ _) = True"
| "in_queue (Aging _) = True" | "in_queue Waking = True" | "in_queue Handing = True"
| "in_queue (Granted _) = True" | "in_queue Ending = True" | "in_queue Clearing = True"
| "in_queue _ = False"

definition inv_queue :: "cell \<Rightarrow> bool" where
  "inv_queue s \<longleftrightarrow> (\<forall>t. in_queue (pc s t) \<longleftrightarrow> queue s = Some t)"

text \<open>What the task in \<open>wake_lockers\<close> has taken for a waiter it has not claimed yet.\<close>

fun grant_of :: "place \<Rightarrow> bool option" where
  "grant_of (Granted exclusive) = Some exclusive"
| "grant_of _ = None"

definition granted :: "cell \<Rightarrow> bool option" where
  "granted s = Option.bind (queue s) (\<lambda>t. grant_of (pc s t))"

definition inv_word :: "cell \<Rightarrow> bool" where
  "inv_word s \<longleftrightarrow>
     of_bool (writer (state s)) = size (writing s) + (of_bool (granted s = Some True) :: nat) \<and>
     readers (state s) = size (reading s) + of_bool (granted s = Some False) \<and>
     (writer (state s) \<longrightarrow> readers (state s) = 0)"

lemma queue_at: "pc s t = p \<Longrightarrow> inv_queue s \<Longrightarrow> queue s = Some t \<longleftrightarrow> in_queue p"
  by (auto simp: inv_queue_def)

lemma inv_queue_step:
  assumes "inv_queue s" "pc s' = (pc s)(t := p)" "in_queue p \<longleftrightarrow> queue s' = Some t"
    "queue s' = queue s \<or> queue s = None \<and> queue s' = Some t \<or> queue s = Some t \<and> queue s' = None"
  shows "inv_queue s'"
proof -
  have "in_queue (pc s' u) \<longleftrightarrow> queue s' = Some u" for u
  proof (cases "u = t")
    case False
    then have "queue s' = Some u \<longleftrightarrow> queue s = Some u" using assms(4) by auto
    then show ?thesis using False assms(1,2) by (simp add: inv_queue_def)
  qed (use assms(2,3) in simp)
  then show ?thesis by (simp add: inv_queue_def)
qed

lemma inv_queue_same: "inv_queue s \<Longrightarrow> pc s' = pc s \<Longrightarrow> queue s' = queue s \<Longrightarrow> inv_queue s'"
  by (simp add: inv_queue_def)

lemma holding_simps [simp]:
  "queue (holding x t s) = queue s" "pc (holding x t s) = pc s" "state (holding x t s) = state s"
  "waiting (holding x t s) = waiting s" "fired (holding x t s) = fired s"
  by (simp_all add: holding_def)

lemma at_simps [simp]:
  "queue (at t p s) = queue s" "pc (at t p s) = (pc s)(t := p)" "state (at t p s) = state s"
  "waiting (at t p s) = waiting s" "fired (at t p s) = fired s" "writing (at t p s) = writing s"
  "reading (at t p s) = reading s"
  by (simp_all add: at_def)

lemma step_queue: "step s s' \<Longrightarrow> inv_queue s \<Longrightarrow> inv_queue s'"
proof (induction rule: step.induct)
qed (frule (1) queue_at, (erule inv_queue_step, simp, simp, simp) | (erule inv_queue_same; simp))+

lemma granted_simps [simp]:
  "granted (at t p s) = (if queue s = Some t then grant_of p else granted s)"
  "granted (holding x t s) = granted s" "granted (s\<lparr>state := w\<rparr>) = granted s"
  "granted (s\<lparr>waiting := l\<rparr>) = granted s" "granted (s\<lparr>fired := f\<rparr>) = granted s"
  "granted (s\<lparr>writing := m\<rparr>) = granted s" "granted (s\<lparr>reading := m\<rparr>) = granted s"
  "granted (s\<lparr>queue := None\<rparr>) = None" "granted (s\<lparr>queue := Some t\<rparr>) = grant_of (pc s t)"
  "queue s = None \<Longrightarrow> granted s = None" "queue s = Some t \<Longrightarrow> granted s = grant_of (pc s t)"
  by (cases "queue s") (auto simp: granted_def)

text \<open>A task waits in the queue exactly until its wait is claimed, or it takes itself out.\<close>

fun task_ok :: "place \<Rightarrow> claim \<Rightarrow> bool option \<Rightarrow> bool" where
  "task_ok (Aging x) f e \<longleftrightarrow> f = Unclaimed \<and> e = Some x"
| "task_ok (Waiting x) f e \<longleftrightarrow> e = Some x \<and> (f = Unclaimed \<or> f = Cancelled) \<or> e = None \<and> f \<noteq> Unclaimed"
| "task_ok Removing f e \<longleftrightarrow> f = Cancelled"
| "task_ok _ f e \<longleftrightarrow> e = None"

definition inv_waiting :: "cell \<Rightarrow> bool" where
  "inv_waiting s \<longleftrightarrow> distinct (map fst (waiting s)) \<and>
     (\<forall>u. task_ok (pc s u) (fired s u) (map_of (waiting s) u)) \<and>
     (\<forall>x. granted s = Some x \<longrightarrow> (\<exists>u rest. waiting s = (u, x) # rest))"

lemma ok_at: "pc s t = p \<Longrightarrow> inv_waiting s \<Longrightarrow> task_ok p (fired s t) (map_of (waiting s) t)"
  by (auto simp: inv_waiting_def)

lemma ok_queued: "task_ok p f (Some x) \<Longrightarrow> f = Unclaimed \<and> (p = Aging x \<or> p = Waiting x) \<or> f = Cancelled \<and> (p = Waiting x \<or> p = Removing)"
  by (cases p) auto

lemma ok_head:
  assumes "waiting s = (u, x) # rest" "inv_waiting s" "inv_queue s" "queue s = Some t" "pc s t = p" "\<forall>x. p \<noteq> Aging x"
  shows "fired s u = Unclaimed \<and> pc s u = Waiting x \<or> fired s u = Cancelled \<and> (pc s u = Waiting x \<or> pc s u = Removing)"
    "map_of rest u = None"
proof -
  have "task_ok (pc s u) (fired s u) (map_of (waiting s) u)" using assms(2) by (simp add: inv_waiting_def)
  then have "task_ok (pc s u) (fired s u) (Some x)" using assms(1) by simp
  moreover have "pc s u \<noteq> Aging x" using assms(3-6) by (metis in_queue.simps(4) inv_queue_def option.inject)
  ultimately show "fired s u = Unclaimed \<and> pc s u = Waiting x \<or> fired s u = Cancelled \<and> (pc s u = Waiting x \<or> pc s u = Removing)"
    using ok_queued by blast
  show "map_of rest u = None" using assms(1,2) by (simp add: inv_waiting_def map_of_eq_None_iff)
qed

lemma ok_rest: "waiting s = (u, x) # rest \<Longrightarrow> inv_waiting s \<Longrightarrow> v \<noteq> u \<Longrightarrow> task_ok (pc s v) (fired s v) (map_of rest v)"
  by (auto simp: inv_waiting_def dest: spec [of _ v])

lemma map_of_push: "map_of l t = None \<Longrightarrow> map_of (l @ [(t, x)]) = (map_of l)(t \<mapsto> x)"
  by (induction l) (auto simp: fun_eq_iff)

lemma inv_waiting_pop:
  assumes "pc s t = p" "waiting s = (u, x) # rest" "inv_waiting s" "inv_queue s" "in_queue p" "\<forall>x. p \<noteq> Aging x"
    "waiting s' = rest" "pc s' = (pc s)(t := q)" "fired s' = (fired s)(u := c)"
    "\<And>e. task_ok p (fired s t) e \<longleftrightarrow> e = None" "\<And>e. task_ok q (fired s t) e \<longleftrightarrow> e = None"
    "if fired s u = Unclaimed then c \<noteq> Unclaimed else c = fired s u" "granted s' = None"
  shows "inv_waiting s'"
proof -
  have q: "queue s = Some t" using assms(1,4,5) by (auto simp: inv_queue_def)
  note u = ok_head [OF assms(2-4) q assms(1,6)]
  have t: "map_of (waiting s) t = None" using ok_at [OF assms(1,3)] assms(10) by blast
  then have "t \<noteq> u" using assms(2) by auto
  then have "map_of rest t = None" using t assms(2) by simp
  have "task_ok (pc s' v) (fired s' v) (map_of (waiting s') v)" for v
  proof -
    consider "v = u" | "v = t" | "v \<noteq> u" "v \<noteq> t" by blast
    then show ?thesis
    proof cases
      case 1
      have "fired s' v = c" "pc s' v = pc s u" "map_of (waiting s') v = None"
        using 1 \<open>t \<noteq> u\<close> u(2) assms(7-9) by simp_all
      then show ?thesis using u(1) assms(12) by (auto split: if_splits)
    next
      case 2
      then show ?thesis using \<open>t \<noteq> u\<close> \<open>map_of rest t = None\<close> assms(7-9,11) by simp
    next
      case 3
      then show ?thesis using ok_rest [OF assms(2,3)] assms(7-9) by simp
    qed
  qed
  moreover have "distinct (map fst rest)" using assms(2,3) by (simp add: inv_waiting_def)
  ultimately show ?thesis using assms(7,13) by (simp add: inv_waiting_def)
qed

lemma map_of_without [simp]: "map_of (filter (\<lambda>(u, _). u \<noteq> t) l) = (map_of l)(t := None)"
  by (induction l) auto

lemma distinct_without [simp]: "distinct (map fst l) \<Longrightarrow> distinct (map fst (filter P l))"
  by (simp add: distinct_map_filter)

lemma step_waiting: "step s s' \<Longrightarrow> inv_queue s \<Longrightarrow> inv_waiting s \<Longrightarrow> inv_waiting s'"
proof (induction rule: step.induct)
  case (wake s t u exclusive rest)
  then show ?case
    by - (frule (1) queue_at, rule inv_waiting_pop [where p = Waking and q = Clearing and c = Woken], auto)
next
  case (wake_skip s t u exclusive rest)
  then show ?case
    by - (frule (1) queue_at, rule inv_waiting_pop [where p = Waking and q = Waking and c = "fired s u"], auto)
next
  case (hand_over s t exclusive u x rest)
  then show ?case
    by - (frule (1) queue_at, rule inv_waiting_pop [where p = "Granted exclusive" and c = Handed
      and q = "if exclusive then Ending else Handing"], auto)
next
  case (hand_skip s t exclusive u x rest)
  then show ?case
    by - (frule (1) queue_at, rule inv_waiting_pop [where p = "Granted exclusive" and q = Handing and c = "fired s u"], auto)
qed (frule (1) queue_at, frule (1) ok_at;
  (auto simp: inv_waiting_def map_of_push simp del: map_of_append split: if_splits; fail))+

lemma step_word: "step s s' \<Longrightarrow> inv_queue s \<Longrightarrow> inv_word s \<Longrightarrow> inv_word s'"
proof (induction rule: step.induct)
  case (release s t)
  then show ?case
    by - (frule (1) queue_at, auto simp: inv_word_def of_bool_def dest!: multi_member_split split: if_splits)
next
  case (hand_skip s t exclusive u x rest)
  then show ?case
    by - (frule (1) queue_at, auto simp: inv_word_def ungrant_def of_bool_def split: if_splits)
qed (frule (1) queue_at; (auto simp: inv_word_def holding_def try_take_def grant_def
  dest!: multi_member_split split: if_splits; fail))+

text \<open>What the holder of the queue's lock knows of the state word.\<close>

fun place_ok :: "place \<Rightarrow> lock_word \<Rightarrow> bool \<Rightarrow> bool" where
  "place_ok (Retrying _ _) w e \<longleftrightarrow> parked w" | "place_ok (Queueing _ _) w e \<longleftrightarrow> parked w"
| "place_ok (Aging _) w e \<longleftrightarrow> parked w" | "place_ok Waking w e \<longleftrightarrow> \<not> starving w"
| "place_ok Clearing w e \<longleftrightarrow> starving w \<longrightarrow> \<not> e" | "place_ok _ w e \<longleftrightarrow> True"

definition inv_bits :: "cell \<Rightarrow> bool" where
  "inv_bits s \<longleftrightarrow> (waiting s \<noteq> [] \<longrightarrow> parked (state s)) \<and> (starving (state s) \<longrightarrow> parked (state s)) \<and>
     (\<forall>t. queue s = Some t \<longrightarrow> place_ok (pc s t) (state s) (waiting s = []))"

lemma place_ok_simps [simp]:
  "place_ok p (w\<lparr>writer := b\<rparr>) e = place_ok p w e" "place_ok p (w\<lparr>readers := n\<rparr>) e = place_ok p w e"
  by (cases p; simp)+

lemma step_bits: "step s s' \<Longrightarrow> inv_queue s \<Longrightarrow> inv_bits s \<Longrightarrow> inv_bits s'"
proof (induction rule: step.induct)
qed (frule (1) queue_at; (auto simp: inv_bits_def try_take_def grant_def ungrant_def split: if_splits; fail))+

text \<open>A task that will wake the next waiter; one that was woken and has not taken the lock yet.\<close>

fun pushing :: "place \<Rightarrow> bool" where
  "pushing Releasing = True" | "pushing Waking = True" | "pushing Handing = True" | "pushing _ = False"

fun hurrying :: "place \<Rightarrow> claim \<Rightarrow> bool" where
  "hurrying (Spinning _ w) _ = w" | "hurrying (Entering _ w) _ = w" | "hurrying (Marking _ w) _ = w"
| "hurrying (Retrying _ w) _ = w" | "hurrying (Waiting _) c = (c = Woken)" | "hurrying _ _ = False"

definition strong :: "cell \<Rightarrow> bool" where
  "strong s \<longleftrightarrow> writer (state s) \<or> readers (state s) \<noteq> 0 \<or> (\<exists>t. pushing (pc s t))"

definition weak :: "cell \<Rightarrow> bool" where
  "weak s \<longleftrightarrow> (\<exists>t. hurrying (pc s t) (fired s t))"

fun relies :: "place \<Rightarrow> bool \<Rightarrow> bool" where
  "relies (Queueing _ _) e = True" | "relies (Aging _) e = True" | "relies Ending e = (\<not> e)" | "relies _ e = False"

definition inv_active :: "cell \<Rightarrow> bool" where
  "inv_active s \<longleftrightarrow>
     (starving (state s) \<longrightarrow> strong s \<or> (\<exists>t. queue s = Some t \<and> pc s t = Ending \<and> waiting s = [])) \<and>
     (\<forall>t. queue s = Some t \<and> relies (pc s t) (waiting s = []) \<longrightarrow> strong s) \<and>
     (\<forall>u. u \<in> fst ` set (waiting s) \<and> fired s u = Unclaimed \<longrightarrow> strong s \<or> weak s)"

definition others_push :: "tid \<Rightarrow> cell \<Rightarrow> bool" where
  "others_push t s \<longleftrightarrow> (\<exists>u. u \<noteq> t \<and> pushing (pc s u))"

definition others_hurry :: "tid \<Rightarrow> cell \<Rightarrow> bool" where
  "others_hurry t s \<longleftrightarrow> (\<exists>u. u \<noteq> t \<and> hurrying (pc s u) (fired s u))"

lemma strong_at: "strong s \<longleftrightarrow> writer (state s) \<or> readers (state s) \<noteq> 0 \<or> pushing (pc s t) \<or> others_push t s"
  unfolding strong_def others_push_def by auto

lemma weak_at: "weak s \<longleftrightarrow> hurrying (pc s t) (fired s t) \<or> others_hurry t s"
  unfolding weak_def others_hurry_def by auto

lemma active_at [simp]:
  "strong (at t p s) \<longleftrightarrow> writer (state s) \<or> readers (state s) \<noteq> 0 \<or> pushing p \<or> others_push t s"
  "weak (at t p s) \<longleftrightarrow> hurrying p (fired s t) \<or> others_hurry t s"
  unfolding strong_def weak_def others_push_def others_hurry_def by auto

lemma active_here:
  "pc s t = p \<Longrightarrow> (strong s \<longleftrightarrow> writer (state s) \<or> readers (state s) \<noteq> 0 \<or> pushing p \<or> others_push t s) \<and>
    (weak s \<longleftrightarrow> hurrying p (fired s t) \<or> others_hurry t s)"
  using strong_at [of s t] weak_at [of s t] by simp

lemma others_simps [simp]:
  "others_push t (at t p s) = others_push t s" "others_push t (holding y u s) = others_push t s"
  "others_push t (s\<lparr>state := w\<rparr>) = others_push t s" "others_push t (s\<lparr>queue := x\<rparr>) = others_push t s"
  "others_push t (s\<lparr>waiting := l\<rparr>) = others_push t s" "others_push t (s\<lparr>fired := f\<rparr>) = others_push t s"
  "others_push t (s\<lparr>writing := m\<rparr>) = others_push t s" "others_push t (s\<lparr>reading := m\<rparr>) = others_push t s"
  "others_hurry t (at t p s) = others_hurry t s" "others_hurry t (holding y u s) = others_hurry t s"
  "others_hurry t (s\<lparr>state := w\<rparr>) = others_hurry t s" "others_hurry t (s\<lparr>queue := x\<rparr>) = others_hurry t s"
  "others_hurry t (s\<lparr>waiting := l\<rparr>) = others_hurry t s" "others_hurry t (s\<lparr>fired := (fired s)(t := c)\<rparr>) = others_hurry t s"
  "others_hurry t (s\<lparr>waiting := l, fired := (fired s)(t := c)\<rparr>) = others_hurry t s"
  "others_hurry t (s\<lparr>writing := m\<rparr>) = others_hurry t s" "others_hurry t (s\<lparr>reading := m\<rparr>) = others_hurry t s"
  by (auto simp: others_push_def others_hurry_def)

lemma weak_now: "pc s' t = p \<Longrightarrow> hurrying p (fired s' t) \<Longrightarrow> weak s'"
  unfolding weak_def by metis

lemma unparked:
  assumes "inv_bits s" "\<not> parked (state s)"
  shows "waiting s = [] \<and> \<not> starving (state s) \<and> (queue s = Some t \<longrightarrow> \<not> relies (pc s t) True)"
  using assms unfolding inv_bits_def by (cases "pc s t") auto

definition inv :: "cell \<Rightarrow> bool" where
  "inv s \<longleftrightarrow> inv_queue s \<and> inv_word s \<and> inv_waiting s \<and> inv_bits s \<and> inv_active s"

lemma step_active: "step s s' \<Longrightarrow> inv_queue s \<Longrightarrow> inv_word s \<Longrightarrow> inv_waiting s \<Longrightarrow> inv_bits s \<Longrightarrow> inv_active s \<Longrightarrow> inv_active s'"
proof (induction rule: step.induct)
  case (remove s t)
  then show ?case
    by (force simp: inv_active_def strong_at [where t = t] weak_at [where t = t])
next
  case (release s t)
  then have "queue s \<noteq> Some t" using queue_at [of s t Outside] by simp
  then show ?case using release unparked [of s]
    by (cases "parked (state s)") (auto simp: inv_active_def strong_at [where t = t])
next
  case (release_read s t)
  then have "queue s \<noteq> Some t" using queue_at [of s t Outside] by simp
  then show ?case using release_read unparked [of s]
    by (cases "parked (state s)") (auto simp: inv_active_def strong_at [where t = t])
next
  case (wake s t u exclusive rest)
  then have q: "queue s = Some t" using queue_at [of s t Waking] by simp
  then have "\<not> starving (state s)" "pc s u = Waiting exclusive"
    using wake ok_head(1) [OF wake(2) _ _ q wake(1)] by (auto simp: inv_bits_def)
  then have "weak (at t Clearing (s\<lparr>waiting := rest, fired := (fired s)(u := Woken)\<rparr>))"
    using wake(1) by (intro weak_now [of _ u "Waiting exclusive"]) auto
  then show ?case using q \<open>\<not> starving (state s)\<close> by (simp add: inv_active_def)
next
  case (wake_none s t)
  then have q: "queue s = Some t" using queue_at [of s t Waking] by simp
  then have "\<not> starving (state s)" using wake_none by (auto simp: inv_bits_def)
  then show ?case using wake_none q by (auto simp: inv_active_def)
next
  case (hand_over s t exclusive u x rest)
  then have q: "queue s = Some t" using queue_at [of s t "Granted exclusive"] by simp
  then have "granted s = Some exclusive" using hand_over(1) by simp
  then have "exclusive \<Longrightarrow> writer (state s)" using hand_over(5) by (cases "writer (state s)") (auto simp: inv_word_def)
  then have "strong (at t (if exclusive then Ending else Handing)
      (holding exclusive u (s\<lparr>waiting := rest, fired := (fired s)(u := Handed)\<rparr>)))"
    by (simp add: strong_at [where t = t])
  then show ?case by (simp add: inv_active_def)
next
  case (try_only s t w)
  then have "writer w" by (auto simp: try_take_def split: if_splits)
  then show ?case by (simp add: inv_active_def strong_def)
next
  case (cancel s t exclusive)
  then show ?case
    by (auto simp: inv_active_def strong_at [where t = t] weak_at [where t = t] split: if_splits)
next
  case (wake_skip s t u exclusive rest)
  then show ?case using queue_at [of s t Waking]
    by (auto simp: inv_active_def strong_at [where t = t])
qed (frule (1) queue_at, frule active_here; (auto simp: inv_active_def try_take_def grant_def ungrant_def split: if_splits; fail))+

lemma reachable_inv: "reachable s \<Longrightarrow> inv s"
  unfolding reachable_def
proof (induction rule: rtranclp_induct)
  case base
  show ?case by (simp add: free_cell_def inv_def inv_queue_def inv_word_def inv_waiting_def inv_bits_def inv_active_def granted_def)
next
  case (step s s')
  then show ?case
    using step_queue step_word step_waiting step_bits step_active unfolding inv_def by blast
qed

subsection \<open>Properties\<close>

text \<open>C9: Whatever the tasks do and in whichever order, at most one task holds the lock to change the
  value, and then none holds it to read.\<close>

theorem lock_is_exclusive:
  assumes "reachable s"
  shows "size (writing s) \<le> 1 \<and> (writing s = {#} \<or> reading s = {#})"
  using reachable_inv [OF assms] by (cases "writer (state s)") (auto simp: inv_def inv_word_def)

lemma reach_more: "reachable s \<Longrightarrow> step s s' \<Longrightarrow> reachable s'"
  by (simp add: reachable_def)

lemma grant_of_Some: "grant_of p = Some x \<Longrightarrow> p = Granted x"
  by (cases p) auto

text \<open>C10: No wakeup is lost: while a task waits for the lock and nobody has claimed its wait, some task
  holds the lock, is letting it go or handing it over, or was woken and is about to try again.\<close>

theorem no_wakeup_lost:
  assumes "reachable s" "pc s t = Waiting x" "fired s t = Unclaimed"
  shows "\<exists>u. u \<in># writing s \<or> u \<in># reading s \<or> (\<exists>y. pc s u = Granted y) \<or> pushing (pc s u) \<or> hurrying (pc s u) (fired s u)"
proof -
  have i: "inv_word s" "inv_waiting s" "inv_active s" using reachable_inv [OF assms(1)] by (auto simp: inv_def)
  then have "map_of (waiting s) t = Some x" using ok_at [OF assms(2)] assms(3) by auto
  then have "strong s \<or> weak s" using i(3) assms(3) unfolding inv_active_def by (force dest: map_of_SomeD)
  moreover have "\<exists>u y. u \<in># writing s \<or> u \<in># reading s \<or> pc s u = Granted y" if "writer (state s) \<or> readers (state s) \<noteq> 0"
  proof (cases "granted s")
    case None
    then have "writing s \<noteq> {#} \<or> reading s \<noteq> {#}" using i(1) that by (auto simp: inv_word_def)
    then show ?thesis using multiset_nonemptyE by metis
  next
    case (Some y)
    then show ?thesis using grant_of_Some unfolding granted_def by (cases "queue s") auto
  qed
  ultimately show ?thesis unfolding strong_def weak_def by blast
qed

text \<open>A task that waits for a lock only it holds, and that nothing but its own cancellation ends.\<close>

definition deadlocked :: "tid \<Rightarrow> cell \<Rightarrow> bool" where
  "deadlocked t s \<longleftrightarrow> (\<forall>s'. (\<lambda>a b. step a b \<and> fired b t \<noteq> Cancelled)\<^sup>*\<^sup>* s s' \<longrightarrow>
     (\<exists>x. pc s' t = Waiting x) \<and> writing s' + reading s' = {#t#})"

fun calm :: "place \<Rightarrow> claim \<Rightarrow> bool" where
  "calm Outside f = True" | "calm (Spinning _ _) f = True" | "calm (Entering _ _) f = True" | "calm (Marking _ _) f = True"
| "calm (Retrying _ _) f = True" | "calm (Queueing _ _) f = True" | "calm (Aging _) f = (f \<noteq> Woken \<and> f \<noteq> Handed)"
| "calm (Waiting _) f = (f \<noteq> Woken \<and> f \<noteq> Handed)" | "calm Removing f = True" | "calm _ f = False"

definition stuck :: "tid \<Rightarrow> cell \<Rightarrow> bool" where
  "stuck t s \<longleftrightarrow> starving (state s) \<and> \<not> writer (state s) \<and> readers (state s) = 1 \<and> writing s = {#} \<and>
     reading s = {#t#} \<and> pc s t = Waiting False \<and> fired s t = Unclaimed \<and> (\<forall>u. calm (pc s u) (fired s u))"

lemma calm_at: "stuck t s \<Longrightarrow> pc s u = p \<Longrightarrow> calm p (fired s u)"
  by (auto simp: stuck_def)

lemma stuck_step: "step s s' \<Longrightarrow> fired s' z \<noteq> Cancelled \<Longrightarrow> stuck z s \<Longrightarrow> stuck z s'"
proof (induction rule: step.induct)
qed (frule (1) calm_at; (auto simp: stuck_def holding_def try_take_def grant_def split: if_splits; fail))+

lemma stuck_deadlocked: "stuck t s \<Longrightarrow> deadlocked t s"
proof -
  assume "stuck t s"
  have "(\<lambda>a b. step a b \<and> fired b t \<noteq> Cancelled)\<^sup>*\<^sup>* s s' \<Longrightarrow> stuck t s'" for s'
    by (induction rule: rtranclp_induct) (use \<open>stuck t s\<close> stuck_step in auto)
  then show ?thesis by (auto simp: deadlocked_def stuck_def)
qed

text \<open>
  Task 2 changes the value while task 1 waits to; task 0 reads it next, and starves task 1, which
  was woken too late; then task 0 reads it again.\<close>

definition cfg :: "bool \<Rightarrow> bool \<Rightarrow> bool \<Rightarrow> nat \<Rightarrow> tid option \<Rightarrow> (tid \<times> bool) list \<Rightarrow> claim \<Rightarrow> place \<Rightarrow> place \<Rightarrow> place \<Rightarrow>
    tid multiset \<Rightarrow> tid multiset \<Rightarrow> cell" where
  "cfg w p v r q l f a b c wr rd = \<lparr>state = \<lparr>writer = w, parked = p, starving = v, readers = r\<rparr>, queue = q, waiting = l,
     fired = (\<lambda>_. Unclaimed)(1 := f), pc = (\<lambda>_. Outside)(0 := a, 1 := b, 2 := c), writing = wr, reading = rd\<rparr>"

lemma reach_by: "reachable s \<Longrightarrow> step s s1 \<Longrightarrow> s1 = s' \<Longrightarrow> reachable s'"
  using reach_more by blast

lemmas cfg_simps = cfg_def at_def holding_def try_take_def fun_eq_iff

lemma first_wakeup: "reachable (cfg False False False 0 None [] Woken Outside (Waiting True) Outside {#} {#})"
proof -
  have "cfg False False False 0 None [] Unclaimed Outside Outside Outside {#} {#} = free_cell" by (simp add: cfg_simps free_cell_def)
  then have "reachable (cfg False False False 0 None [] Unclaimed Outside Outside Outside {#} {#})" by (simp add: reachable_def)
  then have "reachable (cfg True False False 0 None [] Unclaimed Outside Outside Outside {#2#} {#})" by (rule reach_by [OF _ step.try_only [where t = 2 and w = "\<lparr>writer = True, parked = False, starving = False, readers = 0\<rparr>"]]) (auto simp: cfg_simps)
  then have "reachable (cfg True False False 0 None [] Unclaimed Outside (Spinning True False) Outside {#2#} {#})" by (rule reach_by [OF _ step.start [where t = 1 and exclusive = True]]) (auto simp: cfg_simps)
  then have "reachable (cfg True False False 0 None [] Unclaimed Outside (Entering True False) Outside {#2#} {#})" by (rule reach_by [OF _ step.give_up [where t = 1]]) (auto simp: cfg_simps)
  then have "reachable (cfg True False False 0 (Some 1) [] Unclaimed Outside (Marking True False) Outside {#2#} {#})" by (rule reach_by [OF _ step.enter [where t = 1]]) (auto simp: cfg_simps)
  then have "reachable (cfg True True False 0 (Some 1) [] Unclaimed Outside (Retrying True False) Outside {#2#} {#})" by (rule reach_by [OF _ step.mark [where t = 1]]) (auto simp: cfg_simps)
  then have "reachable (cfg True True False 0 (Some 1) [] Unclaimed Outside (Queueing True False) Outside {#2#} {#})" by (rule reach_by [OF _ step.refuse [where t = 1]]) (auto simp: cfg_simps)
  then have "reachable (cfg True True False 0 None [(1, True)] Unclaimed Outside (Waiting True) Outside {#2#} {#})" by (rule reach_by [OF _ step.push_back [where t = 1]]) (auto simp: cfg_simps)
  then have "reachable (cfg False True False 0 None [(1, True)] Unclaimed Outside (Waiting True) Releasing {#} {#})" by (rule reach_by [OF _ step.release [where t = 2]]) (auto simp: cfg_simps)
  then have "reachable (cfg False True False 0 (Some 2) [(1, True)] Unclaimed Outside (Waiting True) Waking {#} {#})" by (rule reach_by [OF _ step.wakers [where t = 2]]) (auto simp: cfg_simps)
  then have "reachable (cfg False True False 0 (Some 2) [] Woken Outside (Waiting True) Clearing {#} {#})" by (rule reach_by [OF _ step.wake [where t = 2]]) (auto simp: cfg_simps)
  then show ?thesis by (rule reach_by [OF _ step.clear [where t = 2]]) (auto simp: cfg_simps)
qed

definition nested_read :: cell where
  "nested_read = cfg False True True 1 None [(1, True), (0, False)] Unclaimed (Waiting False) (Waiting True) Outside {#} {#0#}"

lemma nested_read_reached: "reachable nested_read"
proof -
  have "reachable (cfg False False False 0 None [] Woken (Spinning False False) (Waiting True) Outside {#} {#})"
    by (rule reach_by [OF first_wakeup step.start [where t = 0 and exclusive = False]]) (auto simp: cfg_simps)
  then have "reachable (cfg False False False 1 None [] Woken Outside (Waiting True) Outside {#} {#0#})" by (rule reach_by [OF _ step.take [where t = 0 and w = "\<lparr>writer = False, parked = False, starving = False, readers = 1\<rparr>"]]) (auto simp: cfg_simps)
  then have "reachable (cfg False False False 1 None [] Woken Outside (Spinning True True) Outside {#} {#0#})" by (rule reach_by [OF _ step.woken [where t = 1]]) (auto simp: cfg_simps)
  then have "reachable (cfg False False False 1 None [] Woken Outside (Entering True True) Outside {#} {#0#})" by (rule reach_by [OF _ step.give_up [where t = 1]]) (auto simp: cfg_simps)
  then have "reachable (cfg False False False 1 (Some 1) [] Woken Outside (Marking True True) Outside {#} {#0#})" by (rule reach_by [OF _ step.enter [where t = 1]]) (auto simp: cfg_simps)
  then have "reachable (cfg False True False 1 (Some 1) [] Woken Outside (Retrying True True) Outside {#} {#0#})" by (rule reach_by [OF _ step.mark [where t = 1]]) (auto simp: cfg_simps)
  then have "reachable (cfg False True False 1 (Some 1) [] Woken Outside (Queueing True True) Outside {#} {#0#})" by (rule reach_by [OF _ step.refuse [where t = 1]]) (auto simp: cfg_simps)
  then have "reachable (cfg False True False 1 (Some 1) [(1, True)] Unclaimed Outside (Aging True) Outside {#} {#0#})" by (rule reach_by [OF _ step.push_front [where t = 1]]) (auto simp: cfg_simps)
  then have "reachable (cfg False True True 1 None [(1, True)] Unclaimed Outside (Waiting True) Outside {#} {#0#})" by (rule reach_by [OF _ step.age [where t = 1 and late = True]]) (auto simp: cfg_simps)
  then have "reachable (cfg False True True 1 None [(1, True)] Unclaimed (Spinning False False) (Waiting True) Outside {#} {#0#})" by (rule reach_by [OF _ step.start [where t = 0 and exclusive = False]]) (auto simp: cfg_simps)
  then have "reachable (cfg False True True 1 None [(1, True)] Unclaimed (Entering False False) (Waiting True) Outside {#} {#0#})" by (rule reach_by [OF _ step.give_up [where t = 0]]) (auto simp: cfg_simps)
  then have "reachable (cfg False True True 1 (Some 0) [(1, True)] Unclaimed (Marking False False) (Waiting True) Outside {#} {#0#})" by (rule reach_by [OF _ step.enter [where t = 0]]) (auto simp: cfg_simps)
  then have "reachable (cfg False True True 1 (Some 0) [(1, True)] Unclaimed (Retrying False False) (Waiting True) Outside {#} {#0#})" by (rule reach_by [OF _ step.mark [where t = 0]]) (auto simp: cfg_simps)
  then have "reachable (cfg False True True 1 (Some 0) [(1, True)] Unclaimed (Queueing False False) (Waiting True) Outside {#} {#0#})" by (rule reach_by [OF _ step.refuse [where t = 0]]) (auto simp: cfg_simps)
  then show ?thesis by (rule reach_by [OF _ step.push_back [where t = 0]]) (auto simp: cfg_simps nested_read_def)
qed

theorem lock_is_exclusive_witness: "size (writing nested_read) \<le> 1 \<and> (writing nested_read = {#} \<or> reading nested_read = {#})"
  by (rule lock_is_exclusive [OF nested_read_reached])

theorem no_wakeup_lost_witness:
  "\<exists>u. u \<in># writing nested_read \<or> u \<in># reading nested_read \<or> (\<exists>y. pc nested_read u = Granted y) \<or>
    pushing (pc nested_read u) \<or> hurrying (pc nested_read u) (fired nested_read u)"
  by (rule no_wakeup_lost [OF nested_read_reached, of 1 True]) (simp_all add: nested_read_def cfg_def)

text \<open>C11: The check for a task that takes its own lock again, \<open>P0014\<close>, lets a task read a value it is
  reading already. If the lock starves in between, that read waits for the writer at the head of the queue, which waits for
  the task's first read: the task waits for itself forever, unless it is cancelled, and nobody takes the lock again.\<close>

theorem nested_read_deadlocks: "\<exists>s. reachable s \<and> 0 \<in># reading s \<and> pc s 0 = Waiting False \<and> deadlocked 0 s"
proof (intro exI conjI)
  have "stuck 0 nested_read" by (simp add: stuck_def nested_read_def cfg_def)
  then show "deadlocked 0 nested_read" by (rule stuck_deadlocked)
qed (simp_all add: nested_read_reached, simp_all add: nested_read_def cfg_def)

subsection \<open>The state word by its parts\<close>

definition word_of :: "lock_word \<Rightarrow> nat" where
  "word_of w = of_bool (writer w) + 2 * of_bool (parked w) + 4 * of_bool (starving w) + 8 * readers w"

lemma encode_nat: "encode w = of_nat (word_of w)"
  by (simp add: encode_def word_of_def)

lemma unat_encode: "readers w < 2 ^ 61 \<Longrightarrow> unat (encode w) = word_of w"
  unfolding encode_nat unat_of_nat by (rule mod_less) (auto simp: word_of_def split: split_of_bool)

lemma word_of_div:
  "word_of w div 2 ^ i = (if i = 0 then word_of w else if i = 1 then of_bool (parked w) + 2 * of_bool (starving w) + 4 * readers w
     else if i = 2 then of_bool (starving w) + 2 * readers w else readers w div 2 ^ (i - 3))"
proof -
  have "word_of w div 8 = readers w" by (auto simp: word_of_def split: split_of_bool)
  moreover have "i > 2 \<Longrightarrow> (2::nat) ^ i = 8 * 2 ^ (i - 3)" using power_add [of "2::nat" 3 "i - 3"] by simp
  ultimately have "i > 2 \<Longrightarrow> word_of w div 2 ^ i = readers w div 2 ^ (i - 3)" by (simp add: div_mult2_eq)
  moreover have "i = 1 \<Longrightarrow> ?thesis" "i = 2 \<Longrightarrow> ?thesis" by (auto simp: word_of_def split: split_of_bool)
  ultimately show ?thesis by (cases "i = 0 \<or> i = 1 \<or> i = 2") auto
qed

lemma bit_encode:
  assumes "readers w < 2 ^ 61"
  shows "bit (encode w) i \<longleftrightarrow> i = 0 \<and> writer w \<or> i = 1 \<and> parked w \<or> i = 2 \<and> starving w \<or> 3 \<le> i \<and> odd (readers w div 2 ^ (i - 3))"
proof -
  have "bit (encode w) i \<longleftrightarrow> odd (word_of w div 2 ^ i)"
    using unat_encode [OF assms] by (metis bit_iff_odd bit_unsigned_iff possible_bit_nat)
  also have "\<dots> \<longleftrightarrow> i = 0 \<and> writer w \<or> i = 1 \<and> parked w \<or> i = 2 \<and> starving w \<or> 3 \<le> i \<and> odd (readers w div 2 ^ (i - 3))"
    unfolding word_of_div by (auto simp: word_of_def split: split_of_bool)
  finally show ?thesis .
qed

lemma flag_bits: "bit WRITER i \<longleftrightarrow> i = 0" "bit PARKED i \<longleftrightarrow> i = 1" "bit STARVING i \<longleftrightarrow> i = 2" "bit (READER - 1) i \<longleftrightarrow> i < 3"
proof -
  have "bit (push_bit n 1 :: usize) i \<longleftrightarrow> i = n" if "n < 64" for n using that by (auto simp: bit_simps)
  from this [of 0] this [of 1] this [of 2]
  show "bit WRITER i \<longleftrightarrow> i = 0" "bit PARKED i \<longleftrightarrow> i = 1" "bit STARVING i \<longleftrightarrow> i = 2"
    by (simp_all add: WRITER_def PARKED_def STARVING_def)
  have "READER - 1 = mask 3" by (simp add: READER_def mask_eq_exp_minus_1)
  then show "bit (READER - 1) i \<longleftrightarrow> i < 3" by (auto simp: bit_simps)
qed

lemma some_reader_bit:
  assumes "readers w < 2 ^ 61"
  shows "(\<exists>i \<ge> 3. odd (readers w div 2 ^ (i - 3)) \<and> i < 64) \<longleftrightarrow> readers w \<noteq> 0"
proof
  assume "readers w \<noteq> 0"
  then obtain j where j: "bit (readers w) j" using bit_eqI [of "readers w" 0] by auto
  then have "j < 61" using assms by (metis bit_take_bit_iff take_bit_nat_eq_self)
  then show "\<exists>i \<ge> 3. odd (readers w div 2 ^ (i - 3)) \<and> i < 64"
    using j by (intro exI [of _ "j + 3"]) (auto simp: bit_iff_odd)
next
  assume "\<exists>i \<ge> 3. odd (readers w div 2 ^ (i - 3)) \<and> i < 64"
  then show "readers w \<noteq> 0" by (metis div_0 even_zero)
qed

lemma and_not_zero: "x AND y \<noteq> 0 \<longleftrightarrow> (\<exists>i. bit x i \<and> bit y i)" for x y :: usize
proof
  assume "x AND y \<noteq> 0"
  then show "\<exists>i. bit x i \<and> bit y i" using bit_eqI [of "x AND y" 0] by (auto simp: bit_and_iff)
next
  assume "\<exists>i. bit x i \<and> bit y i"
  then show "x AND y \<noteq> 0" by (metis bit_and_iff bit_0_eq bot_apply bot_bool_def)
qed

lemma encode_tests:
  assumes "readers w < 2 ^ 61"
  shows "encode w AND WRITER \<noteq> 0 \<longleftrightarrow> writer w"
    "encode w AND (WRITER OR STARVING) \<noteq> 0 \<longleftrightarrow> writer w \<or> starving w"
    "encode w AND NOT PARKED \<noteq> 0 \<longleftrightarrow> writer w \<or> starving w \<or> readers w \<noteq> 0"
    "encode w AND (WRITER OR NOT (READER - 1)) \<noteq> 0 \<longleftrightarrow> writer w \<or> readers w \<noteq> 0"
    "READER \<le> encode w \<longleftrightarrow> readers w \<noteq> 0"
proof -
  note b = and_not_zero bit_encode [OF assms] flag_bits bit_or_iff bit_not_iff possible_bit_word
  define r where "r i \<longleftrightarrow> 3 \<le> i \<and> odd (readers w div 2 ^ (i - 3))" for i
  have r: "(\<exists>i. r i \<and> i < 64) \<longleftrightarrow> readers w \<noteq> 0" "\<And>i. r i \<Longrightarrow> 3 \<le> i"
    using some_reader_bit [OF assms] unfolding r_def by auto
  show "encode w AND WRITER \<noteq> 0 \<longleftrightarrow> writer w" "encode w AND (WRITER OR STARVING) \<noteq> 0 \<longleftrightarrow> writer w \<or> starving w"
    unfolding b r_def [symmetric] using r(2) by fastforce+
  have "(\<exists>i. (i = 0 \<and> writer w \<or> i = 1 \<and> parked w \<or> i = 2 \<and> starving w \<or> r i) \<and> i < 64 \<and> i \<noteq> 1) \<longleftrightarrow>
      writer w \<or> starving w \<or> (\<exists>i. r i \<and> i < 64)"
    (is "?l \<longleftrightarrow> ?r")
  proof
    show "?l \<Longrightarrow> ?r" by auto
    have "\<not> r 1" using r(2) [of 1] by auto
    then show "?r \<Longrightarrow> ?l" by (metis zero_less_numeral numeral_less_iff semiring_norm(76,78,81) zero_neq_one numeral_eq_one_iff semiring_norm(85))
  qed
  then show "encode w AND NOT PARKED \<noteq> 0 \<longleftrightarrow> writer w \<or> starving w \<or> readers w \<noteq> 0"
    unfolding b r_def [symmetric] r(1) by simp
  have "(\<exists>i. (i = 0 \<and> writer w \<or> i = 1 \<and> parked w \<or> i = 2 \<and> starving w \<or> r i) \<and> (i = 0 \<or> i < 64 \<and> \<not> i < 3)) \<longleftrightarrow>
      writer w \<or> (\<exists>i. r i \<and> i < 64)"
    (is "?l \<longleftrightarrow> ?r")
  proof
    show "?l \<Longrightarrow> ?r" by auto
    show "?r \<Longrightarrow> ?l" using r(2) by (metis not_less)
  qed
  then show "encode w AND (WRITER OR NOT (READER - 1)) \<noteq> 0 \<longleftrightarrow> writer w \<or> readers w \<noteq> 0"
    unfolding b r_def [symmetric] r(1) by simp
  have "unat READER = 8" by (simp add: READER_def)
  then show "READER \<le> encode w \<longleftrightarrow> readers w \<noteq> 0"
    unfolding word_le_nat_alt unat_encode [OF assms] by (auto simp: word_of_def split: split_of_bool)
qed

lemma encode_writer: "readers w < 2 ^ 61 \<Longrightarrow> encode w OR WRITER = encode (w\<lparr>writer := True\<rparr>)"
  by (rule bit_word_eqI) (auto simp: bit_or_iff bit_encode flag_bits)

lemma encode_reader: "encode w + READER = encode (w\<lparr>readers := Suc (readers w)\<rparr>)"
  by (simp add: encode_def READER_def)

lemma encode_not_writer: "readers w < 2 ^ 61 \<Longrightarrow> encode w AND NOT WRITER = encode (w\<lparr>writer := False\<rparr>)"
  by (rule bit_word_eqI) (auto simp: bit_and_iff bit_not_iff bit_encode flag_bits)

lemma encode_less_reader: "0 < readers w \<Longrightarrow> encode w - READER = encode (w\<lparr>readers := readers w - 1\<rparr>)"
  by (cases "readers w") (simp_all add: encode_def READER_def)
text \<open>C12: The tests on the bits of the state word are the tests on its parts, and taking, granting and giving
  back change the parts they say, as long as the number of readers fits in 61 bits.\<close>

theorem word_by_its_parts:
  assumes "readers w < 2 ^ 61"
  shows "try_take_bits x (encode w) = map_option encode (try_take x w) \<and>
    grant_bits x (encode w) = map_option encode (grant x w) \<and>
    sync_locked_bits (encode w) = (writer w \<or> readers w \<noteq> 0) \<and>
    ungrant_bits True (encode w) = encode (ungrant True w) \<and>
    ungrant_bits False (encode (w\<lparr>readers := readers w + 1\<rparr>)) = encode (ungrant False (w\<lparr>readers := readers w + 1\<rparr>))"
  using encode_tests [OF assms] encode_writer [OF assms] encode_reader [of w] encode_not_writer [OF assms]
    encode_less_reader [of "w\<lparr>readers := readers w + 1\<rparr>"]
  by (auto simp: try_take_bits_def try_take_def grant_bits_def grant_def sync_locked_bits_def ungrant_bits_def ungrant_def)

theorem word_by_its_parts_witness:
  "try_take_bits True (encode \<lparr>writer = False, parked = True, starving = False, readers = 0\<rparr>) = Some (3 :: usize)"
  using word_by_its_parts [of "\<lparr>writer = False, parked = True, starving = False, readers = 0\<rparr>" True]
  by (simp add: try_take_def encode_def)

end
