(* ===== verification/Semaphores.thy ===== *)
theory Semaphores
  imports Sync
begin

text \<open>
  Semaphores and barriers of \<open>std.sync\<close>, \<^verbatim>\<open>crates/tondo-runtime/src/sync.rs\<close>: each locked section of an
  operation is one step. A wait is claimed once: by a cancellation, or by the task that hands a permit
  over or completes the round. The reference counts of the handles are left out.
\<close>

subsection \<open>Semaphores\<close>

datatype phase = Free | Blocked

record semaphore =
  permits :: nat
  line :: "tid list"
  claims :: "tid \<Rightarrow> claim"
  phase_of :: "tid \<Rightarrow> phase"
  taken :: "tid multiset"

text \<open>A count that is not positive panics with \<open>P0001\<close>.\<close>

definition semaphore_new :: "int \<Rightarrow> nat + semaphore" where
  "semaphore_new n = (if n \<le> 0 then Inl 1
     else Inr \<lparr>permits = nat n, line = [], claims = (\<lambda>_. Unclaimed), phase_of = (\<lambda>_. Free), taken = {#}\<rparr>)"

text \<open>The first waiter that can still be claimed, and those behind it.\<close>

fun claim_next :: "(tid \<Rightarrow> claim) \<Rightarrow> tid list \<Rightarrow> tid option \<times> tid list" where
  "claim_next c [] = (None, [])"
| "claim_next c (t # ts) = (if c t = Unclaimed then (Some t, ts) else claim_next c ts)"

definition permit_release :: "tid \<Rightarrow> semaphore \<Rightarrow> semaphore" where
  "permit_release t s =
     (case claim_next (claims s) (line s) of
        (Some u, rest) \<Rightarrow> s\<lparr>line := rest, claims := (claims s)(u := Woken), taken := taken s - {#t#}\<rparr>
      | (None, rest) \<Rightarrow> s\<lparr>line := rest, permits := permits s + 1, taken := taken s - {#t#}\<rparr>)"

text \<open>The locked section of \<open>acquire\<close> and \<open>tryAcquire\<close>, with whether the task has its permit, or no turn.\<close>

definition semaphore_acquire :: "bool \<Rightarrow> tid \<Rightarrow> semaphore \<Rightarrow> semaphore" where
  "semaphore_acquire try t s =
     (if permits s > 0 then s\<lparr>permits := permits s - 1, taken := add_mset t (taken s)\<rparr>
      else if try then s
      else s\<lparr>line := line s @ [t], claims := (claims s)(t := Unclaimed), phase_of := (phase_of s)(t := Blocked)\<rparr>)"

inductive sem_step :: "semaphore \<Rightarrow> semaphore \<Rightarrow> bool" where
  acquire: "phase_of s t = Free \<Longrightarrow> sem_step s (semaphore_acquire try t s)"
| cancel: "phase_of s t = Blocked \<Longrightarrow> claims s t = Unclaimed \<Longrightarrow> sem_step s (s\<lparr>claims := (claims s)(t := Cancelled)\<rparr>)"
| cancelled: "phase_of s t = Blocked \<Longrightarrow> claims s t = Cancelled \<Longrightarrow>
    sem_step s (s\<lparr>line := filter (\<lambda>u. u \<noteq> t) (line s), phase_of := (phase_of s)(t := Free)\<rparr>)"
| given: "phase_of s t = Blocked \<Longrightarrow> claims s t = Woken \<Longrightarrow>
    sem_step s (s\<lparr>phase_of := (phase_of s)(t := Free), taken := add_mset t (taken s)\<rparr>)"
| release: "t \<in># taken s \<Longrightarrow> sem_step s (permit_release t s)"

definition sem_reachable :: "int \<Rightarrow> semaphore \<Rightarrow> bool" where
  "sem_reachable n s \<longleftrightarrow> (\<exists>s0. semaphore_new n = Inr s0 \<and> sem_step\<^sup>*\<^sup>* s0 s)"

text \<open>The permits on their way to a task that was woken.\<close>

definition coming :: "semaphore \<Rightarrow> tid set" where
  "coming s = {t. phase_of s t = Blocked \<and> claims s t = Woken}"

subsection \<open>Barriers\<close>

record barrier =
  parties :: nat
  arrived :: "tid list"
  b_claims :: "tid \<Rightarrow> claim"
  b_phase :: "tid \<Rightarrow> phase"

definition barrier_new :: "int \<Rightarrow> nat + barrier" where
  "barrier_new n = (if n \<le> 0 then Inl 1
     else Inr \<lparr>parties = nat n, arrived = [], b_claims = (\<lambda>_. Unclaimed), b_phase = (\<lambda>_. Free)\<rparr>)"

text \<open>The locked section of \<open>wait\<close>, with whether it completes the round.\<close>

definition barrier_wait :: "tid \<Rightarrow> barrier \<Rightarrow> bool \<times> barrier" where
  "barrier_wait t b =
     (if length (arrived b) + 1 = parties b
      then (True, b\<lparr>arrived := [],
        b_claims := (\<lambda>u. if u \<in> set (arrived b) \<and> b_claims b u = Unclaimed then Woken else b_claims b u)\<rparr>)
      else (False, b\<lparr>arrived := arrived b @ [t], b_claims := (b_claims b)(t := Unclaimed),
        b_phase := (b_phase b)(t := Blocked)\<rparr>))"

inductive bar_step :: "barrier \<Rightarrow> barrier \<Rightarrow> bool" where
  arrive: "b_phase b t = Free \<Longrightarrow> bar_step b (snd (barrier_wait t b))"
| stop: "b_phase b t = Blocked \<Longrightarrow> b_claims b t = Unclaimed \<Longrightarrow> bar_step b (b\<lparr>b_claims := (b_claims b)(t := Cancelled)\<rparr>)"
| leave: "b_phase b t = Blocked \<Longrightarrow> b_claims b t = Cancelled \<Longrightarrow>
    bar_step b (b\<lparr>arrived := filter (\<lambda>u. u \<noteq> t) (arrived b), b_phase := (b_phase b)(t := Free)\<rparr>)"
| pass: "b_phase b t = Blocked \<Longrightarrow> b_claims b t = Woken \<Longrightarrow> bar_step b (b\<lparr>b_phase := (b_phase b)(t := Free)\<rparr>)"

definition bar_reachable :: "int \<Rightarrow> barrier \<Rightarrow> bool" where
  "bar_reachable n b \<longleftrightarrow> (\<exists>b0. barrier_new n = Inr b0 \<and> bar_step\<^sup>*\<^sup>* b0 b)"

subsection \<open>Permits are conserved\<close>

definition live :: "semaphore \<Rightarrow> tid set" where
  "live s = {t. phase_of s t = Blocked \<and> claims s t = Unclaimed}"

definition sem_inv :: "nat \<Rightarrow> semaphore \<Rightarrow> bool" where
  "sem_inv n s \<longleftrightarrow> finite (coming s) \<and> permits s + size (taken s) + card (coming s) = n \<and>
     live s \<subseteq> set (line s) \<and> set (line s) \<inter> coming s = {} \<and> set (line s) \<subseteq> {t. phase_of s t = Blocked} \<and> distinct (line s) \<and>
     (permits s = 0 \<or> live s = {})"

lemma claim_next_split:
  "claim_next c l = (r, rest) \<Longrightarrow> \<exists>front. l = front @ (case r of None \<Rightarrow> [] | Some u \<Rightarrow> [u]) @ rest \<and>
    (\<forall>u\<in>set front. c u \<noteq> Unclaimed) \<and> (case r of None \<Rightarrow> rest = [] | Some u \<Rightarrow> c u = Unclaimed)"
proof (induction l)
  case (Cons t ts)
  show ?case
  proof (cases "c t = Unclaimed")
    case False
    then obtain front where "ts = front @ (case r of None \<Rightarrow> [] | Some u \<Rightarrow> [u]) @ rest"
      "\<forall>u\<in>set front. c u \<noteq> Unclaimed" "case r of None \<Rightarrow> rest = [] | Some u \<Rightarrow> c u = Unclaimed"
      using Cons by auto
    then show ?thesis using False by (intro exI [of _ "t # front"]) auto
  qed (use Cons.prems in auto)
qed auto

text \<open>What a step on one task changes of the waiters and of the permits on their way.\<close>

lemma task_changed:
  assumes "phase_of s' = (phase_of s)(t := p)" "claims s' = (claims s)(t := c)"
  shows "coming s' = (if p = Blocked \<and> c = Woken then insert t (coming s) else coming s - {t})"
    "live s' = (if p = Blocked \<and> c = Unclaimed then insert t (live s) else live s - {t})"
    "{u. phase_of s' u = Blocked} = (if p = Blocked then insert t {u. phase_of s u = Blocked} else {u. phase_of s u = Blocked} - {t})"
  using assms by (auto simp: coming_def live_def)

lemma task_same:
  "phase_of s' = phase_of s \<Longrightarrow> claims s' = claims s \<Longrightarrow> coming s' = coming s \<and> live s' = live s"
  by (simp add: coming_def live_def)

lemma in_sets:
  "t \<in> coming s \<longleftrightarrow> phase_of s t = Blocked \<and> claims s t = Woken" "t \<in> live s \<longleftrightarrow> phase_of s t = Blocked \<and> claims s t = Unclaimed"
  by (simp_all add: coming_def live_def)

lemma inv_acquire:
  assumes "sem_inv n s" "phase_of s t = Free"
  shows "sem_inv n (semaphore_acquire try t s)"
proof -
  let ?s = "semaphore_acquire try t s"
  have t: "t \<notin> coming s" "t \<notin> live s" "t \<notin> set (line s)" using assms by (auto simp: in_sets sem_inv_def)
  consider "permits s > 0" | "permits s = 0" "try" | "permits s = 0" "\<not> try" by auto
  then show ?thesis
  proof cases
    case 1
    then have "coming ?s = coming s" "live ?s = live s" using task_same [of ?s s] by (simp_all add: semaphore_acquire_def)
    then show ?thesis using 1 assms(1) by (auto simp: sem_inv_def semaphore_acquire_def)
  next
    case 2
    then show ?thesis using assms(1) by (simp add: semaphore_acquire_def)
  next
    case 3
    then have "phase_of ?s = (phase_of s)(t := Blocked)" "claims ?s = (claims s)(t := Unclaimed)"
      by (simp_all add: semaphore_acquire_def)
    from task_changed [OF this] have "coming ?s = coming s" "live ?s = insert t (live s)" using t by simp_all
    moreover have "line ?s = line s @ [t]" "permits ?s = 0" "taken ?s = taken s" using 3 by (simp_all add: semaphore_acquire_def)
    moreover have "{u. phase_of ?s u = Blocked} = insert t {u. phase_of s u = Blocked}"
      using task_changed(3) [OF \<open>phase_of ?s = _\<close> \<open>claims ?s = _\<close>] by simp
    ultimately show ?thesis using 3 assms(1) t unfolding sem_inv_def by auto
  qed
qed

lemma inv_release:
  assumes "sem_inv n s" "t \<in># taken s"
  shows "sem_inv n (permit_release t s)"
proof -
  let ?s = "permit_release t s"
  obtain r rest where c: "claim_next (claims s) (line s) = (r, rest)" by fastforce
  obtain m where m: "taken s = add_mset t m" using assms(2) by (metis multi_member_split)
  from claim_next_split [OF c] obtain front where f: "line s = front @ (case r of None \<Rightarrow> [] | Some u \<Rightarrow> [u]) @ rest"
    "\<forall>u\<in>set front. claims s u \<noteq> Unclaimed" "case r of None \<Rightarrow> rest = [] | Some u \<Rightarrow> claims s u = Unclaimed" by auto
  show ?thesis
  proof (cases r)
    case None
    then have "coming ?s = coming s" "live ?s = live s" using task_same [of ?s s] c by (simp_all add: permit_release_def)
    moreover have "line s = front" "rest = []" using f None by auto
    moreover have "live s = {}" using assms(1) f(2) \<open>line s = front\<close> by (auto simp: sem_inv_def in_sets)
    ultimately show ?thesis using assms(1) c None m by (simp add: sem_inv_def permit_release_def)
  next
    case (Some u)
    then have l: "line s = front @ u # rest" "claims s u = Unclaimed" using f by auto
    have u: "phase_of s u = Blocked" "u \<notin> coming s" "u \<in> live s" "permits s = 0" "u \<notin> set rest" "set rest \<subseteq> set (line s)"
      using assms(1) l by (auto simp: sem_inv_def in_sets)
    have "phase_of ?s = (phase_of s)(u := Blocked)" "claims ?s = (claims s)(u := Woken)"
      using c Some u(1) by (simp_all add: permit_release_def fun_upd_idem)
    from task_changed [OF this] have s: "coming ?s = insert u (coming s)" "live ?s = live s - {u}" by simp_all
    have "live s - {u} \<subseteq> set rest" using assms(1) f(2) l(1) by (auto simp: sem_inv_def in_sets)
    moreover have "line ?s = rest" "permits ?s = 0" "taken ?s = m" "phase_of ?s = phase_of s"
      using c Some m u(4) by (simp_all add: permit_release_def)
    ultimately show ?thesis using assms(1) s u l(1) m unfolding sem_inv_def by auto
  qed
qed

lemma sem_step_inv: "sem_step s s' \<Longrightarrow> sem_inv n s \<Longrightarrow> sem_inv n s'"
proof (induction rule: sem_step.induct)
  case (cancel s t)
  let ?s = "s\<lparr>claims := (claims s)(t := Cancelled)\<rparr>"
  have "phase_of ?s = (phase_of s)(t := Blocked)" "claims ?s = (claims s)(t := Cancelled)" using cancel by (simp_all add: fun_upd_idem)
  from task_changed [OF this] have "coming ?s = coming s" "live ?s = live s - {t}" using cancel by (auto simp: in_sets)
  then show ?case using cancel by (auto simp: sem_inv_def)
next
  case (cancelled s t)
  let ?s = "s\<lparr>line := filter (\<lambda>u. u \<noteq> t) (line s), phase_of := (phase_of s)(t := Free)\<rparr>"
  have eq: "phase_of ?s = (phase_of s)(t := Free)" "claims ?s = (claims s)(t := Cancelled)" using cancelled by (simp_all add: fun_upd_idem)
  then have "coming ?s = coming s" "live ?s = live s" using task_changed(1,2) [OF eq] cancelled by (auto simp: in_sets)
  then show ?case using cancelled by (auto simp: sem_inv_def in_sets)
next
  case (given s t)
  let ?s = "s\<lparr>phase_of := (phase_of s)(t := Free), taken := add_mset t (taken s)\<rparr>"
  have eq: "phase_of ?s = (phase_of s)(t := Free)" "claims ?s = (claims s)(t := Woken)" using given by (simp_all add: fun_upd_idem)
  then have s: "coming ?s = coming s - {t}" "live ?s = live s" using task_changed(1,2) [OF eq] given by (auto simp: in_sets)
  have t: "t \<in> coming s" "finite (coming s)" using given by (auto simp: in_sets sem_inv_def)
  then have "card (coming s) = Suc (card (coming s - {t}))" using card_Suc_Diff1 [of "coming s" t] by metis
  then show ?case using given s t by (auto simp: sem_inv_def)
qed (auto intro: inv_acquire inv_release)

text \<open>C13: The permits of a semaphore are conserved: the free ones, the ones taken and the ones handed to a task that
  has not run yet are as many as it was made with, so at most that many tasks hold one; and no task waits
  with nobody to wake it while a permit is free.\<close>

theorem permits_are_conserved:
  assumes "sem_reachable n s"
  shows "int (permits s + size (taken s) + card (coming s)) = n \<and>
    (permits s = 0 \<or> {t. phase_of s t = Blocked \<and> claims s t = Unclaimed} = {})"
proof -
  obtain s0 where s0: "semaphore_new n = Inr s0" "sem_step\<^sup>*\<^sup>* s0 s" using assms by (auto simp: sem_reachable_def)
  from s0(2) have "sem_inv (nat n) s"
  proof (induction rule: rtranclp_induct)
    case base
    then show ?case using s0(1) by (auto simp: semaphore_new_def sem_inv_def coming_def live_def split: if_splits)
  qed (use sem_step_inv in blast)
  moreover have "0 < n" using s0(1) by (auto simp: semaphore_new_def split: if_splits)
  ultimately show ?thesis by (simp add: sem_inv_def flip: live_def)
qed

lemma sem_reach: "sem_reachable n s \<Longrightarrow> sem_step s s' \<Longrightarrow> sem_reachable n s'"
  unfolding sem_reachable_def by (meson rtranclp.rtrancl_into_rtrancl)

lemma sem_reach_new: "semaphore_new n = Inr s \<Longrightarrow> sem_reachable n s"
  unfolding sem_reachable_def by blast

definition one_permit :: semaphore where
  "one_permit = \<lparr>permits = 1, line = [], claims = \<lambda>_. Unclaimed, phase_of = \<lambda>_. Free, taken = {#}\<rparr>"

theorem permits_are_conserved_witness:
  "let s = permit_release 0 (semaphore_acquire False 1 (semaphore_acquire False 0 one_permit)) in
    int (permits s + size (taken s) + card (coming s)) = 1 \<and>
    (permits s = 0 \<or> {t. phase_of s t = Blocked \<and> claims s t = Unclaimed} = {})"
proof -
  have "sem_reachable 1 one_permit" by (rule sem_reach_new) (simp add: semaphore_new_def one_permit_def)
  then have "sem_reachable 1 (semaphore_acquire False 0 one_permit)"
    by (rule sem_reach [OF _ sem_step.acquire]) (simp add: one_permit_def)
  then have "sem_reachable 1 (semaphore_acquire False 1 (semaphore_acquire False 0 one_permit))"
    by (rule sem_reach [OF _ sem_step.acquire]) (simp add: one_permit_def semaphore_acquire_def)
  then have "sem_reachable 1 (permit_release 0 (semaphore_acquire False 1 (semaphore_acquire False 0 one_permit)))"
    by (rule sem_reach [OF _ sem_step.release]) (simp add: one_permit_def semaphore_acquire_def)
  then show ?thesis unfolding Let_def by (rule permits_are_conserved)
qed

subsection \<open>Rounds of a barrier\<close>

definition due :: "barrier \<Rightarrow> tid set" where
  "due b = {u. b_phase b u = Blocked \<and> b_claims b u = Unclaimed}"

definition bar_inv :: "nat \<Rightarrow> barrier \<Rightarrow> bool" where
  "bar_inv n b \<longleftrightarrow> parties b = n \<and> length (arrived b) < n \<and> distinct (arrived b) \<and> due b \<subseteq> set (arrived b) \<and>
     set (arrived b) \<subseteq> {t. b_phase b t = Blocked} \<and> set (arrived b) \<inter> {t. b_claims b t = Woken} = {}"

lemma due_wait:
  assumes "due b \<subseteq> set (arrived b)"
  shows "due (snd (barrier_wait t b)) = (if fst (barrier_wait t b) then {} else insert t (due b))"
  using assms by (auto simp: due_def barrier_wait_def)

lemma due_changed:
  "b_phase b' = (b_phase b)(t := p) \<Longrightarrow> b_claims b' = (b_claims b)(t := c) \<Longrightarrow>
    due b' = (if p = Blocked \<and> c = Unclaimed then insert t (due b) else due b - {t})"
  by (auto simp: due_def)

lemma bar_step_inv: "bar_step b b' \<Longrightarrow> bar_inv n b \<Longrightarrow> bar_inv n b'"
proof (induction rule: bar_step.induct)
  case (arrive b t)
  then have i: "due b \<subseteq> set (arrived b)" "t \<notin> set (arrived b)" by (auto simp: bar_inv_def)
  show ?case
  proof (cases "length (arrived b) + 1 = parties b")
    case True
    then have "due (snd (barrier_wait t b)) = {}" using due_wait [OF i(1), of t] by (simp add: barrier_wait_def)
    then show ?thesis using True arrive by (simp add: bar_inv_def barrier_wait_def)
  next
    case False
    then have "due (snd (barrier_wait t b)) = insert t (due b)" using due_wait [OF i(1), of t] by (simp add: barrier_wait_def)
    then show ?thesis using False arrive i by (auto simp: bar_inv_def barrier_wait_def)
  qed
next
  case (stop b t)
  have "due (b\<lparr>b_claims := (b_claims b)(t := Cancelled)\<rparr>) = due b - {t}"
    using stop by (subst due_changed [of _ b t Blocked Cancelled]) (simp_all add: fun_upd_idem)
  then show ?case using stop by (auto simp: bar_inv_def)
next
  case (leave b t)
  let ?b = "b\<lparr>arrived := filter (\<lambda>u. u \<noteq> t) (arrived b), b_phase := (b_phase b)(t := Free)\<rparr>"
  have "due ?b = due b - {t}"
    using leave by (subst due_changed [of _ b t Free Cancelled]) (simp_all add: fun_upd_idem)
  moreover have "length (filter (\<lambda>u. u \<noteq> t) (arrived b)) < n"
    using leave le_less_trans [OF length_filter_le] by (auto simp: bar_inv_def)
  ultimately show ?case using leave by (auto simp: bar_inv_def)
next
  case (pass b t)
  let ?b = "b\<lparr>b_phase := (b_phase b)(t := Free)\<rparr>"
  have "due ?b = due b - {t}"
    using pass by (subst due_changed [of _ b t Free Woken]) (simp_all add: fun_upd_idem)
  then show ?case using pass by (auto simp: bar_inv_def due_def)
qed

lemma bar_reachable_inv: "bar_reachable n b \<Longrightarrow> bar_inv (nat n) b \<and> 0 < n"
proof -
  assume "bar_reachable n b"
  then obtain b0 where b0: "barrier_new n = Inr b0" "bar_step\<^sup>*\<^sup>* b0 b" by (auto simp: bar_reachable_def)
  from b0(2) have "bar_inv (nat n) b"
  proof (induction rule: rtranclp_induct)
    case base
    then show ?case using b0(1) by (auto simp: barrier_new_def bar_inv_def due_def split: if_splits)
  qed (use bar_step_inv in blast)
  then show ?thesis using b0(1) by (auto simp: barrier_new_def split: if_splits)
qed

lemma bar_reach: "bar_reachable n b \<Longrightarrow> bar_step b b' \<Longrightarrow> bar_reachable n b'"
  unfolding bar_reachable_def by (meson rtranclp.rtrancl_into_rtrancl)

lemma bar_reach_new: "barrier_new n = Inr b \<Longrightarrow> bar_reachable n b"
  unfolding bar_reachable_def by blast

definition for_two :: barrier where
  "for_two = \<lparr>parties = 2, arrived = [], b_claims = \<lambda>_. Unclaimed, b_phase = \<lambda>_. Free\<rparr>"

lemma for_two_reach: "bar_reachable 2 for_two" "bar_reachable 2 (snd (barrier_wait 0 for_two))"
proof -
  show "bar_reachable 2 for_two" by (rule bar_reach_new) (simp add: barrier_new_def for_two_def)
  then show "bar_reachable 2 (snd (barrier_wait 0 for_two))"
    by (rule bar_reach [OF _ bar_step.arrive]) (simp add: for_two_def)
qed

text \<open>A task completes the round exactly when as many tasks wait as are missing, and it releases those of
  them that were not cancelled; nobody that still waits is left behind, and a round that is not complete
  keeps everyone waiting.\<close>

theorem barrier_round:
  assumes "bar_reachable n b" "b_phase b t = Free"
  shows "fst (barrier_wait t b) = (int (length (arrived b)) + 1 = n) \<and> int (length (arrived b)) < n \<and>
    {u. b_phase b u = Blocked \<and> b_claims b u = Unclaimed} \<subseteq> set (arrived b) \<and>
    {u. b_phase (snd (barrier_wait t b)) u = Blocked \<and> b_claims (snd (barrier_wait t b)) u = Unclaimed} =
      (if fst (barrier_wait t b) then {} else insert t {u. b_phase b u = Blocked \<and> b_claims b u = Unclaimed})"
proof -
  have i: "bar_inv (nat n) b" "0 < n" using bar_reachable_inv [OF assms(1)] by auto
  then have "parties b = nat n" "length (arrived b) < nat n" "due b \<subseteq> set (arrived b)" by (auto simp: bar_inv_def)
  moreover from this(3) have "due (snd (barrier_wait t b)) = (if fst (barrier_wait t b) then {} else insert t (due b))"
    by (rule due_wait)
  moreover have "fst (barrier_wait t b) = (length (arrived b) + 1 = parties b)" by (simp add: barrier_wait_def)
  ultimately show ?thesis using i(2) unfolding due_def by (simp add: nat_eq_iff) linarith
qed

theorem barrier_round_witness: "\<not> fst (barrier_wait 0 for_two) \<and> fst (barrier_wait 1 (snd (barrier_wait 0 for_two)))"
  using barrier_round [OF for_two_reach(1), of 0] barrier_round [OF for_two_reach(2), of 1]
  by (simp add: barrier_wait_def for_two_def)

text \<open>A task that was cancelled while it waited counts until it has taken itself out: it completes the
  round of a barrier for two with a task that arrives then, and that task goes on although no other does.\<close>

theorem cancelled_arrival_completes_the_round:
  "\<exists>b. bar_reachable 2 b \<and> b_phase b 1 = Free \<and> fst (barrier_wait 1 b) \<and> {u. b_claims (snd (barrier_wait 1 b)) u = Woken} = {}"
proof -
  let ?c = "snd (barrier_wait 0 for_two)"
  let ?d = "?c\<lparr>b_claims := (b_claims ?c)(0 := Cancelled)\<rparr>"
  have "bar_reachable 2 ?d"
    by (rule bar_reach [OF for_two_reach(2) bar_step.stop]) (simp_all add: barrier_wait_def for_two_def)
  moreover have "b_phase ?d 1 = Free" "fst (barrier_wait 1 ?d)" "{u. b_claims (snd (barrier_wait 1 ?d)) u = Woken} = {}"
    by (auto simp: barrier_wait_def for_two_def)
  ultimately show ?thesis by blast
qed

end
