(* ===== verification/Atomics.thy ===== *)
theory Atomics
  imports Prelude "HOL-Library.Word"
begin

unbundle bit_operations_syntax

text \<open>
  The integer atomics of \<open>std.sync\<close>, \<^verbatim>\<open>crates/tondo-runtime/src/sync.rs\<close>: values of 1, 2, 4 or 8 bytes that
  travel as 64-bit words with the bits above them clear. The loop of an addition runs against the
  stores of other tasks, which are a list: one per turn it loses.
\<close>

definition low_bits :: "nat \<Rightarrow> u64" where
  "low_bits bits = drop_bit (64 - bits) (-1)"



definition decode :: "bool \<Rightarrow> nat \<Rightarrow> u64 \<Rightarrow> int" where
  "decode is_signed bits raw =
     (if is_signed then sint (signed_drop_bit (64 - bits) (push_bit (64 - bits) raw))
      else uint (raw AND low_bits bits))"

definition low :: "bool \<Rightarrow> nat \<Rightarrow> int" where
  "low is_signed bits = (if is_signed then - (2 ^ (bits - 1)) else 0)"

definition high :: "bool \<Rightarrow> nat \<Rightarrow> int" where
  "high is_signed bits = (if is_signed then 2 ^ (bits - 1) - 1 else 2 ^ bits - 1)"


subsection \<open>What a stored word means\<close>

lemma low_bits_mask: "bits \<le> 64 \<Longrightarrow> low_bits bits = mask bits"
  unfolding low_bits_def by (rule bit_word_eqI) (auto simp: bit_simps)

lemma uint_low: "uint (take_bit n w) = take_bit n (uint w)" for w :: u64
  by (rule unsigned_take_bit_eq)

lemma decode_eq:
  assumes "0 < bits" "bits \<le> 64"
  shows "decode is_signed bits raw = (if is_signed then signed_take_bit (bits - 1) (uint raw) else take_bit bits (uint raw))"
proof (cases is_signed)
  case True
  have "sint (signed_drop_bit (64 - bits) (push_bit (64 - bits) raw)) = signed_take_bit (bits - 1) (uint raw)"
  proof (rule bit_eqI)
    fix n
    have "bits - Suc 0 \<le> n \<Longrightarrow> n < bits \<Longrightarrow> n = bits - Suc 0" "63 < bits \<Longrightarrow> bits - Suc 0 = 63" using assms(2) by auto
    then have e: "bits - Suc 0 \<le> n \<Longrightarrow> n < bits \<Longrightarrow> bit raw n = bit raw (bits - Suc 0)"
      "63 < bits \<Longrightarrow> bit raw 63 = bit raw (bits - Suc 0)" by metis+
    show "bit (sint (signed_drop_bit (64 - bits) (push_bit (64 - bits) raw))) n = bit (signed_take_bit (bits - 1) (uint raw)) n"
      using assms e by (auto simp: bit_simps min_def not_le not_less)
  qed
  then show ?thesis using True by (simp add: decode_def)
next
  case False
  then show ?thesis using assms by (simp add: decode_def low_bits_mask uint_low flip: take_bit_eq_mask) 
qed

lemma decode_range:
  assumes "0 < bits" "bits \<le> 64"
  shows "low is_signed bits \<le> decode is_signed bits raw \<and> decode is_signed bits raw \<le> high is_signed bits"
proof (cases is_signed)
  case True
  then show ?thesis
    using signed_take_bit_int_greater_eq_minus_exp [of "bits - 1" "uint raw"] signed_take_bit_int_less_exp [of "bits - 1" "uint raw"]
    unfolding decode_eq [OF assms] by (simp add: low_def high_def)
next
  case False
  then show ?thesis using take_bit_int_less_exp [of bits "uint raw"]
    unfolding decode_eq [OF assms] by (simp add: low_def high_def)
qed






end
