(* ===== verification/Conversions.thy ===== *)
theory Conversions
  imports Generics
begin

text \<open>
  Conversions by shape and reflection paths, \<open>converts\<close>, \<open>fields_convert\<close> and \<open>reflect_path\<close> of
  \<^verbatim>\<open>crates/tondo/src/types.rs\<close>. The recursion over the types need not end, so it has fuel; an error
  is a value with the types its message shows.
\<close>

subsection \<open>Conversions\<close>

datatype convert_error =
  Cannot ty ty | NoVariant ty string ty | OtherPayload string ty ty | PrivateFields ty | NoField ty string ty ty

definition shown :: "program \<Rightarrow> ty \<Rightarrow> string" where
  "shown P t = (case display P t of Some s \<Rightarrow> s | None \<Rightarrow> [])"

definition quoted :: "string \<Rightarrow> string" where
  "quoted s = ''`'' @ s @ ''`''"

fun convert_message :: "program \<Rightarrow> convert_error \<Rightarrow> string" where
  "convert_message P (Cannot from to) = quoted (shown P from) @ '' does not convert to '' @ quoted (shown P to)"
| "convert_message P (NoVariant to v from) =
     quoted (shown P to) @ '' has no variant '' @ quoted v @ '', which '' @ quoted (shown P from) @ '' has''"
| "convert_message P (OtherPayload v from to) =
     ''the variant '' @ quoted v @ '' of '' @ quoted (shown P from) @ '' and of '' @ quoted (shown P to) @ '' carry different payloads''"
| "convert_message P (PrivateFields to) =
     quoted (shown P to) @ '' has private fields, so only a '' @ quoted (shown P to) @ '' converts to it''"
| "convert_message P (NoField from f to t) =
     quoted (shown P from) @ '' has no field '' @ quoted f @ '': add it to '' @ quoted (shown P from) @ '', or declare '' @
     quoted (shown P to @ ''.'' @ f) @ '' as '' @ quoted (shown P t @ ''?'') @ '' so that it becomes '' @ quoted ''none''"

text \<open>The fields a conversion fills with \<open>none\<close>: a type and a name.\<close>

type_synonym missing = "(ty \<times> string) list"
type_synonym outcome = "(convert_error + missing) option"

fun each :: "('a \<Rightarrow> missing \<Rightarrow> outcome) \<Rightarrow> 'a list \<Rightarrow> missing \<Rightarrow> outcome" where
  "each f [] m = Some (Inr m)"
| "each f (x # xs) m = (case f x m of Some (Inr m) \<Rightarrow> each f xs m | r \<Rightarrow> r)"

definition source_field :: "field list \<Rightarrow> string \<Rightarrow> field option" where
  "source_field flds nm = find (\<lambda>f. fname f = nm \<and> \<not> is_private f) flds"

definition field_convert :: "(ty \<Rightarrow> ty \<Rightarrow> missing \<Rightarrow> outcome) \<Rightarrow> program \<Rightarrow> ty \<Rightarrow> ty \<Rightarrow> field list \<Rightarrow> field \<Rightarrow> missing \<Rightarrow> outcome" where
  "field_convert rec P from to from_fields f m =
     (case source_field from_fields (fname f) of
        Some g \<Rightarrow> rec (fty g) (fty f) m
      | None \<Rightarrow>
          (case pkind P (fty f) of
             TOption _ \<Rightarrow> Some (Inr (m @ [(to, fname f)]))
           | _ \<Rightarrow> Some (Inl (NoField from (fname f) to (fty f)))))"

definition fields_convert :: "(ty \<Rightarrow> ty \<Rightarrow> missing \<Rightarrow> outcome) \<Rightarrow> program \<Rightarrow> ty \<Rightarrow> ty \<Rightarrow> field list \<Rightarrow> field list \<Rightarrow> missing \<Rightarrow> outcome" where
  "fields_convert rec P from to from_fields to_fields m =
     (if \<exists>f\<in>set to_fields. is_private f then Some (Inl (PrivateFields to))
      else each (field_convert rec P from to from_fields) to_fields m)"

definition variant_convert :: "(ty \<Rightarrow> ty \<Rightarrow> missing \<Rightarrow> outcome) \<Rightarrow> program \<Rightarrow> ty \<Rightarrow> ty \<Rightarrow> variant list \<Rightarrow> variant \<Rightarrow> missing \<Rightarrow> outcome" where
  "variant_convert rec P from to to_variants v m =
     (case find (\<lambda>w. vname w = vname v) to_variants of
        None \<Rightarrow> Some (Inl (NoVariant to (vname v) from))
      | Some w \<Rightarrow>
          (case (vpayload v, vpayload w) of
             (PUnit, PUnit) \<Rightarrow> Some (Inr m)
           | (PTuple fs, PTuple ts) \<Rightarrow>
               if length fs = length ts then each (\<lambda>(f, t). rec f t) (zip fs ts) m
               else Some (Inl (OtherPayload (vname v) from to))
           | (PRecord fs, PRecord ts) \<Rightarrow> fields_convert rec P from to fs ts m
           | _ \<Rightarrow> Some (Inl (OtherPayload (vname v) from to))))"

text \<open>The elements of the collections that convert into each other.\<close>

fun elements :: "ty_kind \<Rightarrow> ty option" where
  "elements (TArray t) = Some t" | "elements (TDeque t) = Some t" | "elements (TSet t) = Some t" | "elements _ = None"

definition below_option :: "program \<Rightarrow> ty \<Rightarrow> ty" where
  "below_option P t = (case pkind P t of TOption inner \<Rightarrow> inner | _ \<Rightarrow> t)"

text \<open>What of the two types a conversion looks at next: nothing, pairs of types inside, or two nominal types.\<close>

datatype parts = Equal | Pairs "(ty \<times> ty) list" | Records "field list" "field list" | Enums "variant list" "variant list" | Neither

definition parts_of :: "program \<Rightarrow> ty \<Rightarrow> ty \<Rightarrow> parts" where
  "parts_of P from to =
     (if from = to then Equal
      else case pkind P to of
        TOption t \<Rightarrow> Pairs [(below_option P from, t)]
      | _ \<Rightarrow>
      case (elements (pkind P to), elements (pkind P from)) of
        (Some t, Some f) \<Rightarrow> Pairs [(f, t)]
      | _ \<Rightarrow>
      case (pkind P to, pkind P from) of
        (TMap tk tv, TMap fk fv) \<Rightarrow> Pairs [(fk, tk), (fv, tv)]
      | (TResult t te, TResult f fe) \<Rightarrow> Pairs [(f, t), (fe, te)]
      | (TAdt a, TAdt b) \<Rightarrow>
          (case (adt (table P) a, adt (table P) b) of
             (Record ts, Record fs) \<Rightarrow> Records fs ts
           | (Enum ts, Enum fs) \<Rightarrow> Enums fs ts
           | _ \<Rightarrow> Neither)
      | _ \<Rightarrow> Neither)"

definition convert_step :: "(ty \<Rightarrow> ty \<Rightarrow> missing \<Rightarrow> outcome) \<Rightarrow> program \<Rightarrow> ty \<Rightarrow> ty \<Rightarrow> missing \<Rightarrow> outcome" where
  "convert_step rec P from to m =
     (case parts_of P from to of
        Equal \<Rightarrow> Some (Inr m)
      | Pairs ps \<Rightarrow> each (\<lambda>(f, t). rec f t) ps m
      | Records fs ts \<Rightarrow> fields_convert rec P from to fs ts m
      | Enums fs ts \<Rightarrow> each (variant_convert rec P from to ts) fs m
      | Neither \<Rightarrow> Some (Inl (Cannot from to)))"

fun converts :: "nat \<Rightarrow> program \<Rightarrow> ty \<Rightarrow> ty \<Rightarrow> missing \<Rightarrow> outcome" where
  "converts 0 P from to m = None"
| "converts (Suc n) P from to m = convert_step (converts n P) P from to m"

subsection \<open>Reflection paths\<close>

datatype path_error = NotIndex ty string | NoSuchField ty string "string list" | IsNewtype ty

fun split_at :: "char \<Rightarrow> string \<Rightarrow> string list" where
  "split_at c [] = [[]]"
| "split_at c (x # xs) =
     (if x = c then [] # split_at c xs
      else case split_at c xs of s # rest \<Rightarrow> (x # s) # rest | [] \<Rightarrow> [[x]])"

text \<open>The type below the options of a type; a type in the table is made after those it mentions.\<close>

fun below_options :: "nat \<Rightarrow> program \<Rightarrow> ty \<Rightarrow> ty" where
  "below_options 0 P t = t"
| "below_options (Suc n) P t = (case pkind P t of TOption inner \<Rightarrow> below_options n P inner | _ \<Rightarrow> t)"

fun reflect_walk :: "program \<Rightarrow> string list \<Rightarrow> ty \<Rightarrow> path_error + unit" where
  "reflect_walk P [] t = Inr ()"
| "reflect_walk P (segment # rest) t0 =
     (let t = below_options (Suc t0) P t0 in
      case pkind P t of
        TArray e \<Rightarrow> if segment = [] \<or> \<not> list_all is_digit segment then Inl (NotIndex t segment) else reflect_walk P rest e
      | TDeque e \<Rightarrow> if segment = [] \<or> \<not> list_all is_digit segment then Inl (NotIndex t segment) else reflect_walk P rest e
      | TMap k v \<Rightarrow> if k = STRING then reflect_walk P rest v else Inr ()
      | TAdt a \<Rightarrow>
          (case adt (table P) a of
             Record flds \<Rightarrow>
               (let visible = filter (\<lambda>f. \<not> is_private f) flds in
                case find (\<lambda>f. fname f = segment) visible of
                  Some f \<Rightarrow> reflect_walk P rest (fty f)
                | None \<Rightarrow> Inl (NoSuchField t segment (map fname visible)))
           | Enum _ \<Rightarrow> Inr ()
           | Newtype _ \<Rightarrow> Inl (IsNewtype t))
      | TResult _ _ \<Rightarrow> Inr ()
      | _ \<Rightarrow> Inl (NoSuchField t segment []))"

definition reflect_path :: "program \<Rightarrow> ty \<Rightarrow> string \<Rightarrow> path_error + unit" where
  "reflect_path P ty path = reflect_walk P (split_at (CHR ''.'') path) ty"

fun path_message :: "program \<Rightarrow> path_error \<Rightarrow> string" where
  "path_message P (NotIndex t segment) =
     quoted (shown P t) @ '' is reached by index, and '' @ quoted segment @ '' is not one''"
| "path_message P (NoSuchField t segment []) =
     quoted (shown P t) @ '' has no fields, so it has no field '' @ quoted segment"
| "path_message P (NoSuchField t segment [only]) =
     quoted (shown P t) @ '' has no field '' @ quoted segment @ ''; its field is '' @ quoted only"
| "path_message P (NoSuchField t segment (x # y # names)) =
     quoted (shown P t) @ '' has no field '' @ quoted segment @ ''; its fields are '' @
     join '', '' (map quoted (butlast (x # y # names))) @ '' and '' @ quoted (last (x # y # names))"
| "path_message P (IsNewtype t) = quoted (shown P t) @ '' is a newtype, a single value without fields''"

subsection \<open>The rule of the language\<close>

text \<open>
  When a value of one type converts to another by shape, by the rules of the language: each field of the target
  takes the visible field of its name, or is optional; each variant has one of its name.
\<close>

definition fields_fit :: "(ty \<Rightarrow> ty \<Rightarrow> bool) \<Rightarrow> program \<Rightarrow> field list \<Rightarrow> field list \<Rightarrow> bool" where
  "fields_fit R P fs ts \<longleftrightarrow> (\<forall>f\<in>set ts. \<not> is_private f \<and>
     (\<forall>g. source_field fs (fname f) = Some g \<longrightarrow> R (fty g) (fty f)) \<and>
     (source_field fs (fname f) = None \<longrightarrow> (\<exists>t. pkind P (fty f) = TOption t)))"

definition variant_fits :: "(ty \<Rightarrow> ty \<Rightarrow> bool) \<Rightarrow> program \<Rightarrow> variant list \<Rightarrow> variant \<Rightarrow> bool" where
  "variant_fits R P ts v \<longleftrightarrow> (\<exists>w. find (\<lambda>w. vname w = vname v) ts = Some w \<and>
     (vpayload v = PUnit \<and> vpayload w = PUnit \<or>
      (\<exists>xs ys. vpayload v = PTuple xs \<and> vpayload w = PTuple ys \<and> list_all2 R xs ys) \<or>
      (\<exists>xs ys. vpayload v = PRecord xs \<and> vpayload w = PRecord ys \<and> fields_fit R P xs ys)))"

lemma fields_fit_mono [mono]: "R \<le> S \<Longrightarrow> fields_fit R P fs ts \<longrightarrow> fields_fit S P fs ts"
  by (auto simp: fields_fit_def)

lemma variant_fits_mono [mono]: "R \<le> S \<Longrightarrow> variant_fits R P ts v \<longrightarrow> variant_fits S P ts v"
  unfolding variant_fits_def using fields_fit_mono list_all2_mono by (smt (verit, best) predicate2D)


subsection \<open>Enough fuel is enough\<close>

definition more :: "(ty \<Rightarrow> ty \<Rightarrow> missing \<Rightarrow> outcome) \<Rightarrow> (ty \<Rightarrow> ty \<Rightarrow> missing \<Rightarrow> outcome) \<Rightarrow> bool" where
  "more r s \<longleftrightarrow> (\<forall>f t m x. r f t m = Some x \<longrightarrow> s f t m = Some x)"

lemma moreD: "more r s \<Longrightarrow> r f t m = Some x \<Longrightarrow> s f t m = Some x"
  by (simp add: more_def)



lemma pair_more: "more r s \<Longrightarrow> (\<lambda>(f, t). r f t) p m = Some y \<Longrightarrow> (\<lambda>(f, t). s f t) p m = Some y"
  by (cases p) (auto dest: moreD)




subsection \<open>What converts is what the rule allows\<close>


lemma parts_of_cases:
  "parts_of P a a = Equal"
  "a \<noteq> b \<Longrightarrow> pkind P b = TOption t \<Longrightarrow> parts_of P a b = Pairs [(below_option P a, t)]"
  "a \<noteq> b \<Longrightarrow> pkind P b = TMap tk tv \<Longrightarrow> pkind P a = TMap fk fv \<Longrightarrow> parts_of P a b = Pairs [(fk, tk), (fv, tv)]"
  "a \<noteq> b \<Longrightarrow> pkind P b = TResult t te \<Longrightarrow> pkind P a = TResult f fe \<Longrightarrow> parts_of P a b = Pairs [(f, t), (fe, te)]"
  "a \<noteq> b \<Longrightarrow> pkind P b = TAdt d \<Longrightarrow> pkind P a = TAdt c \<Longrightarrow> adt (table P) d = Record ts \<Longrightarrow> adt (table P) c = Record fs \<Longrightarrow>
    parts_of P a b = Records fs ts"
  "a \<noteq> b \<Longrightarrow> pkind P b = TAdt d \<Longrightarrow> pkind P a = TAdt c \<Longrightarrow> adt (table P) d = Enum ws \<Longrightarrow> adt (table P) c = Enum vs \<Longrightarrow>
    parts_of P a b = Enums vs ws"
  by (simp_all add: parts_of_def)






subsection \<open>What the rule allows converts\<close>


















subsection \<open>Two lists of the same shape\<close>

text \<open>\<open>type Near = { next: Near? }\<close> and \<open>type Far = { next: Far? }\<close>.\<close>

definition two_lists :: program where
  "two_lists = empty_program\<lparr>table := \<lparr>kinds = default_kinds @ [TAdt 0, TOption 19, TAdt 1, TOption 21],
     adts = map (\<lambda>(n, t). \<lparr>adt_name = n, adt_kind = Record [\<lparr>fname = ''next'', fty = t, is_private = False, is_secret = False\<rparr>],
       adt_instance = None, adt_secret = False\<rparr>) [(''Near'', 20), (''Far'', 22)],
     params = [], carriers = [], foreign = []\<rparr>\<rparr>"

lemma two_lists_kinds:
  "pkind two_lists 19 = TAdt 0" "pkind two_lists 20 = TOption 19" "pkind two_lists 21 = TAdt 1" "pkind two_lists 22 = TOption 21"
  "adt (table two_lists) 0 = Record [\<lparr>fname = ''next'', fty = 20, is_private = False, is_secret = False\<rparr>]"
  "adt (table two_lists) 1 = Record [\<lparr>fname = ''next'', fty = 22, is_private = False, is_secret = False\<rparr>]"
  by (simp_all add: two_lists_def kind_def default_kinds_def all_int_tys_def adt_def)

text \<open>The check of a conversion never returns for two recursive types of the same shape, such as two lists:
  with whatever fuel it is still looking, as it asks the same question again below the field.\<close>

theorem converting_a_list_never_returns: "converts n two_lists 19 21 m = None \<and> converts n two_lists 20 22 m = None"
proof (induction n arbitrary: m)
  case (Suc n)
  have "parts_of two_lists 20 22 = Pairs [(19, 21)]" by (simp add: parts_of_cases(2) two_lists_kinds below_option_def)
  moreover have "parts_of two_lists 19 21 = Records [\<lparr>fname = ''next'', fty = 20, is_private = False, is_secret = False\<rparr>]
      [\<lparr>fname = ''next'', fty = 22, is_private = False, is_secret = False\<rparr>]"
    by (rule parts_of_cases(5) [OF _ two_lists_kinds(3,1,6,5)]) simp
  ultimately show ?case using Suc
    by (simp add: convert_step_def fields_convert_def field_convert_def source_field_def)
qed simp

subsection \<open>Paths\<close>

lemma below_options_done:
  assumes "\<And>t inner. pkind P t = TOption inner \<Longrightarrow> inner < t" "t < n"
  shows "pkind P (below_options n P t) \<noteq> TOption inner"
  using assms(2)
proof (induction n arbitrary: t)
  case (Suc n)
  show ?case
  proof (cases "\<exists>i. pkind P t = TOption i")
    case True
    then obtain i where "pkind P t = TOption i" by blast
    then show ?thesis using Suc assms(1) [of t i] by simp
  qed (auto split: ty_kind.splits)
qed simp

lemma join_Cons: "join sep ((a # y) # ys) = a # join sep (y # ys)"
  by (cases ys) auto

lemma split_at_join: "join [c] (split_at c s) = s \<and> split_at c s \<noteq> []"
  by (induction s) (auto split: list.splits simp: neq_Nil_conv join_Cons)

lemma reflect_prefix: "reflect_walk P (xs @ ys) t = Inr () \<Longrightarrow> reflect_walk P xs t = Inr ()"
proof (induction xs arbitrary: t)
  case (Cons x xs)
  show ?case
    using Cons.prems Cons.IH
    by (cases "pkind P (below_options (Suc t) P t)")
      (auto simp: Let_def simp del: below_options.simps split: if_splits adt_kind.splits option.splits)
qed simp

end
