(* ===== verification/LockOrder.thy ===== *)
theory LockOrder
  imports Prelude
begin

text \<open>
  Locks taken in orders that can deadlock, \<^verbatim>\<open>crates/tondo-runtime/src/lockorder.rs\<close>: each lock a task takes while
  it holds another is an edge, and an edge that closes a cycle is said once. Places are left as they
  come; the mode of the environment and where the text goes are not modelled.
\<close>

subsection \<open>The graph\<close>

type_synonym lock = nat
type_synonym place = string
type_synonym way = "(place \<times> place) list"

record graph =
  after :: "(lock \<times> (lock \<times> place \<times> place) list) list"
  said :: "(lock \<times> lock) list"
  found :: "(place \<times> place \<times> way) list"

definition no_graph :: graph where
  "no_graph = \<lparr>after = [], said = [], found = []\<rparr>"

definition edges_of :: "graph \<Rightarrow> lock \<Rightarrow> (lock \<times> place \<times> place) list" where
  "edges_of g l = (case map_of (after g) l of Some es \<Rightarrow> es | None \<Rightarrow> [])"

text \<open>\<open>graph.after.entry(lock).or_default().push(edge)\<close>.\<close>

fun push_edge :: "lock \<Rightarrow> 'a \<Rightarrow> (lock \<times> 'a list) list \<Rightarrow> (lock \<times> 'a list) list" where
  "push_edge l e [] = [(l, [e])]"
| "push_edge l e ((k, es) # rest) = (if k = l then (k, es @ [e]) # rest else (k, es) # push_edge l e rest)"

text \<open>
  \<open>path\<close>: the edges of a way between two locks, in words. The worklist is a stack, and a lock is looked
  at once; the fuel counts the turns, of which there is at most one per edge besides the first and the last.
\<close>

definition pushed :: "graph \<Rightarrow> lock \<Rightarrow> way \<Rightarrow> (lock \<times> way) list" where
  "pushed g lock way = rev (map (\<lambda>(x, p, q). (x, way @ [(p, q)])) (edges_of g lock))"

fun path_loop :: "nat \<Rightarrow> graph \<Rightarrow> lock \<Rightarrow> lock list \<Rightarrow> (lock \<times> way) list \<Rightarrow> way option option" where
  "path_loop 0 g to seen left = None"
| "path_loop (Suc n) g to seen [] = Some None"
| "path_loop (Suc n) g to seen ((lock, way) # left) =
     (if lock = to then Some (Some way)
      else if lock \<in> set seen then path_loop n g to seen left
      else path_loop n g to (lock # seen) (pushed g lock way @ left))"

definition edge_count :: "graph \<Rightarrow> nat" where
  "edge_count g = sum_list (map (\<lambda>(_, es). length es) (after g))"

definition path :: "graph \<Rightarrow> lock \<Rightarrow> lock \<Rightarrow> way option" where
  "path g from to = (case path_loop (edge_count g + 2) g to [] [(from, [])] of Some r \<Rightarrow> r | None \<Rightarrow> None)"

text \<open>\<open>taking\<close>: the text of the last cycle it finds, if any, and the graph.\<close>

fun taking :: "lock \<Rightarrow> bool \<Rightarrow> place \<Rightarrow> (lock \<times> bool \<times> place) list \<Rightarrow> graph \<Rightarrow> (place \<times> place \<times> way) option \<times> graph" where
  "taking object exclusive location [] g = (None, g)"
| "taking object exclusive location ((lock, alone, taken) # held) g =
     (if lock = object \<or> \<not> (alone \<or> exclusive) \<or> list_ex (\<lambda>e. fst e = object) (edges_of g lock)
      then taking object exclusive location held g
      else
        let way = path g object lock;
            g1 = g\<lparr>after := push_edge lock (object, taken, location) (after g)\<rparr>
        in case way of
             Some w \<Rightarrow>
               (if (lock, object) \<in> set (said g) then taking object exclusive location held g1
                else
                  let text = (taken, location, w);
                      (later, g2) = taking object exclusive location held
                        (g1\<lparr>said := (lock, object) # said g, found := found g @ [text]\<rparr>)
                  in (case later of Some t \<Rightarrow> Some t | None \<Rightarrow> Some text, g2))
           | None \<Rightarrow> taking object exclusive location held g1)"

text \<open>A lock goes: another may come at its address.\<close>

definition forget :: "lock \<Rightarrow> graph \<Rightarrow> graph" where
  "forget object g =
     g\<lparr>after := map (\<lambda>(l, es). (l, filter (\<lambda>e. fst e \<noteq> object) es)) (filter (\<lambda>(l, _). l \<noteq> object) (after g))\<rparr>"

text \<open>What the tasks do, one after the other: the graph is behind a mutex.\<close>

datatype event = Taking lock bool place "(lock \<times> bool \<times> place) list" | Forget lock

fun act :: "event \<Rightarrow> graph \<Rightarrow> graph" where
  "act (Taking l x p held) g = snd (taking l x p held g)"
| "act (Forget l) g = forget l g"

definition run :: "event list \<Rightarrow> graph" where
  "run es = fold act es no_graph"

subsection \<open>Ways\<close>

definition order :: "graph \<Rightarrow> (lock \<times> lock) set" where
  "order g = {(a, b). b \<in> fst ` set (edges_of g a)}"

text \<open>The edges out of locks that were not looked at.\<close>

definition fresh_edges :: "graph \<Rightarrow> lock list \<Rightarrow> nat" where
  "fresh_edges g seen = sum_list (map (\<lambda>(l, es). if l \<in> set seen then 0 else length es) (after g))"

lemma fresh_edges_seen:
  "l \<notin> set seen \<Longrightarrow> fresh_edges g (l # seen) + length (edges_of g l) \<le> fresh_edges g seen"
proof -
  assume l: "l \<notin> set seen"
  have "sum_list (map (\<lambda>(k, es). if k \<in> set (l # seen) then 0 else length es) xs) +
      length (case map_of xs l of Some es \<Rightarrow> es | None \<Rightarrow> []) \<le>
    sum_list (map (\<lambda>(k, es). if k \<in> set seen then 0 else length es) xs)" for xs :: "(lock \<times> (lock \<times> place \<times> place) list) list"
  proof (induction xs)
    case (Cons x xs)
    have "sum_list (map (\<lambda>(k, es). if k \<in> set (l # seen) then 0 else length es) xs) \<le>
        sum_list (map (\<lambda>(k, es). if k \<in> set seen then 0 else length es) xs)"
      by (rule sum_list_mono) auto
    then show ?case using Cons l by (cases x) auto
  qed simp
  then show ?thesis by (simp add: fresh_edges_def edges_of_def)
qed

lemma pushed_order: "fst ` set (pushed g lock way) = order g `` {lock}"
  by (force simp: pushed_def order_def)

lemma length_pushed [simp]: "length (pushed g lock way) = length (edges_of g lock)"
  by (simp add: pushed_def)

lemma path_loop_ends: "length left + fresh_edges g seen < n \<Longrightarrow> path_loop n g to seen left \<noteq> None"
proof (induction n g to seen left rule: path_loop.induct)
  case (3 n g to seen lock way left)
  show ?case
  proof (cases "lock = to \<or> lock \<in> set seen")
    case False
    then show ?thesis using 3 fresh_edges_seen [of lock seen g] by auto
  qed (use 3 in auto)
qed auto

lemma path_loop_sound:
  "path_loop n g to seen left = Some (Some w) \<Longrightarrow> \<exists>l\<in>fst ` set left. (l, to) \<in> (order g)\<^sup>*"
proof (induction n g to seen left rule: path_loop.induct)
  case (3 n g to seen lock way left)
  show ?case
  proof (cases "lock = to \<or> lock \<in> set seen")
    case False
    then obtain l where l: "(l, to) \<in> (order g)\<^sup>*" "l \<in> fst ` set (pushed g lock way @ left)" using 3 by auto
    then have "l \<in> fst ` set left \<or> (lock, l) \<in> order g" using pushed_order [of g lock way] by auto
    then show ?thesis using l(1) by (auto intro: converse_rtrancl_into_rtrancl)
  qed (use 3 in \<open>auto split: if_splits\<close>)
qed auto

text \<open>When there is no way, what was looked at is closed and does not hold the target.\<close>

lemma path_loop_complete:
  assumes "path_loop n g to seen left = Some None" "to \<notin> set seen" "order g `` set seen \<subseteq> set seen \<union> fst ` set left"
  shows "\<exists>S. set seen \<union> fst ` set left \<subseteq> S \<and> order g `` S \<subseteq> S \<and> to \<notin> S"
  using assms
proof (induction n g to seen left rule: path_loop.induct)
  case (2 n g to seen)
  then show ?case by (intro exI [of _ "set seen"]) auto
next
  case (3 n g to seen lock way left)
  then have "lock \<noteq> to" by (auto split: if_splits)
  show ?case
  proof (cases "lock \<in> set seen")
    case True
    then have "\<exists>S. set seen \<union> fst ` set left \<subseteq> S \<and> order g `` S \<subseteq> S \<and> to \<notin> S"
      using "3.prems" \<open>lock \<noteq> to\<close> True by (intro "3.IH"(1) [OF \<open>lock \<noteq> to\<close> True]) (simp_all add: insert_absorb)
    then obtain S where "set seen \<union> fst ` set left \<subseteq> S" "order g `` S \<subseteq> S" "to \<notin> S" by blast
    then show ?thesis using True by (intro exI [of _ S]) auto
  next
    case False
    have f: "fst ` set (pushed g lock way @ left) = order g `` {lock} \<union> fst ` set left"
      using pushed_order [of g lock way] by auto
    have "order g `` set (lock # seen) = order g `` {lock} \<union> order g `` set seen" by auto
    then have "order g `` set (lock # seen) \<subseteq> set (lock # seen) \<union> fst ` set (pushed g lock way @ left)"
      using "3.prems"(3) unfolding f by auto
    then have "\<exists>S. set (lock # seen) \<union> fst ` set (pushed g lock way @ left) \<subseteq> S \<and> order g `` S \<subseteq> S \<and> to \<notin> S"
      using "3.prems" \<open>lock \<noteq> to\<close> False by (intro "3.IH"(2) [OF \<open>lock \<noteq> to\<close> False]) simp_all
    then obtain S where "set (lock # seen) \<union> fst ` set (pushed g lock way @ left) \<subseteq> S" "order g `` S \<subseteq> S" "to \<notin> S" by blast
    then show ?thesis by (intro exI [of _ S]) auto
  qed
qed simp

lemma path_decides: "path g a b = None \<longleftrightarrow> (a, b) \<notin> (order g)\<^sup>*"
proof -
  have "fresh_edges g [] = edge_count g" by (simp add: fresh_edges_def edge_count_def)
  then obtain r where r: "path_loop (edge_count g + 2) g b [] [(a, [])] = Some r"
    using path_loop_ends [of "[(a, [])]" g "[]" "edge_count g + 2" b] by auto
  show ?thesis
  proof (cases r)
    case None
    then obtain S where "a \<in> S" "order g `` S \<subseteq> S" "b \<notin> S" using path_loop_complete [OF r [unfolded None]] by auto
    then have "(a, b) \<notin> (order g)\<^sup>*" using Image_closed_trancl by blast
    then show ?thesis using r None by (simp add: path_def)
  next
    case (Some w)
    then show ?thesis using path_loop_sound [OF r [unfolded Some]] r by (simp add: path_def)
  qed
qed

subsection \<open>What taking a lock does to the order\<close>

definition ordered :: "lock \<Rightarrow> bool \<Rightarrow> (lock \<times> bool \<times> place) list \<Rightarrow> (lock \<times> lock) set" where
  "ordered object exclusive held = {(l, object) |l alone p. (l, alone, p) \<in> set held \<and> l \<noteq> object \<and> (alone \<or> exclusive)}"

lemma edges_push:
  "edges_of (g\<lparr>after := push_edge l e (after g)\<rparr>) k = (if k = l then edges_of g l @ [e] else edges_of g k)"
proof -
  have "map_of (push_edge l e xs) k = (if k = l then Some ((case map_of xs l of Some es \<Rightarrow> es | None \<Rightarrow> []) @ [e]) else map_of xs k)"
    for xs :: "(lock \<times> (lock \<times> place \<times> place) list) list"
    by (induction l e xs rule: push_edge.induct) auto
  then show ?thesis by (simp add: edges_of_def)
qed

lemma order_push: "order (g\<lparr>after := push_edge l (x, p, q) (after g)\<rparr>) = insert (l, x) (order g)"
  unfolding order_def edges_push by (auto split: if_splits)

lemma order_same [simp]: "order (g\<lparr>said := s\<rparr>) = order g" "order (g\<lparr>found := f\<rparr>) = order g"
  by (auto simp: order_def edges_of_def)

lemma ordered_Cons:
  "ordered object x ((l, alone, p) # held) = (if l \<noteq> object \<and> (alone \<or> x) then insert (l, object) (ordered object x held) else ordered object x held)"
  by (auto simp: ordered_def)

text \<open>The graph that the rest of the held locks is looked at with.\<close>

definition noted :: "lock \<Rightarrow> place \<Rightarrow> lock \<Rightarrow> place \<Rightarrow> graph \<Rightarrow> graph" where
  "noted object location l taken g =
     (let g1 = g\<lparr>after := push_edge l (object, taken, location) (after g)\<rparr> in
      case path g object l of
        Some w \<Rightarrow> if (l, object) \<in> set (said g) then g1
          else g1\<lparr>said := (l, object) # said g, found := found g @ [(taken, location, w)]\<rparr>
      | None \<Rightarrow> g1)"

lemma taking_Cons:
  "snd (taking object x location ((l, alone, taken) # held) g) = snd (taking object x location held
     (if l = object \<or> \<not> (alone \<or> x) \<or> (l, object) \<in> order g then g else noted object location l taken g))"
proof -
  have "list_ex (\<lambda>e. fst e = object) (edges_of g l) \<longleftrightarrow> (l, object) \<in> order g"
    by (force simp: list_ex_iff order_def)
  then show ?thesis by (auto simp: noted_def Let_def split: option.splits prod.splits)
qed

lemma order_noted: "order (noted object location l taken g) = insert (l, object) (order g)"
  by (simp add: noted_def Let_def order_push split: option.splits)

lemma taking_order: "order (snd (taking object x p held g)) = order g \<union> ordered object x held"
proof (induction held arbitrary: g)
  case (Cons h held)
  obtain l alone taken where h: "h = (l, alone, taken)" by (cases h)
  show ?case unfolding h taking_Cons Cons.IH by (auto simp: order_noted ordered_Cons)
qed (simp add: ordered_def)

definition tells :: "graph \<Rightarrow> bool" where
  "tells g \<longleftrightarrow> (found g = [] \<longrightarrow> said g = [] \<and> acyclic (order g))"

lemma tells_noted: "tells g \<Longrightarrow> l \<noteq> object \<Longrightarrow> tells (noted object location l taken g)"
proof -
  assume g: "tells g" and l: "l \<noteq> object"
  show ?thesis
  proof (cases "path g object l")
    case None
    then have "(object, l) \<notin> (order g)\<^sup>*" by (simp add: path_decides)
    then have "acyclic (order g) \<Longrightarrow> acyclic (insert (l, object) (order g))" by (simp add: acyclic_insert)
    then show ?thesis using g None by (auto simp: tells_def noted_def Let_def order_push)
  next
    case (Some w)
    then show ?thesis using g by (auto simp: tells_def noted_def Let_def)
  qed
qed

lemma found_noted:
  assumes "found (noted object location l taken g) \<noteq> []"
  shows "found g \<noteq> [] \<or> \<not> acyclic (insert (l, object) (order g))"
proof (cases "path g object l")
  case (Some w)
  then have "(object, l) \<in> (order g)\<^sup>*" using path_decides [of g object l] by simp
  then have "\<not> acyclic (insert (l, object) (order g))" by (simp add: acyclic_insert)
  then show ?thesis by blast
qed (use assms in \<open>simp add: noted_def Let_def\<close>)

lemma tells_taking: "tells g \<Longrightarrow> tells (snd (taking object x p held g))"
proof (induction held arbitrary: g)
  case (Cons h held)
  obtain l alone taken where h: "h = (l, alone, taken)" by (cases h)
  show ?case unfolding h taking_Cons using Cons tells_noted by auto
qed simp

lemma found_taking:
  "found (snd (taking object x p held g)) \<noteq> [] \<Longrightarrow> found g \<noteq> [] \<or> \<not> acyclic (order (snd (taking object x p held g)))"
proof (induction held arbitrary: g)
  case (Cons h held)
  obtain l alone taken where h: "h = (l, alone, taken)" by (cases h)
  let ?g = "if l = object \<or> \<not> (alone \<or> x) \<or> (l, object) \<in> order g then g else noted object p l taken g"
  have "found ?g \<noteq> [] \<or> \<not> acyclic (order (snd (taking object x p held ?g)))"
    using Cons unfolding h taking_Cons by blast
  moreover have "found ?g \<noteq> [] \<Longrightarrow> found g \<noteq> [] \<or> \<not> acyclic (order ?g)"
    using found_noted [of object p l taken g] by (auto simp: order_noted split: if_splits)
  moreover have "order ?g \<subseteq> order (snd (taking object x p held ?g))" unfolding taking_order by blast
  ultimately show ?case unfolding h taking_Cons using acyclic_subset by blast
qed simp

lemma order_forget: "order (forget l g) \<subseteq> order g"
proof -
  have "map_of (map (\<lambda>(k, es). (k, filter (\<lambda>e. fst e \<noteq> l) es)) (filter (\<lambda>(k, _). k \<noteq> l) xs)) a =
      (if a = l then None else map_option (filter (\<lambda>e. fst e \<noteq> l)) (map_of xs a))"
    for xs :: "(lock \<times> (lock \<times> place \<times> place) list) list" and a
    by (induction xs) auto
  then have "edges_of (forget l g) a = (if a = l then [] else filter (\<lambda>e. fst e \<noteq> l) (edges_of g a))" for a
    by (simp add: edges_of_def forget_def split: option.splits)
  then show ?thesis by (auto simp: order_def split: if_splits)
qed

subsection \<open>Every cycle is said\<close>

text \<open>Which locks were taken while which were held, in a way that can wait.\<close>

fun taken_in :: "event \<Rightarrow> (lock \<times> lock) set" where
  "taken_in (Taking l x p held) = ordered l x held"
| "taken_in (Forget l) = {}"

definition taken_order :: "event list \<Rightarrow> (lock \<times> lock) set" where
  "taken_order es = (\<Union>e\<in>set es. taken_in e)"

fun keeps :: "event \<Rightarrow> bool" where
  "keeps (Forget _) = False" | "keeps _ = True"

lemma run_snoc: "run (es @ [e]) = act e (run es)"
  by (simp add: run_def)

lemma taken_order_snoc: "taken_order (es @ [e]) = taken_order es \<union> taken_in e"
  by (auto simp: taken_order_def)

lemma run_order: "order (run es) \<subseteq> taken_order es \<and> (list_all keeps es \<longrightarrow> order (run es) = taken_order es)"
proof (induction es rule: rev_induct)
  case Nil
  show ?case by (simp add: run_def no_graph_def order_def edges_of_def taken_order_def)
next
  case (snoc e es)
  show ?case
  proof (cases e)
    case (Forget l)
    then show ?thesis using snoc order_forget [of l "run es"] by (auto simp: run_snoc taken_order_snoc simp del: order_same)
  next
    case (Taking l x p held)
    then show ?thesis using snoc by (auto simp: run_snoc taken_order_snoc taking_order)
  qed
qed

lemma run_tells: "tells (run es)"
proof (induction es rule: rev_induct)
  case Nil
  show ?case by (simp add: run_def no_graph_def tells_def order_def edges_of_def acyclic_def)
next
  case (snoc e es)
  show ?case
  proof (cases e)
    case (Forget l)
    then show ?thesis using snoc acyclic_subset [OF _ order_forget] by (auto simp: run_snoc tells_def forget_def)
  qed (use snoc tells_taking in \<open>simp add: run_snoc\<close>)
qed

lemma run_found: "found (run es) \<noteq> [] \<Longrightarrow> \<not> acyclic (taken_order es)"
proof (induction es rule: rev_induct)
  case Nil
  then show ?case by (simp add: run_def no_graph_def)
next
  case (snoc e es)
  have sub: "taken_order es \<subseteq> taken_order (es @ [e])" "order (run (es @ [e])) \<subseteq> taken_order (es @ [e])"
    using run_order [of "es @ [e]"] by (simp_all add: taken_order_snoc)
  have "found (run es) \<noteq> [] \<or> \<not> acyclic (order (run (es @ [e])))"
    using snoc.prems found_taking by (cases e) (auto simp: run_snoc forget_def)
  then show ?case using snoc.IH sub acyclic_subset by blast
qed

text \<open>C30: Whatever locks tasks take while they hold which, in any order, a cycle is reported exactly when there is
  one, so a deadlock of tasks that each wait for a lock the next one holds was reported before: every
  report is about a cycle, and while no lock goes away every cycle is reported. The search for the way ends.\<close>

theorem lock_cycles_are_reported:
  assumes "list_all keeps es"
  shows "found (run es) \<noteq> [] \<longleftrightarrow> \<not> acyclic (taken_order es)"
proof -
  have "order (run es) = taken_order es" using run_order assms by blast
  then show ?thesis using run_tells [of es] run_found [of es] by (auto simp: tells_def)
qed

theorem lock_cycles_are_reported_witness:
  "\<not> acyclic (taken_order [Taking 2 True ''b'' [(1, True, ''a'')], Taking 1 True ''d'' [(2, True, ''c'')]]) \<and>
    found (run [Taking 2 True ''b'' [(1, True, ''a'')], Taking 1 True ''d'' [(2, True, ''c'')]]) = [(''c'', ''d'', [(''a'', ''b'')])]"
proof -
  have r: "found (run [Taking 2 True ''b'' [(1, True, ''a'')], Taking 1 True ''d'' [(2, True, ''c'')]]) = [(''c'', ''d'', [(''a'', ''b'')])]"
    by code_simp
  then show ?thesis
    using lock_cycles_are_reported [of "[Taking 2 True ''b'' [(1, True, ''a'')], Taking 1 True ''d'' [(2, True, ''c'')]]"] by simp
qed

end
