(* ===== verification/Hash.thy ===== *)
theory Hash
  imports Prelude
begin

unbundle bit_operations_syntax

text \<open>
  The hashes of the compiler, \<^verbatim>\<open>crates/tondo/src/hash.rs\<close>: SHA-256 on bytes, as the standard has it, and the fast
  hash of its maps.
\<close>

subsection \<open>SHA-256\<close>

definition K :: "u32 list" where
  "K = concat [
     [0x428a2f98, 0x71374491, 0xb5c0fbcf, 0xe9b5dba5, 0x3956c25b, 0x59f111f1, 0x923f82a4, 0xab1c5ed5, 0xd807aa98],
     [0x12835b01, 0x243185be, 0x550c7dc3, 0x72be5d74, 0x80deb1fe, 0x9bdc06a7, 0xc19bf174, 0xe49b69c1, 0xefbe4786],
     [0x0fc19dc6, 0x240ca1cc, 0x2de92c6f, 0x4a7484aa, 0x5cb0a9dc, 0x76f988da, 0x983e5152, 0xa831c66d, 0xb00327c8],
     [0xbf597fc7, 0xc6e00bf3, 0xd5a79147, 0x06ca6351, 0x14292967, 0x27b70a85, 0x2e1b2138, 0x4d2c6dfc, 0x53380d13],
     [0x650a7354, 0x766a0abb, 0x81c2c92e, 0x92722c85, 0xa2bfe8a1, 0xa81a664b, 0xc24b8b70, 0xc76c51a3, 0xd192e819],
     [0xd6990624, 0xf40e3585, 0x106aa070, 0x19a4c116, 0x1e376c08, 0x2748774c, 0x34b0bcb5, 0x391c0cb3, 0x4ed8aa4a],
     [0x5b9cca4f, 0x682e6ff3, 0x748f82ee, 0x78a5636f, 0x84c87814, 0x8cc70208, 0x90befffa, 0xa4506ceb, 0xbef9a3f7],
     [0xc67178f2]]"

definition initial :: "u32 list" where
  "initial = [0x6a09e667, 0xbb67ae85, 0x3c6ef372, 0xa54ff53a, 0x510e527f, 0x9b05688c,
     0x1f83d9ab, 0x5be0cd19]"

definition rotate_right :: "nat \<Rightarrow> u32 \<Rightarrow> u32" where
  "rotate_right n x = drop_bit n x OR push_bit (32 - n) x"

function pad_zeros :: "u8 list \<Rightarrow> u8 list" where
  "pad_zeros m = (if length m mod 64 = 56 then m else pad_zeros (m @ [0]))"
  by pat_completeness auto
termination
proof (relation "measure (\<lambda>m. (120 - length m mod 64) mod 64)")
  fix m :: "u8 list"
  assume "length m mod 64 \<noteq> 56"
  moreover have "(120 - k) mod 64 = (if k \<le> 56 then 56 - k else 120 - k)" if "k < 64" for k :: nat
    using that by (auto simp: mod_if)
  moreover have "length m mod 64 < 64" by simp
  ultimately show "(m @ [0], m) \<in> measure (\<lambda>m. (120 - length m mod 64) mod 64)"
    by (auto simp: mod_Suc)
qed simp

declare pad_zeros.simps [simp del]

definition be64 :: "u64 \<Rightarrow> u8 list" where
  "be64 n = map (\<lambda>i. ucast (drop_bit (8 * i) n)) [7, 6, 5, 4, 3, 2, 1, 0]"

definition padded :: "u8 list \<Rightarrow> u8 list" where
  "padded data = pad_zeros (data @ [0x80]) @ be64 (of_nat (length data) * 8)"

text \<open>\<open>u32::from_be_bytes\<close>.\<close>

fun from_be :: "u8 list \<Rightarrow> u32" where
  "from_be [a, b, c, d] = push_bit 24 (ucast a) OR push_bit 16 (ucast b) OR push_bit 8 (ucast c) OR ucast d"
| "from_be _ = 0"

fun schedule :: "nat \<Rightarrow> u32 list \<Rightarrow> u32 list" where
  "schedule 0 w = w"
| "schedule (Suc k) w =
     (let i = length w;
          s0 = rotate_right 7 (w ! (i - 15)) XOR rotate_right 18 (w ! (i - 15)) XOR drop_bit 3 (w ! (i - 15));
          s1 = rotate_right 17 (w ! (i - 2)) XOR rotate_right 19 (w ! (i - 2)) XOR drop_bit 10 (w ! (i - 2))
      in schedule k (w @ [w ! (i - 16) + s0 + w ! (i - 7) + s1]))"

type_synonym vars = "u32 \<times> u32 \<times> u32 \<times> u32 \<times> u32 \<times> u32 \<times> u32 \<times> u32"

fun sha_round :: "u32 \<times> u32 \<Rightarrow> vars \<Rightarrow> vars" where
  "sha_round (k, w) (a, b, c, d, e, f, g, h) =
     (let s1 = rotate_right 6 e XOR rotate_right 11 e XOR rotate_right 25 e;
          choice = (e AND f) XOR (NOT e AND g);
          t1 = h + s1 + choice + k + w;
          s0 = rotate_right 2 a XOR rotate_right 13 a XOR rotate_right 22 a;
          majority = (a AND b) XOR (a AND c) XOR (b AND c);
          t2 = s0 + majority
      in (t1 + t2, a, b, c, d + t1, e, f, g))"

definition compress :: "u8 list \<Rightarrow> u32 list \<Rightarrow> u32 list" where
  "compress chunk h =
     (let w = schedule 48 (map from_be (chunks 4 chunk));
          (a, b, c, d, e, f, g, hh) = fold sha_round (zip K w) (h ! 0, h ! 1, h ! 2, h ! 3, h ! 4, h ! 5, h ! 6, h ! 7)
      in map2 (+) h [a, b, c, d, e, f, g, hh])"

definition sha256 :: "u8 list \<Rightarrow> u8 list" where
  "sha256 data = concat (map be32 (fold compress (chunks 64 (padded data)) initial))"

definition hex_digit :: "nat \<Rightarrow> char" where
  "hex_digit n = ''0123456789abcdef'' ! n"

definition sha256_hex :: "u8 list \<Rightarrow> string" where
  "sha256_hex data = concat (map (\<lambda>b. [hex_digit (unat b div 16), hex_digit (unat b mod 16)]) (sha256 data))"

subsection \<open>The fast hash\<close>

definition fast_add :: "u64 \<Rightarrow> u64 \<Rightarrow> u64" where
  "fast_add state word = ((push_bit 5 state OR drop_bit 59 state) XOR word) * 0x517cc1b727220a95"

definition from_le :: "u8 list \<Rightarrow> u64" where
  "from_le bs = foldr (\<lambda>b n. ucast b OR push_bit 8 n) bs 0"

text \<open>\<open>write\<close>: words of eight bytes, and the rest with zeros.\<close>

definition fast_write :: "u64 \<Rightarrow> u8 list \<Rightarrow> u64" where
  "fast_write state bs = fold (\<lambda>c s. fast_add s (from_le c)) (chunks 8 bs) state"

subsection \<open>Padding\<close>

lemma pad_zeros_replicate: "\<exists>n. pad_zeros m = m @ replicate n 0 \<and> length (pad_zeros m) mod 64 = 56"
proof (induction m rule: pad_zeros.induct)
  case (1 m)
  show ?case
  proof (cases "length m mod 64 = 56")
    case True
    then show ?thesis by (subst (1 2) pad_zeros.simps) (auto intro: exI [of _ 0])
  next
    case False
    then obtain n where "pad_zeros (m @ [0]) = (m @ [0]) @ replicate n 0" "length (pad_zeros (m @ [0])) mod 64 = 56"
      using 1 by blast
    then show ?thesis using False by (subst (1 2) pad_zeros.simps) (auto intro: exI [of _ "Suc n"])
  qed
qed

lemma be64_inj: "be64 x = be64 y \<Longrightarrow> x = y"
proof (rule bit_word_eqI)
  fix n assume e: "be64 x = be64 y" and n: "n < LENGTH(64)"
  have "n div 8 \<in> {..<8}" using n by auto
  then have "n div 8 \<in> set [7, 6, 5, 4, 3, 2, 1, 0]" by (simp add: lessThan_nat_numeral)
  then have "(ucast (drop_bit (8 * (n div 8)) x) :: u8) = ucast (drop_bit (8 * (n div 8)) y)"
    using e unfolding be64_def by (meson map_eq_conv)
  then have "bit (ucast (drop_bit (8 * (n div 8)) x) :: u8) (n mod 8) = bit (ucast (drop_bit (8 * (n div 8)) y) :: u8) (n mod 8)" by simp
  then show "bit x n = bit y n" using n by (simp add: bit_simps)
qed

lemma length_be64 [simp]: "length (be64 n) = 8"
  by (simp add: be64_def)

lemma padded_split: "\<exists>n. padded d = (d @ [0x80] @ replicate n 0) @ be64 (of_nat (length d) * 8) \<and> length (padded d) mod 64 = 0"
proof -
  obtain n where n: "pad_zeros (d @ [0x80]) = (d @ [0x80]) @ replicate n 0" "length (pad_zeros (d @ [0x80])) mod 64 = 56"
    using pad_zeros_replicate by blast
  have "x mod 64 = 56 \<Longrightarrow> (x + 8) mod 64 = 0" for x :: nat by presburger
  from this [OF n(2)] have "length (padded d) mod 64 = 0" unfolding padded_def by simp
  then show ?thesis using n(1) by (intro exI [of _ n]) (simp add: padded_def)
qed

lemma length_words: "of_nat m * 8 = (of_nat n * 8 :: u64) \<Longrightarrow> m < 2 ^ 61 \<Longrightarrow> n < 2 ^ 61 \<Longrightarrow> m = n"
proof -
  assume "of_nat m * 8 = (of_nat n * 8 :: u64)" "m < 2 ^ 61" "n < 2 ^ 61"
  then have "unat (of_nat (m * 8) :: u64) = unat (of_nat (n * 8) :: u64)" "m * 8 < 2 ^ 64" "n * 8 < 2 ^ 64" by simp_all
  then have "m * 8 = n * 8" unfolding unat_of_nat by simp
  then show "m = n" by simp
qed

text \<open>Padding for SHA-256 makes whole blocks and loses nothing: messages below \<open>2 ^ 61\<close> bytes have the same
  padded form only when they are the same, and a digest has 32 bytes.\<close>

theorem sha256_padding:
  assumes "length d < 2 ^ 61" "length e < 2 ^ 61"
  shows "length (padded d) mod 64 = 0 \<and> (padded d = padded e) = (d = e) \<and> length (sha256 d) = 32"
proof -
  obtain m n where p: "padded d = (d @ [0x80] @ replicate m 0) @ be64 (of_nat (length d) * 8)"
    "padded e = (e @ [0x80] @ replicate n 0) @ be64 (of_nat (length e) * 8)" "length (padded d) mod 64 = 0"
    using padded_split by metis
  have "d = e" if eq: "padded d = padded e"
  proof -
    have "be64 (of_nat (length d) * 8) = be64 (of_nat (length e) * 8)" using eq unfolding p(1,2) by (metis append_eq_append_conv length_be64)
    then have "length d = length e" using length_words be64_inj assms by blast
    then show ?thesis using eq unfolding p(1,2) by simp
  qed
  moreover have "length (compress c h) = length h" if "length h \<le> 8" for c h using that by (simp add: compress_def Let_def split: prod.splits)
  then have "length h = 8 \<Longrightarrow> length (fold compress cs h) = 8" for cs h by (induction cs arbitrary: h) auto
  then have "length (fold compress (chunks 64 (padded d)) initial) = 8" by (simp add: initial_def)
  then have "length (sha256 d) = 32"
    by (simp add: sha256_def length_concat be32_def o_def sum_list_triv)
  ultimately show ?thesis using p(3) by blast
qed

theorem sha256_padding_witness:
  "padded (bytes ''abc'') \<noteq> padded (bytes ''abcd'') \<and> length (sha256 (bytes ''abc'')) = 32"
  using sha256_padding [of "bytes ''abc''" "bytes ''abcd''"] by (simp add: bytes_def)

end
