(* ===== verification/Toml.thy ===== *)
theory Toml
  imports Prelude
begin

text \<open>
  The part of TOML that the manifests use, \<^verbatim>\<open>crates/tondo/src/toml.rs\<close>: documents as lists of scalar values, tables
  with the line of each key, and the errors with theirs. The recursion into arrays and inline tables
  has fuel, of which two for each character are enough (\<open>parse_value_returns\<close>).
\<close>

subsection \<open>Text\<close>

definition white :: "scalar \<Rightarrow> bool" where
  "white c \<longleftrightarrow> 9 \<le> c \<and> c \<le> 13 \<or> c \<in> {32, 0x85, 0xA0, 0x1680, 0x2028, 0x2029, 0x202F, 0x205F, 0x3000} \<or>
     0x2000 \<le> c \<and> c \<le> 0x200A"

definition trim_start :: "ustr \<Rightarrow> ustr" where
  "trim_start = dropWhile white"

definition trim :: "ustr \<Rightarrow> ustr" where
  "trim s = rev (dropWhile white (rev (trim_start s)))"

definition strip_prefix :: "ustr \<Rightarrow> ustr \<Rightarrow> ustr option" where
  "strip_prefix p s = (if take (length p) s = p then Some (drop (length p) s) else None)"

definition strip_suffix :: "ustr \<Rightarrow> ustr \<Rightarrow> ustr option" where
  "strip_suffix p s = map_option rev (strip_prefix (rev p) (rev s))"

fun split_once :: "scalar \<Rightarrow> ustr \<Rightarrow> (ustr \<times> ustr) option" where
  "split_once c [] = None"
| "split_once c (x # xs) = (if x = c then Some ([], xs) else map_option (\<lambda>(a, b). (x # a, b)) (split_once c xs))"

text \<open>\<open>str::lines\<close>: a line ends with a newline or a carriage return and a newline.\<close>

definition no_cr :: "ustr \<Rightarrow> ustr" where
  "no_cr s = (if s \<noteq> [] \<and> last s = 13 then butlast s else s)"

fun lines_from :: "ustr \<Rightarrow> ustr \<Rightarrow> ustr list" where
  "lines_from cur [] = (if cur = [] then [] else [cur])"
| "lines_from cur (c # cs) = (if c = 10 then no_cr cur # lines_from [] cs else lines_from (cur @ [c]) cs)"

definition text_lines :: "ustr \<Rightarrow> ustr list" where
  "text_lines = lines_from []"

subsection \<open>Values\<close>

datatype toml_value = VString ustr | VInteger int | VTable "(ustr \<times> toml_value) list" | VArray "toml_value list"

datatype toml_error =
  HeaderTwice ustr | ExpectedKeyValue | NotAKey ustr | Unexpected ustr | KeyTwice ustr
| UnknownEscape | Unterminated | ArraySeparator | ExpectedInline | InlineSeparator | Unsupported ustr

fun strip_loop :: "bool \<Rightarrow> bool \<Rightarrow> ustr \<Rightarrow> ustr" where
  "strip_loop q e [] = []"
| "strip_loop q e (c # cs) =
     (if q then c # (if e then strip_loop True False cs
                     else if c = 92 then strip_loop True True cs
                     else strip_loop (c \<noteq> 34) False cs)
      else if c = 34 then c # strip_loop True e cs
      else if c = 35 then []
      else c # strip_loop False e cs)"

definition strip_comment :: "ustr \<Rightarrow> ustr" where
  "strip_comment = strip_loop False False"

definition key_char :: "scalar \<Rightarrow> bool" where
  "key_char c \<longleftrightarrow> 48 \<le> c \<and> c \<le> 57 \<or> 65 \<le> c \<and> c \<le> 90 \<or> 97 \<le> c \<and> c \<le> 122 \<or> c = 95 \<or> c = 45"

definition bare_key :: "ustr \<Rightarrow> ustr option" where
  "bare_key k = (if k \<noteq> [] \<and> list_all key_char k then Some k else None)"

fun read_string :: "ustr \<Rightarrow> ustr \<Rightarrow> toml_error + toml_value \<times> ustr" where
  "read_string [] v = Inl Unterminated"
| "read_string (c # cs) v =
     (if c = 34 then Inr (VString v, cs)
      else if c = 92 then
        (case cs of
           [] \<Rightarrow> Inl UnknownEscape
         | d # ds \<Rightarrow>
             if d = 34 \<or> d = 92 then read_string ds (v @ [d])
             else if d = 110 then read_string ds (v @ [10])
             else if d = 116 then read_string ds (v @ [9])
             else Inl UnknownEscape)
      else read_string cs (v @ [c]))"

text \<open>\<open>str::parse::<i64>\<close> of digits and signs.\<close>

definition parse_i64 :: "ustr \<Rightarrow> int option" where
  "parse_i64 s =
     (let digits = (case s of c # cs \<Rightarrow> if c = 45 then cs else s | [] \<Rightarrow> []);
          n = (case s of c # _ \<Rightarrow> if c = 45 then - int (sc_value digits) else int (sc_value digits) | [] \<Rightarrow> 0)
      in if digits \<noteq> [] \<and> list_all sc_digit digits \<and> - (2 ^ 63) \<le> n \<and> n < 2 ^ 63 then Some n else None)"

definition read_integer :: "ustr \<Rightarrow> toml_error + toml_value \<times> ustr" where
  "read_integer text =
     (let num = takeWhile (\<lambda>c. sc_digit c \<or> c = 45 \<or> c = 95) text in
      case parse_i64 (filter (\<lambda>c. c \<noteq> 95) num) of
        Some n \<Rightarrow> if num \<noteq> [] then Inr (VInteger n, drop (length num) text) else Inl (Unsupported text)
      | None \<Rightarrow> Inl (Unsupported text))"

text \<open>After an item: what is left to read the next one from, or nothing when no separator follows.\<close>

definition after_item :: "scalar \<Rightarrow> ustr \<Rightarrow> ustr option" where
  "after_item close rest =
     (case trim_start rest of
        [] \<Rightarrow> None
      | c # cs \<Rightarrow> if c = 44 then Some cs else if c = close then Some (c # cs) else None)"

fun parse_value :: "nat \<Rightarrow> ustr \<Rightarrow> (toml_error + toml_value \<times> ustr) option"
and parse_items :: "nat \<Rightarrow> ustr \<Rightarrow> toml_value list \<Rightarrow> (toml_error + toml_value \<times> ustr) option"
and parse_entries :: "nat \<Rightarrow> ustr \<Rightarrow> (ustr \<times> toml_value) list \<Rightarrow> (toml_error + toml_value \<times> ustr) option" where
  "parse_value 0 text = None"
| "parse_value (Suc n) text =
     (case text of
        [] \<Rightarrow> Some (read_integer text)
      | c # rest \<Rightarrow>
          if c = 34 then Some (read_string rest [])
          else if c = 91 then parse_items n rest []
          else if c = 123 then parse_entries n rest []
          else Some (read_integer text))"
| "parse_items 0 rest items = None"
| "parse_items (Suc n) rest items =
     (case strip_prefix [93] (trim_start rest) of
        Some after \<Rightarrow> Some (Inr (VArray items, after))
      | None \<Rightarrow>
          (case parse_value n (trim_start rest) of
             None \<Rightarrow> None
           | Some (Inl e) \<Rightarrow> Some (Inl e)
           | Some (Inr (v, after)) \<Rightarrow>
               (case after_item 93 after of
                  None \<Rightarrow> Some (Inl ArraySeparator)
                | Some rest \<Rightarrow> parse_items n rest (items @ [v]))))"
| "parse_entries 0 rest entries = None"
| "parse_entries (Suc n) rest entries =
     (case strip_prefix [125] (trim_start rest) of
        Some after \<Rightarrow> Some (Inr (VTable entries, after))
      | None \<Rightarrow>
          (case split_once 61 (trim_start rest) of
             None \<Rightarrow> Some (Inl ExpectedInline)
           | Some (k, after) \<Rightarrow>
               (case bare_key (trim k) of
                  None \<Rightarrow> Some (Inl (NotAKey (trim k)))
                | Some key \<Rightarrow>
                    (case parse_value n (trim_start after) of
                       None \<Rightarrow> None
                     | Some (Inl e) \<Rightarrow> Some (Inl e)
                     | Some (Inr (v, after)) \<Rightarrow>
                         if key \<in> fst ` set entries then Some (Inl (KeyTwice key))
                         else (case after_item 125 after of
                             None \<Rightarrow> Some (Inl InlineSeparator)
                           | Some rest \<Rightarrow> parse_entries n rest (entries @ [(key, v)]))))))"

definition value_of :: "ustr \<Rightarrow> toml_error + toml_value \<times> ustr" where
  "value_of text = (case parse_value (2 * length text + 1) text of Some r \<Rightarrow> r | None \<Rightarrow> Inl (Unsupported text))"

subsection \<open>Documents\<close>

record toml_table =
  tname :: ustr
  tarray :: bool
  tline :: nat
  entries :: "(ustr \<times> toml_value \<times> nat) list"

definition new_table :: "ustr \<Rightarrow> bool \<Rightarrow> nat \<Rightarrow> toml_table" where
  "new_table nm a n = \<lparr>tname = nm, tarray = a, tline = n, entries = []\<rparr>"

definition add_entry :: "ustr \<Rightarrow> toml_value \<Rightarrow> nat \<Rightarrow> toml_table list \<Rightarrow> toml_table list" where
  "add_entry k v n ts = butlast ts @ [(last ts)\<lparr>entries := entries (last ts) @ [(k, v, n)]\<rparr>]"

definition header :: "ustr \<Rightarrow> ustr \<Rightarrow> ustr \<Rightarrow> ustr option" where
  "header open close line = Option.bind (strip_prefix open line) (strip_suffix close)"

definition parse_entry :: "nat \<Rightarrow> ustr \<Rightarrow> toml_table list \<Rightarrow> toml_error + toml_table list" where
  "parse_entry n line ts =
     (case split_once 61 line of
        None \<Rightarrow> Inl ExpectedKeyValue
      | Some (k, v) \<Rightarrow>
          (case bare_key (trim k) of
             None \<Rightarrow> Inl (NotAKey (trim k))
           | Some key \<Rightarrow>
               (case value_of (trim v) of
                  Inl e \<Rightarrow> Inl e
                | Inr (val, rest) \<Rightarrow>
                    if trim rest \<noteq> [] then Inl (Unexpected (trim rest))
                    else if key \<in> fst ` set (entries (last ts)) then Inl (KeyTwice key)
                    else Inr (add_entry key val n ts))))"

fun parse_lines :: "nat \<Rightarrow> ustr list \<Rightarrow> toml_table list \<Rightarrow> (nat \<times> toml_error) + toml_table list" where
  "parse_lines n [] ts = Inr ts"
| "parse_lines n (raw # rest) ts =
     (let line = trim (strip_comment raw) in
      if line = [] then parse_lines (n + 1) rest ts
      else case header [91, 91] [93, 93] line of
        Some h \<Rightarrow> parse_lines (n + 1) rest (ts @ [new_table (trim h) True n])
      | None \<Rightarrow>
      case header [91] [93] line of
        Some h \<Rightarrow>
          if \<exists>t\<in>set ts. \<not> tarray t \<and> tname t = trim h then Inl (n, HeaderTwice (trim h))
          else parse_lines (n + 1) rest (ts @ [new_table (trim h) False n])
      | None \<Rightarrow>
      case parse_entry n line ts of
        Inl e \<Rightarrow> Inl (n, e)
      | Inr ts \<Rightarrow> parse_lines (n + 1) rest ts)"

definition parse :: "ustr \<Rightarrow> (nat \<times> toml_error) + toml_table list" where
  "parse text = parse_lines 1 (text_lines text) [new_table [] False 0]"

text \<open>\<open>quote\<close>, with \<open>str::replace\<close> of a character.\<close>

definition replace :: "scalar \<Rightarrow> ustr \<Rightarrow> ustr \<Rightarrow> ustr" where
  "replace c r s = concat (map (\<lambda>x. if x = c then r else [x]) s)"

definition quote :: "ustr \<Rightarrow> ustr" where
  "quote s = [34] @ replace 9 [92, 116] (replace 10 [92, 110] (replace 34 [92, 34] (replace 92 [92, 92] s))) @ [34]"

subsection \<open>Reading a value returns\<close>

lemma length_trim_start: "length (trim_start s) \<le> length s"
  by (simp add: trim_start_def length_dropWhile_le)

lemma strip_prefix_length: "strip_prefix p s = Some r \<Longrightarrow> length s = length p + length r"
  by (auto simp: strip_prefix_def split: if_splits) (metis length_append append_take_drop_id length_drop)

lemma split_once_length: "split_once c s = Some (a, b) \<Longrightarrow> length s = length a + length b + 1"
  by (induction s arbitrary: a) (auto split: if_splits)

lemma after_item_length:
  assumes "after_item c s = Some r" shows "length r \<le> length s"
proof -
  from assms obtain x xs where x: "trim_start s = x # xs" "r = xs \<or> r = x # xs"
    by (auto simp: after_item_def split: list.splits if_splits)
  then have "length r \<le> length (trim_start s)" by auto
  then show ?thesis using length_trim_start [of s] by simp
qed

lemma read_string_length: "read_string s v = Inr (x, r) \<Longrightarrow> length r < length s"
  by (induction s v rule: read_string.induct) (auto split: if_splits list.splits)

lemma read_integer_length:
  assumes "read_integer s = Inr (x, r)" shows "length r < length s"
proof -
  let ?num = "takeWhile (\<lambda>c. sc_digit c \<or> c = 45 \<or> c = 95) s"
  from assms have "?num \<noteq> []" "r = drop (length ?num) s"
    unfolding read_integer_def Let_def by (auto split: option.splits if_splits)
  moreover have "length ?num \<le> length s" by (rule length_takeWhile_le)
  ultimately show ?thesis by (cases "length ?num") auto
qed

lemma value_shorter:
  "parse_value n s = Some (Inr (x, r)) \<Longrightarrow> length r < length s"
  "parse_items n s vs = Some (Inr (x, r)) \<Longrightarrow> length r < length s"
  "parse_entries n s kvs = Some (Inr (x, r)) \<Longrightarrow> length r < length s"
proof (induction n s and n s vs and n s kvs arbitrary: x r and x r and x r
    rule: parse_value_parse_items_parse_entries.induct)
  case (2 n s)
  then show ?case
    by (cases s) (auto split: if_splits dest: read_string_length read_integer_length less_SucI)
next
  case (4 n rest vs)
  have l: "length (trim_start rest) \<le> length rest" by (rule length_trim_start)
  show ?case
  proof (cases "strip_prefix [93] (trim_start rest)")
    case (Some a)
    then show ?thesis using 4(3) l strip_prefix_length [OF Some] by simp
  next
    case None
    from 4(3) None obtain v af s where v: "parse_value n (trim_start rest) = Some (Inr (v, af))"
      "after_item 93 af = Some s" "parse_items n s (vs @ [v]) = Some (Inr (x, r))"
      by (auto split: option.splits sum.splits)
    have "length r < length s" by (rule 4(2) [OF None v(1) refl refl v(2) v(3)])
    then show ?thesis using 4(1) [OF None v(1)] after_item_length [OF v(2)] l by simp
  qed
next
  case (6 n rest kvs)
  have l: "length (trim_start rest) \<le> length rest" by (rule length_trim_start)
  show ?case
  proof (cases "strip_prefix [125] (trim_start rest)")
    case (Some a)
    then show ?thesis using 6(3) l strip_prefix_length [OF Some] by simp
  next
    case None
    from 6(3) None obtain k a key v af s where k: "split_once 61 (trim_start rest) = Some (k, a)" "bare_key (trim k) = Some key"
      and v: "parse_value n (trim_start a) = Some (Inr (v, af))" and new: "key \<notin> fst ` set kvs"
      and s: "after_item 125 af = Some s" "parse_entries n s (kvs @ [(key, v)]) = Some (Inr (x, r))"
      by (auto split: option.splits sum.splits prod.splits if_splits)
    have "length r < length s" by (rule 6(2) [OF None k(1) refl k(2) v refl refl new s])
    then show ?thesis
      using 6(1) [OF None k(1) refl k(2) v] after_item_length [OF s(1)] l length_trim_start [of a] split_once_length [OF k(1)] by simp
  qed
qed auto

lemma value_returns:
  "2 * length s < n \<Longrightarrow> parse_value n s \<noteq> None"
  "2 * length s + 1 < n \<Longrightarrow> parse_items n s vs \<noteq> None"
  "2 * length s + 1 < n \<Longrightarrow> parse_entries n s kvs \<noteq> None"
proof (induction n s and n s vs and n s kvs rule: parse_value_parse_items_parse_entries.induct)
  case (2 n s)
  then show ?case by (cases s) auto
next
  case (4 n rest vs)
  have l: "length (trim_start rest) \<le> length rest" by (rule length_trim_start)
  show ?case
  proof (cases "strip_prefix [93] (trim_start rest)")
    case None
    have "parse_value n (trim_start rest) \<noteq> None" using 4(1) [OF None] 4(3) l by simp
    moreover have "parse_items n s (vs @ [v]) \<noteq> None"
      if v: "parse_value n (trim_start rest) = Some (Inr (v, af))" and s: "after_item 93 af = Some s" for v af s
      using 4(2) [OF None v refl refl s] 4(3) l after_item_length [OF s] value_shorter(1) [OF v] by simp
    ultimately show ?thesis using None by (auto split: option.splits sum.splits)
  qed simp
next
  case (6 n rest kvs)
  have l: "length (trim_start rest) \<le> length rest" by (rule length_trim_start)
  show ?case
  proof (cases "strip_prefix [125] (trim_start rest)")
    case None
    have v: "parse_value n (trim_start a) \<noteq> None"
      if k: "split_once 61 (trim_start rest) = Some (k, a)" "bare_key (trim k) = Some key" for k a key
      using 6(1) [OF None k(1) refl k(2)] 6(3) l length_trim_start [of a] split_once_length [OF k(1)] by simp
    have "parse_entries n s (kvs @ [(key, v)]) \<noteq> None"
      if k: "split_once 61 (trim_start rest) = Some (k, a)" "bare_key (trim k) = Some key"
        and v: "parse_value n (trim_start a) = Some (Inr (v, af))" and new: "key \<notin> fst ` set kvs" and s: "after_item 125 af = Some s"
      for k a key v af s
      using 6(2) [OF None k(1) refl k(2) v refl refl new s] 6(3) l after_item_length [OF s] value_shorter(1) [OF v]
        length_trim_start [of a] split_once_length [OF k(1)] by simp
    then show ?thesis using None by (auto split: option.splits sum.splits prod.splits dest: v)
  qed simp
qed auto

lemma parse_value_returns: "\<exists>res. parse_value (2 * length s + 1) s = Some res"
  using value_returns(1) [of s "2 * length s + 1"] by auto

subsection \<open>Writing a string\<close>

fun esc :: "scalar \<Rightarrow> ustr" where
  "esc c = (if c = 92 \<or> c = 34 then [92, c] else if c = 10 then [92, 110] else if c = 9 then [92, 116] else [c])"

lemma replace_simps: "replace c r [] = []" "replace c r (x # xs) = (if x = c then r else [x]) @ replace c r xs"
  "replace c r (xs @ ys) = replace c r xs @ replace c r ys"
  by (simp_all add: replace_def)

lemma quote_is_escaped: "quote s = 34 # concat (map esc s) @ [34]"
  unfolding quote_def by (induction s) (simp_all add: replace_simps)

lemma read_escaped: "read_string (concat (map esc s) @ 34 # rest) acc = Inr (VString (acc @ s), rest)"
  by (induction s arbitrary: acc) auto

lemma strip_escaped:
  "strip_loop True False (concat (map esc s) @ 34 # rest) = concat (map esc s) @ 34 # strip_loop False False rest"
  by (induction s) auto

lemma read_quoted: "value_of (quote s @ rest) = Inr (VString s, rest)"
  using read_escaped [of s rest "[]"] by (simp add: value_of_def quote_is_escaped)

definition entry_line :: "ustr \<times> ustr \<Rightarrow> ustr" where
  "entry_line e = fst e @ [32, 61, 32] @ quote (snd e)"

lemma key_not: "list_all key_char k \<Longrightarrow> c \<in> set k \<Longrightarrow> c \<notin> {10, 32, 34, 35, 61, 91} \<and> \<not> white c"
  by (auto simp: list_all_iff key_char_def white_def)

lemma strip_key: "list_all key_char k \<Longrightarrow> strip_loop False False (k @ r) = k @ strip_loop False False r"
  by (induction k) (auto simp: key_char_def)

lemma split_key: "list_all key_char k \<Longrightarrow> split_once 61 (k @ 32 # 61 # r) = Some (k @ [32], r)"
  by (induction k) (auto simp: key_char_def)

lemma strip_entry: "list_all key_char (fst e) \<Longrightarrow> strip_comment (entry_line e) = entry_line e"
  using strip_escaped [of "snd e" "[]"] by (simp add: strip_comment_def entry_line_def strip_key quote_is_escaped)

lemma white_simps: "white 32" "\<not> white 34"
  by (simp_all add: white_def)

lemma trim_same: 
  assumes "s \<noteq> []" "\<not> white (hd s)" "\<not> white (last s)" shows "trim s = s"
proof -
  have "trim_start s = s" using assms by (cases s) (auto simp: trim_start_def)
  then show ?thesis using assms by (cases s rule: rev_cases) (auto simp: trim_def)
qed

lemma trim_space: "trim (s @ [32]) = trim s" "trim (32 # s) = trim s"
  by (simp_all add: trim_def trim_start_def white_simps dropWhile_append)
    (metis dropWhile.simps(1) dropWhile_eq_Nil_conv rev.simps(1))

lemma trim_entry: "bare_key (fst e) \<noteq> None \<Longrightarrow> trim (entry_line e) = entry_line e"
  using key_not [of "fst e" "hd (fst e)"]
  by (intro trim_same) (auto simp: entry_line_def quote_is_escaped white_simps bare_key_def hd_append split: if_splits)

lemma entry_line_is_read:
  assumes "bare_key k = Some k" "k \<notin> fst ` set (entries (last ts))"
  shows "parse_entry n (entry_line (k, s)) ts = Inr (add_entry k (VString s) n ts)"
proof -
  have k: "k \<noteq> []" "list_all key_char k" using assms(1) by (auto simp: bare_key_def split: if_splits)
  have "trim (k @ [32]) = k" using k by (simp add: trim_space) (rule trim_same; use k key_not [of k "hd k"] key_not [of k "last k"] in simp)
  moreover have "trim (32 # quote s) = quote s"
    by (simp add: trim_space) (rule trim_same; simp add: quote_is_escaped white_simps)
  moreover have "value_of (quote s) = Inr (VString s, [])" using read_quoted [of s "[]"] by simp
  ultimately show ?thesis using assms k
    by (simp add: parse_entry_def entry_line_def split_key trim_def trim_start_def)
qed

lemma lines_from_line: "10 \<notin> set a \<Longrightarrow> lines_from cur (a @ r) = lines_from (cur @ a) r"
  by (induction a arbitrary: cur) auto

lemma entry_no_newline: "bare_key (fst e) \<noteq> None \<Longrightarrow> 10 \<notin> set (entry_line e)"
  by (auto simp: entry_line_def quote_is_escaped bare_key_def dest: key_not split: if_splits)

lemma lines_of_entries:
  "\<forall>e\<in>set es. bare_key (fst e) \<noteq> None \<Longrightarrow> text_lines (concat (map (\<lambda>e. entry_line e @ [10]) es)) = map entry_line es"
proof (induction es)
  case (Cons e es)
  have "no_cr (entry_line e) = entry_line e" by (simp add: no_cr_def entry_line_def quote_is_escaped)
  with Cons entry_no_newline [of e] show ?case by (simp add: text_lines_def lines_from_line)
qed (simp add: text_lines_def)

fun numbered :: "nat \<Rightarrow> (ustr \<times> ustr) list \<Rightarrow> (ustr \<times> toml_value \<times> nat) list" where
  "numbered n [] = []"
| "numbered n ((k, s) # es) = (k, VString s, n) # numbered (n + 1) es"

lemma parse_entry_lines:
  assumes "\<forall>e\<in>set es. bare_key (fst e) \<noteq> None" "distinct (map fst es)"
    "\<forall>e\<in>set es. fst e \<notin> fst ` set (entries t)"
  shows "parse_lines n (map entry_line es) (ts @ [t]) = Inr (ts @ [t\<lparr>entries := entries t @ numbered n es\<rparr>])"
  using assms
proof (induction es arbitrary: n t)
  case (Cons e es)
  obtain k s where e: "e = (k, s)" by (cases e)
  have k: "bare_key k = Some k" "k \<noteq> []" "list_all key_char k" using Cons.prems(1) e by (auto simp: bare_key_def split: if_splits)
  obtain c cs where c: "k = c # cs" "c \<noteq> 91" using k by (cases k) (auto simp: key_char_def)
  have "header [91, 91] [93, 93] (entry_line e) = None" "header [91] [93] (entry_line e) = None"
    using c by (simp_all add: header_def strip_prefix_def entry_line_def e)
  moreover have "trim (strip_comment (entry_line e)) = entry_line e"
    using k e by (simp add: strip_entry trim_entry)
  moreover have "entry_line e \<noteq> []" using c by (simp add: entry_line_def e)
  moreover have "parse_entry n (entry_line e) (ts @ [t]) = Inr (ts @ [t\<lparr>entries := entries t @ [(k, VString s, n)]\<rparr>])"
    using entry_line_is_read [OF k(1), of "ts @ [t]" n s] Cons.prems e by (simp add: add_entry_def)
  ultimately show ?case
    using Cons.IH [of "t\<lparr>entries := entries t @ [(k, VString s, n)]\<rparr>" "n + 1"] Cons.prems e
    by (auto simp: Let_def)
qed simp

text \<open>A document of lines \<open>key = "text"\<close>, written with \<open>quote\<close> for distinct bare keys, reads back as the root
  table with those keys, the texts as they were, whatever characters they have (quotes, backslashes, newlines,
  tabs, comment signs), and the number of each line.\<close>

theorem quoted_document_reads_back:
  assumes "\<forall>e\<in>set es. bare_key (fst e) \<noteq> None" "distinct (map fst es)"
  shows "parse (concat (map (\<lambda>e. fst e @ [32, 61, 32] @ quote (snd e) @ [10]) es)) =
    Inr [\<lparr>tname = [], tarray = False, tline = 0, entries = numbered 1 es\<rparr>]"
proof -
  have "(\<lambda>e. fst e @ [32, 61, 32] @ quote (snd e) @ [10]) = (\<lambda>e. entry_line e @ [10])"
    by (simp add: fun_eq_iff entry_line_def)
  then show ?thesis
    using parse_entry_lines [of es "new_table [] False 0" 1 "[]"] lines_of_entries [OF assms(1)] assms
    by (simp add: parse_def new_table_def)
qed

theorem quoted_document_reads_back_witness:
  "parse ([97] @ [32, 61, 32] @ quote [34, 35] @ [10]) =
    Inr [\<lparr>tname = [], tarray = False, tline = 0, entries = [([97], VString [34, 35], 1)]\<rparr>]"
  using quoted_document_reads_back [of "[([97], [34, 35])]"] by (simp add: bare_key_def key_char_def)

end
