(* ===== verification/Bisect.thy ===== *)
theory Bisect
  imports Prelude
begin

text \<open>
  \<^verbatim>\<open>crates/tondo/src/bisect.rs\<close>: the search for the first commit where a test fails. What a checkout and a
  test run say is a parameter, \<open>try_at\<close>, which fails with git's error or gives a verdict; the worktree, and what
  is printed, are not modelled. A commit that cannot say gives way to the next ones up to \<open>high\<close>.
\<close>

datatype verdict = Passes | Fails | Unknown

datatype 'e bisect_error = NoCommits | Failed 'e | NothingToLookFor | FailsAtGood

text \<open>The inner loop: the first commit of \<open>probe..<high\<close> that can say, and \<open>high\<close> when none can.\<close>

function probe_loop :: "('c \<Rightarrow> 'e + verdict) \<Rightarrow> 'c list \<Rightarrow> nat \<Rightarrow> nat \<Rightarrow> 'e + verdict \<times> nat" where
  "probe_loop try_at commits probe high =
     (if probe < high then
        (case try_at (commits ! probe) of
           Inl e \<Rightarrow> Inl e
         | Inr found \<Rightarrow> if found \<noteq> Unknown then Inr (found, probe) else probe_loop try_at commits (probe + 1) high)
      else Inr (Unknown, probe))"
  by auto
termination by (relation "measure (\<lambda>(_, _, probe, high). high - probe)") auto

declare probe_loop.simps [simp del]

lemma probe_loop_found:
  assumes "probe_loop try_at commits p high = Inr (found, q)" "p \<le> high"
  shows "p \<le> q \<and> q \<le> high \<and> (found \<noteq> Unknown \<longrightarrow> q < high \<and> try_at (commits ! q) = Inr found) \<and>
    (found = Unknown \<longrightarrow> (\<forall>i\<in>{p..<high}. try_at (commits ! i) = Inr Unknown))"
  using assms
proof (induction try_at commits p high rule: probe_loop.induct)
  case (1 try_at commits p high)
  show ?case
  proof (cases "p < high \<and> try_at (commits ! p) = Inr Unknown")
    case True
    then have "probe_loop try_at commits (p + 1) high = Inr (found, q)"
      using 1(2) by (subst (asm) probe_loop.simps) simp
    from 1(1) [of Unknown] this True have ih: "p + 1 \<le> q \<and> q \<le> high \<and>
        (found \<noteq> Unknown \<longrightarrow> q < high \<and> try_at (commits ! q) = Inr found) \<and>
        (found = Unknown \<longrightarrow> (\<forall>i\<in>{p + 1..<high}. try_at (commits ! i) = Inr Unknown))" by simp
    moreover have "{p..<high} = insert p {p + 1..<high}" using True by auto
    ultimately show ?thesis using True by auto
  next
    case False
    then show ?thesis using 1(2,3) by (subst (asm) probe_loop.simps) (auto split: if_splits sum.splits)
  qed
qed

text \<open>The outer loop, from \<open>low\<close> and \<open>high\<close> to the last \<open>high\<close>.\<close>

function search :: "('c \<Rightarrow> 'e + verdict) \<Rightarrow> 'c list \<Rightarrow> nat \<Rightarrow> nat \<Rightarrow> 'e + nat" where
  "search try_at commits low high =
     (if low < high then
        (let middle = (low + high) div 2 in
         case probe_loop try_at commits middle high of
           Inl e \<Rightarrow> Inl e
         | Inr (Fails, probe) \<Rightarrow> search try_at commits low probe
         | Inr (Passes, probe) \<Rightarrow> search try_at commits (probe + 1) high
         | Inr (Unknown, probe) \<Rightarrow> Inr (max middle low))
      else Inr high)"
  by auto
termination
proof (relation "measure (\<lambda>(_, _, low, high). high - low)", goal_cases)
  case (2 try_at commits low high middle pr v probe)
  then show ?case using probe_loop_found [of try_at commits middle high] by fastforce
next
  case (3 try_at commits low high middle pr v probe)
  then show ?case using probe_loop_found [of try_at commits middle high] by fastforce
qed auto

declare search.simps [simp del]

definition bisect :: "('c \<Rightarrow> 'e + verdict) \<Rightarrow> 'c \<Rightarrow> 'c list \<Rightarrow> 'e bisect_error + 'c" where
  "bisect try_at good commits =
     (if commits = [] then Inl NoCommits
      else case try_at (commits ! (length commits - 1)) of
        Inl e \<Rightarrow> Inl (Failed e)
      | Inr v \<Rightarrow>
          if v \<noteq> Fails then Inl NothingToLookFor
          else case try_at good of
            Inl e \<Rightarrow> Inl (Failed e)
          | Inr v \<Rightarrow>
              if v = Fails then Inl FailsAtGood
              else case search try_at commits 0 (length commits - 1) of
                Inl e \<Rightarrow> Inl (Failed e)
              | Inr high \<Rightarrow> Inr (commits ! high))"

subsection \<open>What is found\<close>

text \<open>What stays true of the bounds: it fails at \<open>high\<close>, and passes just before \<open>low\<close>, unless \<open>low\<close> is the first.\<close>

lemma search_finds:
  assumes "low \<le> high" "high < length commits"
    and "\<forall>c\<in>set commits. \<exists>v. try_at c = Inr v \<and> v \<noteq> Unknown"
    and "try_at (commits ! high) = Inr Fails" "low = 0 \<or> try_at (commits ! (low - 1)) = Inr Passes"
  shows "\<exists>r. search try_at commits low high = Inr r \<and> low \<le> r \<and> r \<le> high \<and> try_at (commits ! r) = Inr Fails \<and>
    (r = 0 \<or> try_at (commits ! (r - 1)) = Inr Passes)"
  using assms
proof (induction try_at commits low high rule: search.induct)
  case (1 try_at commits low high)
  show ?case
  proof (cases "low < high")
    case True
    let ?m = "(low + high) div 2"
    have m: "low \<le> ?m" "?m < high" using True by auto
    from 1(5) m(2) 1(4) obtain v where v: "try_at (commits ! ?m) = Inr v" "v \<noteq> Unknown" by fastforce
    then have p: "probe_loop try_at commits ?m high = Inr (v, ?m)" using m by (subst probe_loop.simps) simp
    show ?thesis
    proof (cases v)
      case Fails
      have "\<exists>r. search try_at commits low ?m = Inr r \<and> low \<le> r \<and> r \<le> ?m \<and> try_at (commits ! r) = Inr Fails \<and>
          (r = 0 \<or> try_at (commits ! (r - 1)) = Inr Passes)"
        by (rule 1(2) [OF True refl p refl, unfolded Fails, OF refl]) (use 1 m v Fails in auto)
      then show ?thesis using True p Fails m by (subst search.simps) (fastforce simp: Let_def)
    next
      case Passes
      have "\<exists>r. search try_at commits (?m + 1) high = Inr r \<and> ?m + 1 \<le> r \<and> r \<le> high \<and> try_at (commits ! r) = Inr Fails \<and>
          (r = 0 \<or> try_at (commits ! (r - 1)) = Inr Passes)"
        by (rule 1(1) [OF True refl p refl, unfolded Passes, OF refl]) (use 1 m v Passes in auto)
      then show ?thesis using True p Passes m by (subst search.simps) (fastforce simp: Let_def)
    qed (use v in simp)
  next
    case False
    then show ?thesis using 1 by (subst search.simps) auto
  qed
qed

text \<open>When every commit can say and the last one fails, a commit is found where it fails and that comes right
  after one where it passes, or is the first after \<open>good\<close>, where it does not fail; commits that fail and pass in
  turns included.\<close>

theorem bisect_finds_a_regression:
  assumes "commits \<noteq> []" "\<forall>c\<in>set commits. \<exists>v. try_at c = Inr v \<and> v \<noteq> Unknown"
    and "try_at (last commits) = Inr Fails" "try_at good = Inr v" "v \<noteq> Fails"
  shows "\<exists>r < length commits. bisect try_at good commits = Inr (commits ! r) \<and> try_at (commits ! r) = Inr Fails \<and>
    (if r = 0 then try_at good \<noteq> Inr Fails else try_at (commits ! (r - 1)) = Inr Passes)"
proof -
  have l: "try_at (commits ! (length commits - 1)) = Inr Fails" using assms(1,3) by (simp add: last_conv_nth)
  have "\<exists>r. search try_at commits 0 (length commits - 1) = Inr r \<and> 0 \<le> r \<and> r \<le> length commits - 1 \<and>
      try_at (commits ! r) = Inr Fails \<and> (r = 0 \<or> try_at (commits ! (r - 1)) = Inr Passes)"
    by (rule search_finds) (use assms l in auto)
  then obtain r where r: "search try_at commits 0 (length commits - 1) = Inr r" "r \<le> length commits - 1"
    "try_at (commits ! r) = Inr Fails" "r = 0 \<or> try_at (commits ! (r - 1)) = Inr Passes" by blast
  then have "bisect try_at good commits = Inr (commits ! r)"
    using assms(1,4,5) l by (simp add: bisect_def)
  moreover have "r < length commits" using r(2) assms(1) by (cases commits) auto
  ultimately show ?thesis using r(3,4) assms(4,5) by (intro exI [of _ r]) auto
qed

definition sample_at :: "nat \<Rightarrow> unit + verdict" where
  "sample_at c = Inr (if c < 2 then Passes else Fails)"

theorem bisect_finds_a_regression_witness:
  "\<exists>r < length [1, 2, 3 :: nat]. bisect sample_at 0 [1, 2, 3] = Inr ([1, 2, 3] ! r) \<and> sample_at ([1, 2, 3] ! r) = Inr Fails \<and>
    (if r = 0 then sample_at 0 \<noteq> Inr Fails else sample_at ([1, 2, 3] ! (r - 1)) = Inr Passes)"
  by (rule bisect_finds_a_regression [where v = Passes]) (simp_all add: sample_at_def)

text \<open>When no commit between the middle and the first known to fail can say, the search ends at the middle one,
  which cannot say either: with commits that fail, cannot say and fail, the second is given as the first that fails,
  though the one before it fails, and nothing says it does.\<close>

theorem unknown_commit_is_blamed:
  "\<exists>(commits :: nat list) (try_at :: nat \<Rightarrow> unit + verdict) r. try_at 0 = Inr Passes \<and>
     bisect try_at 0 commits = Inr (commits ! r) \<and> try_at (commits ! r) = Inr Unknown \<and>
     0 < r \<and> r < length commits \<and> try_at (commits ! (r - 1)) = Inr Fails"
proof -
  let ?at = "\<lambda>c :: nat. Inr ([Passes, Fails, Unknown, Fails] ! c) :: unit + verdict"
  have p: "probe_loop ?at [1, 2, 3] 1 2 = Inr (Unknown, 2)"
    by (subst probe_loop.simps, simp, subst probe_loop.simps, simp)
  have "search ?at [1, 2, 3] 0 2 = Inr 1" using p by (subst search.simps) simp
  then have "bisect ?at 0 [1, 2, 3] = Inr ([1, 2, 3] ! 1)" by (simp add: bisect_def eval_nat_numeral)
  then show ?thesis by (intro exI [of _ "[1, 2, 3]"] exI [of _ ?at] exI [of _ "1 :: nat"]) simp
qed

end
