(* ===== verification/Race.thy ===== *)
theory Race
  imports Prelude
begin

text \<open>
  \<^verbatim>\<open>crates/tondo-runtime/src/race.rs\<close>: the updates that tasks lose. What a task is called from, and the place in the
  program of those callers, are the parameters \<open>at\<close> and \<open>place\<close>; \<open>tasks::touch\<close>, which only tells the replay of
  schedules, is left out, and a report is the pair of places its text is made of.
\<close>

type_synonym task = nat
type_synonym address = nat
type_synonym frames = "nat list"

record race_cell =
  writes :: nat
  wtask :: task
  wat :: frames

record seen =
  cells :: "address \<Rightarrow> race_cell option"
  reads :: "task \<times> address \<Rightarrow> (nat \<times> frames) option"
  said :: "(string \<times> string) set"

definition nothing_seen :: seen where
  "nothing_seen = \<lparr>cells = (\<lambda>_. None), reads = (\<lambda>_. None), said = {}\<rparr>"

definition new_cell :: race_cell where
  "new_cell = \<lparr>writes = 0, wtask = 0, wat = []\<rparr>"

definition read_cell :: "task \<Rightarrow> frames \<Rightarrow> address \<Rightarrow> seen \<Rightarrow> seen" where
  "read_cell t at c s =
     s\<lparr>reads := (reads s)((t, c) \<mapsto> ((case cells s c of None \<Rightarrow> 0 | Some w \<Rightarrow> writes w), at))\<rparr>"

text \<open>The first part of \<open>wrote\<close>, which the mutex covers: the read whose value is stale, the task that wrote since, and
  where.\<close>

definition note_write :: "task \<Rightarrow> frames \<Rightarrow> address \<Rightarrow> bool \<Rightarrow> seen \<Rightarrow> (frames \<times> task \<times> frames) option \<times> seen" where
  "note_write t at c checked s =
     (let found = (if checked then None else reads s (t, c));
          written = (case cells s c of None \<Rightarrow> new_cell | Some w \<Rightarrow> w);
          lost = (case found of
                    None \<Rightarrow> None
                  | Some (n, r) \<Rightarrow>
                      if n \<noteq> writes written \<and> wtask written \<noteq> t then Some (r, wtask written, wat written) else None)
      in (lost, s\<lparr>reads := (reads s)((t, c) := None),
                  cells := (cells s)(c \<mapsto> \<lparr>writes = writes written + 1, wtask = t, wat = at\<rparr>)\<rparr>))"

text \<open>The function of a place \<open>file:line in function\<close> is what follows its last \<open> in \<close>.\<close>

fun after_in :: "string \<Rightarrow> string option" where
  "after_in [] = None"
| "after_in (c # cs) =
     (case after_in cs of
        Some r \<Rightarrow> Some r
      | None \<Rightarrow> if take 4 (c # cs) = '' in '' then Some (drop 4 (c # cs)) else None)"

definition function_of :: "string \<Rightarrow> string" where
  "function_of s = (case after_in s of None \<Rightarrow> s | Some r \<Rightarrow> r)"

definition wrote_cell :: "(frames \<Rightarrow> string option) \<Rightarrow> task \<Rightarrow> frames \<Rightarrow> address \<Rightarrow> bool \<Rightarrow> seen \<Rightarrow> (task \<times> string \<times> string \<times> task \<times> string) option \<times> seen" where
  "wrote_cell place t at c checked s =
     (case note_write t at c checked s of
        (None, s) \<Rightarrow> (None, s)
      | (Some (r, other, theirs), s) \<Rightarrow>
          (case (place r, place at, place theirs) of
             (Some pr, Some pw, Some pt) \<Rightarrow>
               if function_of pr \<noteq> function_of pw then (None, s)
               else if (pr, pw) \<in> said s then (None, s)
               else (Some (t, pr, pw, other, pt), s\<lparr>said := insert (pr, pw) (said s)\<rparr>)
           | _ \<Rightarrow> (None, s)))"

definition forget_cell :: "address \<Rightarrow> seen \<Rightarrow> seen" where
  "forget_cell c s = s\<lparr>cells := (cells s)(c := None), reads := (\<lambda>(t, r). if r = c then None else reads s (t, r))\<rparr>"

subsection \<open>What a lost update is\<close>

datatype event = Read task frames address | Wrote task frames address bool | Forget address

text \<open>The state after a history of events, the newest first.\<close>

fun after :: "(frames \<Rightarrow> string option) \<Rightarrow> event list \<Rightarrow> seen" where
  "after pl [] = nothing_seen"
| "after pl (Read t at c # h) = read_cell t at c (after pl h)"
| "after pl (Wrote t at c checked # h) = snd (wrote_cell pl t at c checked (after pl h))"
| "after pl (Forget c # h) = forget_cell c (after pl h)"

text \<open>What a history says of a task and a cell: \<open>None\<close> when the task has no read of it that it has not written over since;
  else where it read, and who wrote it last since then, which is another task.\<close>

fun live_read :: "task \<Rightarrow> address \<Rightarrow> event list \<Rightarrow> (frames \<times> (task \<times> frames) option) option" where
  "live_read t c [] = None"
| "live_read t c (Read t' at c' # h) = (if t' = t \<and> c' = c then Some (at, None) else live_read t c h)"
| "live_read t c (Wrote t' at c' _ # h) =
     (if c' \<noteq> c then live_read t c h
      else if t' = t then None
      else map_option (\<lambda>(r, _). (r, Some (t', at))) (live_read t c h))"
| "live_read t c (Forget c' # h) = (if c' = c then None else live_read t c h)"

lemma note_write_state: "cells (snd (note_write t at c k s)) = (cells s)(c \<mapsto> \<lparr>writes = (case cells s c of None \<Rightarrow> 0 | Some w \<Rightarrow> writes w) + 1, wtask = t, wat = at\<rparr>)"
  "reads (snd (note_write t at c k s)) = (reads s)((t, c) := None)"
  by (auto simp: note_write_def Let_def new_cell_def split: option.splits)

lemma wrote_cell_state: "cells (snd (wrote_cell pl t at c k s)) = cells (snd (note_write t at c k s))"
  "reads (snd (wrote_cell pl t at c k s)) = reads (snd (note_write t at c k s))"
  by (cases "note_write t at c k s"; auto simp: wrote_cell_def split: option.splits)+

definition tells :: "seen \<Rightarrow> task \<Rightarrow> address \<Rightarrow> (frames \<times> (task \<times> frames) option) option \<Rightarrow> bool" where
  "tells s t c l =
     (case l of
        None \<Rightarrow> reads s (t, c) = None
      | Some (r, None) \<Rightarrow> reads s (t, c) = Some ((case cells s c of None \<Rightarrow> 0 | Some w \<Rightarrow> writes w), r)
      | Some (r, Some (o', at)) \<Rightarrow> o' \<noteq> t \<and>
          (\<exists>n w. reads s (t, c) = Some (n, r) \<and> cells s c = Some w \<and> n < writes w \<and> wtask w = o' \<and> wat w = at))"

lemma state_tells: "tells (after pl h) t c (live_read t c h)"
proof (induction h)
  case Nil
  show ?case by (simp add: tells_def nothing_seen_def)
next
  case (Cons e h)
  then show ?case
    by (cases e; cases "live_read t c h")
      (auto simp: tells_def read_cell_def forget_cell_def wrote_cell_state note_write_state split: option.splits)
qed

text \<open>C38: A write is taken for one that loses an update when, and only when, the task has read the cell, has not written it
  since, and another task has; and the report names where it read, the last task that wrote, and where. A write that sees
  the value it changes never is, and neither is one after the cell went away.\<close>

theorem lost_updates_are_found:
  "fst (note_write t at c checked (after pl h)) =
     (if checked then None
      else case live_read t c h of
        Some (r, Some (other, theirs)) \<Rightarrow> Some (r, other, theirs)
      | _ \<Rightarrow> None)"
  using state_tells [of pl h t c]
  by (auto simp: note_write_def Let_def tells_def new_cell_def split: option.splits)

end
