(* ===== verification/Protobuf.thy ===== *)
theory Protobuf
  imports Prelude
begin

text \<open>
  The wire format of \<open>std.protobuf\<close>, \<^verbatim>\<open>crates/tondo-runtime/src/protobuf.rs\<close>: the writer of tagged fields and the
  reader, whose state each operation takes and gives. Integers of 64 bits are words, whatever sign the source
  gives them; a position is a number; the bounds and the open messages have the innermost first. The calls that
  find the object of a handle, which lock it, are left out.
\<close>

unbundle bit_operations_syntax

subsection \<open>Bytes of integers\<close>

text \<open>\<open>to_le_bytes\<close> and \<open>from_le_bytes\<close>.\<close>

fun le_bytes :: "nat \<Rightarrow> 'a::len word \<Rightarrow> u8 list" where
  "le_bytes 0 w = []"
| "le_bytes (Suc n) w = ucast w # le_bytes n (drop_bit 8 w)"

fun from_le :: "u8 list \<Rightarrow> 'a::len word" where
  "from_le [] = 0"
| "from_le (b # bs) = ucast b OR push_bit 8 (from_le bs)"

function varint_bytes :: "u64 \<Rightarrow> u8 list" where
  "varint_bytes v = (if 0x80 \<le> v then (ucast v OR 0x80) # varint_bytes (drop_bit 7 v) else [ucast v])"
  by auto
termination
proof (relation "measure unat")
  fix v :: u64
  assume "0x80 \<le> v"
  then have "128 \<le> unat v" by (simp add: word_le_nat_alt)
  then have "unat v div 128 < unat v" by simp
  then show "(drop_bit 7 v, v) \<in> measure unat" by (simp add: unat_drop_bit_eq drop_bit_eq_div unat_div)
qed simp

declare varint_bytes.simps [simp del]

definition zigzag :: "u64 \<Rightarrow> u64" where
  "zigzag v = push_bit 1 v XOR signed_drop_bit 63 v"

definition unzigzag :: "u64 \<Rightarrow> u64" where
  "unzigzag v = drop_bit 1 v XOR - (v AND 1)"

subsection \<open>Writing\<close>

abbreviation (input) VARINT :: nat where "VARINT \<equiv> 0"
abbreviation (input) FIXED64 :: nat where "FIXED64 \<equiv> 1"
abbreviation (input) DELIMITED :: nat where "DELIMITED \<equiv> 2"
abbreviation (input) START_GROUP :: nat where "START_GROUP \<equiv> 3"
abbreviation (input) END_GROUP :: nat where "END_GROUP \<equiv> 4"
abbreviation (input) FIXED32 :: nat where "FIXED32 \<equiv> 5"

definition DEPTH :: nat where "DEPTH = 100"

record writer =
  out :: "u8 list"
  opened :: "(int \<times> u8 list) list"
  deterministic :: bool

definition append_buffer :: "u8 list \<Rightarrow> writer \<Rightarrow> writer" where
  "append_buffer bs w =
     (case opened w of
        (n, b) # rest \<Rightarrow> w\<lparr>opened := (n, b @ bs) # rest\<rparr>
      | [] \<Rightarrow> w\<lparr>out := out w @ bs\<rparr>)"

text \<open>A field's number is an \<open>i64\<close>; the shift drops what leaves the 64 bits.\<close>

definition tag_bytes :: "int \<Rightarrow> nat \<Rightarrow> u8 list" where
  "tag_bytes n wire = (if 0 < n then varint_bytes (push_bit 3 (word_of_int n) OR of_nat wire) else [])"

definition write_tag :: "int \<Rightarrow> nat \<Rightarrow> writer \<Rightarrow> writer" where
  "write_tag n wire w = append_buffer (tag_bytes n wire) w"

definition close_open :: "writer \<Rightarrow> writer" where
  "close_open w =
     (case opened w of
        [] \<Rightarrow> w
      | (n, inner) # rest \<Rightarrow>
          append_buffer inner (append_buffer (varint_bytes (of_nat (length inner))) (write_tag n DELIMITED (w\<lparr>opened := rest\<rparr>))))"

definition write_wire :: "int \<Rightarrow> nat \<Rightarrow> u8 list \<Rightarrow> writer \<Rightarrow> writer" where
  "write_wire n wire bs w = append_buffer bs (write_tag n wire w)"

definition pb_writer :: "bool \<Rightarrow> writer" where
  "pb_writer d = \<lparr>out = [], opened = [], deterministic = d\<rparr>"

definition pb_write_varint :: "int \<Rightarrow> u64 \<Rightarrow> writer \<Rightarrow> writer" where
  "pb_write_varint n v = write_wire n VARINT (varint_bytes v)"

definition pb_write_zigzag :: "int \<Rightarrow> u64 \<Rightarrow> writer \<Rightarrow> writer" where
  "pb_write_zigzag n v = pb_write_varint n (zigzag v)"

definition pb_write_fixed32 :: "int \<Rightarrow> u64 \<Rightarrow> writer \<Rightarrow> writer" where
  "pb_write_fixed32 n v = write_wire n FIXED32 (le_bytes 4 (ucast v :: u32))"

definition pb_write_fixed64 :: "int \<Rightarrow> u64 \<Rightarrow> writer \<Rightarrow> writer" where
  "pb_write_fixed64 n v = write_wire n FIXED64 (le_bytes 8 v)"

definition write_length :: "int \<Rightarrow> u8 list \<Rightarrow> writer \<Rightarrow> writer" where
  "write_length n bs w = append_buffer bs (append_buffer (varint_bytes (of_nat (length bs))) (write_tag n DELIMITED w))"

definition pb_write_bytes :: "int \<Rightarrow> u8 list \<Rightarrow> writer \<Rightarrow> writer" where
  "pb_write_bytes = write_length"

definition pb_write_text :: "int \<Rightarrow> u8 list \<Rightarrow> writer \<Rightarrow> writer" where
  "pb_write_text = write_length"

definition pb_begin :: "int \<Rightarrow> writer \<Rightarrow> writer" where
  "pb_begin n w = w\<lparr>opened := (n, []) # opened w\<rparr>"

definition pb_end :: "writer \<Rightarrow> writer" where
  "pb_end = close_open"

definition pb_write_group :: "int \<Rightarrow> bool \<Rightarrow> writer \<Rightarrow> writer" where
  "pb_write_group n begins = write_tag n (if begins then START_GROUP else END_GROUP)"

definition pb_write_raw :: "u8 list \<Rightarrow> writer \<Rightarrow> writer" where
  "pb_write_raw = append_buffer"

lemma opened_append: "length (opened (append_buffer bs w)) = length (opened w)"
  by (simp add: append_buffer_def split: list.splits prod.splits)

function close_all :: "writer \<Rightarrow> writer" where
  "close_all w = (if opened w = [] then w else close_all (close_open w))"
  by auto
termination
  by (relation "measure (\<lambda>w. length (opened w))") (auto simp: close_open_def opened_append write_tag_def split: list.splits prod.splits)

declare close_all.simps [simp del]

definition pb_finish :: "writer \<Rightarrow> u8 list \<times> writer" where
  "pb_finish w = (let w = close_all w in (out w, w\<lparr>out := []\<rparr>))"

subsection \<open>Reading\<close>

datatype bound = BLength (bend: nat) (bpacked: bool) | BGroup u64

datatype pb_error =
  VarintEnds | VarintLong | PastEnd nat | Expected string string | NumberOutside u64 | ClosesNoGroup u64
| NoWire u64 nat | TooDeep | NotUtf8 | Told string

record reader =
  input :: "u8 list"
  position :: nat
  bounds :: "bound list"
  number :: u64
  wire :: nat
  start :: nat
  error :: "pb_error option"

definition fail :: "pb_error \<Rightarrow> reader \<Rightarrow> reader" where
  "fail e r = (if error r = None then r\<lparr>error := Some e\<rparr> else r)"

fun inner_end :: "bound list \<Rightarrow> nat \<Rightarrow> nat" where
  "inner_end [] n = n"
| "inner_end (BLength e _ # bs) n = e"
| "inner_end (BGroup _ # bs) n = inner_end bs n"

definition end_of :: "reader \<Rightarrow> nat" where
  "end_of r = inner_end (bounds r) (length (input r))"

fun varint_loop :: "nat \<Rightarrow> nat \<Rightarrow> nat \<Rightarrow> u64 \<Rightarrow> reader \<Rightarrow> u64 option \<times> reader" where
  "varint_loop 0 shift e v r = (None, fail VarintLong r)"
| "varint_loop (Suc k) shift e v r =
     (if position r < length (input r) \<and> position r < e
      then let byte = input r ! position r;
               v = v OR push_bit (shift * 7) (ucast (byte AND 0x7f));
               r = r\<lparr>position := position r + 1\<rparr>
           in if byte < 0x80 then (Some v, r) else varint_loop k (shift + 1) e v r
      else (None, fail VarintEnds r))"

definition read_varint :: "reader \<Rightarrow> u64 option \<times> reader" where
  "read_varint r = varint_loop 10 0 (end_of r) 0 r"

definition take_bytes :: "nat \<Rightarrow> reader \<Rightarrow> u8 list option \<times> reader" where
  "take_bytes count r =
     (if count > end_of r - position r then (None, fail (PastEnd count) r)
      else (Some (take count (drop (position r) (input r))), r\<lparr>position := position r + count\<rparr>))"

definition in_packed :: "reader \<Rightarrow> bool" where
  "in_packed r = (case bounds r of BLength _ p # _ \<Rightarrow> p | _ \<Rightarrow> False)"

definition wire_name :: "nat \<Rightarrow> string" where
  "wire_name w =
     (if w = VARINT then ''a varint'' else if w = FIXED64 then ''8 bytes''
      else if w = DELIMITED then ''a length-delimited value'' else if w = START_GROUP then ''a group'' else ''4 bytes'')"

definition expect :: "nat \<Rightarrow> string \<Rightarrow> reader \<Rightarrow> bool \<times> reader" where
  "expect w what r =
     (if in_packed r \<or> wire r = w then (True, r) else (False, fail (Expected what (wire_name (wire r))) r))"

definition read_tag :: "reader \<Rightarrow> int \<times> reader" where
  "read_tag r =
     (case read_varint (r\<lparr>start := position r\<rparr>) of
        (None, r) \<Rightarrow> (- 1, r)
      | (Some tag, r) \<Rightarrow>
          let n = drop_bit 3 tag; w = unat (tag AND 7) in
          if n = 0 \<or> 0x1fffffff < n then (- 1, fail (NumberOutside n) r)
          else if w = END_GROUP
          then (case bounds r of
                  BGroup g # rest \<Rightarrow> if g = n then (0, r\<lparr>bounds := rest\<rparr>) else (- 1, fail (ClosesNoGroup n) r)
                | _ \<Rightarrow> (- 1, fail (ClosesNoGroup n) r))
          else if FIXED32 < w then (- 1, fail (NoWire n w) r)
          else (uint n, r\<lparr>number := n, wire := w\<rparr>))"

definition pb_next :: "reader \<Rightarrow> int \<times> reader" where
  "pb_next r =
     (if error r \<noteq> None then (- 1, r)
      else case bounds r of
        BLength e _ # rest \<Rightarrow> if e \<le> position r then (0, r\<lparr>bounds := rest\<rparr>) else read_tag r
      | BGroup _ # _ \<Rightarrow> read_tag r
      | [] \<Rightarrow> if length (input r) \<le> position r then (0, r) else read_tag r)"

text \<open>\<open>skip\<close> and its loop over the fields of a group, with fuel: one for each of the two calls of a byte.\<close>

fun skip_field :: "nat \<Rightarrow> reader \<Rightarrow> reader option"
  and skip_group :: "nat \<Rightarrow> reader \<Rightarrow> reader option" where
  "skip_field 0 r = None"
| "skip_field (Suc k) r =
     (if wire r = VARINT then Some (snd (read_varint r))
      else if wire r = FIXED64 then Some (snd (take_bytes 8 r))
      else if wire r = FIXED32 then Some (snd (take_bytes 4 r))
      else if wire r = DELIMITED
      then (case read_varint r of (Some n, r) \<Rightarrow> Some (snd (take_bytes (unat n) r)) | (None, r) \<Rightarrow> Some r)
      else if wire r = START_GROUP
      then (if DEPTH \<le> length (bounds r) then Some (fail TooDeep r)
            else skip_group k (r\<lparr>bounds := BGroup (number r) # bounds r\<rparr>))
      else Some r)"
| "skip_group 0 r = None"
| "skip_group (Suc k) r =
     (case pb_next r of
        (n, r) \<Rightarrow>
          if n = 0 \<or> n = - 1 then Some r
          else (case skip_field k r of None \<Rightarrow> None | Some r \<Rightarrow> skip_group k r))"

definition pb_skip :: "reader \<Rightarrow> reader" where
  "pb_skip r = (case skip_field (2 * (length (input r) - position r) + 2) r of Some r \<Rightarrow> r | None \<Rightarrow> r)"

definition pb_reader :: "u8 list \<Rightarrow> reader" where
  "pb_reader bs = \<lparr>input = bs, position = 0, bounds = [], number = 0, wire = 0, start = 0, error = None\<rparr>"

definition pb_read_varint :: "reader \<Rightarrow> u64 \<times> reader" where
  "pb_read_varint r =
     (case expect VARINT ''a varint'' r of
        (False, r) \<Rightarrow> (0, r)
      | (True, r) \<Rightarrow> (case read_varint r of (v, r) \<Rightarrow> (case v of Some v \<Rightarrow> v | None \<Rightarrow> 0, r)))"

definition pb_read_zigzag :: "reader \<Rightarrow> u64 \<times> reader" where
  "pb_read_zigzag r = (case pb_read_varint r of (v, r) \<Rightarrow> (unzigzag v, r))"

definition pb_read_fixed32 :: "reader \<Rightarrow> u64 \<times> reader" where
  "pb_read_fixed32 r =
     (case expect FIXED32 ''4 bytes'' r of
        (False, r) \<Rightarrow> (0, r)
      | (True, r) \<Rightarrow>
          (case take_bytes 4 r of (b, r) \<Rightarrow> (case b of Some b \<Rightarrow> ucast (from_le b :: u32) | None \<Rightarrow> 0, r)))"

definition pb_read_fixed64 :: "reader \<Rightarrow> u64 \<times> reader" where
  "pb_read_fixed64 r =
     (case expect FIXED64 ''8 bytes'' r of
        (False, r) \<Rightarrow> (0, r)
      | (True, r) \<Rightarrow>
          (case take_bytes 8 r of (b, r) \<Rightarrow> (case b of Some b \<Rightarrow> from_le b | None \<Rightarrow> 0, r)))"

definition read_length :: "reader \<Rightarrow> u8 list \<times> reader" where
  "read_length r =
     (case expect DELIMITED ''a length-delimited value'' r of
        (False, r) \<Rightarrow> ([], r)
      | (True, r) \<Rightarrow>
          (case read_varint r of
             (None, r) \<Rightarrow> ([], r)
           | (Some n, r) \<Rightarrow>
               (case take_bytes (unat n) r of (b, r) \<Rightarrow> (case b of Some b \<Rightarrow> b | None \<Rightarrow> [], r))))"

definition pb_read_bytes :: "reader \<Rightarrow> u8 list \<times> reader" where
  "pb_read_bytes = read_length"

definition pb_read_text :: "reader \<Rightarrow> u8 list \<times> reader" where
  "pb_read_text r = (case read_length r of (b, r) \<Rightarrow> if utf8 b then (b, r) else ([], fail NotUtf8 r))"

definition pb_fail :: "string \<Rightarrow> reader \<Rightarrow> reader" where
  "pb_fail message = fail (Told message)"

definition pb_enter :: "bool \<Rightarrow> reader \<Rightarrow> reader" where
  "pb_enter packed r =
     (if DEPTH \<le> length (bounds r) then fail TooDeep r
      else if wire r = START_GROUP \<and> \<not> packed then r\<lparr>bounds := BGroup (number r) # bounds r\<rparr>
      else case expect DELIMITED ''a length-delimited value'' r of
        (False, r) \<Rightarrow> r
      | (True, r) \<Rightarrow>
          (case read_varint r of
             (None, r) \<Rightarrow> r
           | (Some n, r) \<Rightarrow>
               let e = min (position r + unat n) (2 ^ 64 - 1) in
               if end_of r < e then fail (PastEnd (unat n)) r
               else r\<lparr>bounds := BLength e packed # bounds r\<rparr>))"

definition pb_is_packed :: "reader \<Rightarrow> bool" where
  "pb_is_packed r = (wire r = DELIMITED)"

definition pb_more :: "reader \<Rightarrow> bool \<times> reader" where
  "pb_more r =
     (if error r \<noteq> None then (False, r)
      else case bounds r of
        BLength e p # rest \<Rightarrow>
          if p then (if position r < e then (True, r) else (False, r\<lparr>bounds := rest\<rparr>)) else (False, r)
      | _ \<Rightarrow> (False, r))"

definition pb_failed :: "reader \<Rightarrow> bool" where
  "pb_failed r = (error r \<noteq> None)"

definition pb_error_of :: "reader \<Rightarrow> pb_error option" where
  "pb_error_of = error"

definition pb_offset :: "reader \<Rightarrow> nat" where
  "pb_offset = start"

definition pb_raw :: "reader \<Rightarrow> u8 list \<times> reader" where
  "pb_raw r =
     (let r' = pb_skip r in (take (position r' - start r) (drop (start r) (input r')), r'))"

subsection \<open>Reading stays within the input\<close>

text \<open>Each length ends within the ones around it and the input, reading is before the innermost end and after the
  start of the field, and messages nest to the depth allowed.\<close>

fun nested :: "bound list \<Rightarrow> nat \<Rightarrow> bool" where
  "nested [] n = True"
| "nested (BLength e _ # bs) n = (e \<le> inner_end bs n \<and> nested bs n)"
| "nested (BGroup _ # bs) n = nested bs n"

definition within :: "reader \<Rightarrow> bool" where
  "within r \<longleftrightarrow> start r \<le> position r \<and> position r \<le> end_of r \<and> nested (bounds r) (length (input r)) \<and>
     length (bounds r) \<le> DEPTH \<and> length (input r) < 2 ^ 64"

lemma inner_end_bound: "nested bs n \<Longrightarrow> inner_end bs n \<le> n"
  by (induction bs n rule: nested.induct) auto

lemma within_position: "within r \<Longrightarrow> position r \<le> length (input r)"
  using inner_end_bound [of "bounds r"] by (fastforce simp: within_def end_of_def)

lemma fail_simps [simp]:
  "input (fail e r) = input r" "position (fail e r) = position r" "bounds (fail e r) = bounds r" "number (fail e r) = number r"
  "wire (fail e r) = wire r" "start (fail e r) = start r" "end_of (fail e r) = end_of r" "error (fail e r) \<noteq> None"
  by (auto simp: fail_def end_of_def)

text \<open>What only moves the position, and may fail.\<close>

definition advances :: "reader \<Rightarrow> reader \<Rightarrow> bool" where
  "advances r r' \<longleftrightarrow> input r' = input r \<and> bounds r' = bounds r \<and> number r' = number r \<and> wire r' = wire r \<and>
     start r' = start r \<and> position r \<le> position r' \<and> (position r \<le> end_of r \<longrightarrow> position r' \<le> end_of r)"

lemma advances_refl [simp]: "advances r r" "advances r (fail e r)"
  by (auto simp: advances_def)

lemma advances_end: "advances r r' \<Longrightarrow> end_of r' = end_of r"
  by (simp add: advances_def end_of_def)

lemma advances_trans: "advances r s \<Longrightarrow> advances s t \<Longrightarrow> advances r t"
  by (auto simp: advances_def end_of_def)

lemma advances_within: "advances r r' \<Longrightarrow> within r \<Longrightarrow> within r'"
  by (auto simp: advances_def within_def end_of_def)

lemma varint_loop_advances: "e = end_of r \<Longrightarrow> advances r (snd (varint_loop k i e v r))"
proof (induction k i e v r rule: varint_loop.induct)
  case (2 k i e v r)
  show ?case
  proof (cases "position r < length (input r) \<and> position r < e")
    case True
    let ?r = "r\<lparr>position := position r + 1\<rparr>"
    have "advances r ?r" "end_of ?r = e" using True 2(2) by (auto simp: advances_def end_of_def)
    then show ?thesis using 2(1) [OF True refl refl refl] True by (auto simp: Let_def intro: advances_trans)
  qed (use 2 in auto)
qed simp

lemma read_varint_advances: "advances r (snd (read_varint r))"
  unfolding read_varint_def by (rule varint_loop_advances) simp

lemma read_varint_some: "read_varint r = (Some v, r') \<Longrightarrow> position r < position r'"
proof -
  have "varint_loop k i e w r = (Some v, r') \<Longrightarrow> position r < position r'" for k i e w
  proof (induction k i e w r rule: varint_loop.induct)
    case (2 k i e w r)
    then show ?case by (fastforce simp: Let_def split: if_splits)
  qed simp
  then show "read_varint r = (Some v, r') \<Longrightarrow> position r < position r'" unfolding read_varint_def .
qed

lemma take_bytes_advances: "advances r (snd (take_bytes n r))"
  by (auto simp: take_bytes_def advances_def end_of_def)

lemma expect_advances: "advances r (snd (expect w what r))"
  by (auto simp: expect_def)

lemmas advances_ops = read_varint_advances take_bytes_advances expect_advances

text \<open>What a step of the reader keeps: the input, what is read already, and the bounds.\<close>

definition keeps :: "reader \<Rightarrow> reader \<Rightarrow> bool" where
  "keeps r r' \<longleftrightarrow> (within r \<longrightarrow> within r') \<and> input r' = input r \<and> position r \<le> position r'"

lemma keeps_trans: "keeps r s \<Longrightarrow> keeps s t \<Longrightarrow> keeps r t"
  by (auto simp: keeps_def)

lemma advances_keeps: "advances r r' \<Longrightarrow> keeps r r'"
  using advances_within [of r r'] by (auto simp: keeps_def advances_def)

lemma keeps_pop: "bounds r = b # bs \<Longrightarrow> keeps r (r\<lparr>bounds := bs\<rparr>)"
  by (cases b) (auto simp: keeps_def within_def end_of_def)

lemma keeps_push_group: "length (bounds r) < DEPTH \<Longrightarrow> keeps r (r\<lparr>bounds := BGroup g # bounds r\<rparr>)"
  by (auto simp: keeps_def within_def end_of_def)

lemma read_tag_keeps: "read_tag r = (n, r') \<Longrightarrow> keeps r r'"
  "read_tag r = (n, r') \<Longrightarrow> n \<noteq> 0 \<Longrightarrow> n \<noteq> - 1 \<Longrightarrow> position r < position r'"
proof -
  let ?r = "r\<lparr>start := position r\<rparr>"
  have s: "keeps r ?r" by (auto simp: keeps_def within_def end_of_def)
  obtain v s' where v: "read_varint ?r = (v, s')" by (cases "read_varint ?r")
  have k: "keeps ?r s'" using advances_keeps [OF read_varint_advances [of ?r]] v by simp
  have f: "keeps s' (fail e s')" for e by (rule advances_keeps) simp
  have n: "keeps s' (s'\<lparr>number := x, wire := y\<rparr>)" for x y by (auto simp: keeps_def within_def end_of_def)
  show "keeps r r'" if "read_tag r = (n, r')"
    using that v keeps_trans [OF s k] f n keeps_pop [of s']
    by (auto simp: read_tag_def Let_def split: option.splits if_splits list.splits bound.splits
        intro: keeps_trans [OF keeps_trans [OF s k]])
  show "position r < position r'" if "read_tag r = (n, r')" "n \<noteq> 0" "n \<noteq> - 1"
    using that v read_varint_some [of ?r]
    by (auto simp: read_tag_def Let_def split: option.splits if_splits list.splits bound.splits)
qed

lemma pb_next_keeps: "pb_next r = (n, r') \<Longrightarrow> keeps r r'"
  using read_tag_keeps(1) [of r n r'] keeps_pop [of r]
  by (auto simp: pb_next_def keeps_def split: if_splits list.splits bound.splits)

lemma pb_next_consumes: "pb_next r = (n, r') \<Longrightarrow> n \<noteq> 0 \<Longrightarrow> n \<noteq> - 1 \<Longrightarrow> position r < position r'"
  using read_tag_keeps(2) [of r n r'] by (auto simp: pb_next_def split: if_splits list.splits bound.splits)

lemma skip_keeps:
  "skip_field k r = Some r' \<Longrightarrow> keeps r r'"
  "skip_group k r = Some r' \<Longrightarrow> keeps r r'"
proof (induction k r and k r arbitrary: r' and r' rule: skip_field_skip_group.induct)
  case (2 k r)
  show ?case
  proof (cases "wire r = START_GROUP \<and> length (bounds r) < DEPTH")
    case True
    then show ?thesis using 2 keeps_push_group [of r "number r"] by (auto intro: keeps_trans)
  next
    case False
    have "keeps r (snd (take_bytes (unat n) r''))" if "read_varint r = (Some n, r'')" for n r''
      using advances_trans [OF read_varint_advances [of r]] that take_bytes_advances by (intro advances_keeps) auto
    then show ?thesis
      using 2(2) False advances_keeps [OF read_varint_advances [of r]] advances_keeps [OF take_bytes_advances [of r]]
      by (auto split: if_splits option.splits prod.splits intro: advances_keeps)
  qed
next
  case (4 k r)
  obtain n s where n: "pb_next r = (n, s)" by (cases "pb_next r")
  show ?case
  proof (cases "n = 0 \<or> n = - 1")
    case False
    then obtain t where t: "skip_field k s = Some t" "skip_group k t = Some r'"
      using 4(3) n by (auto split: option.splits)
    have "keeps s t" "keeps t r'" using 4(1,2) False n t by auto
    then show ?thesis using pb_next_keeps [OF n] by (blast intro: keeps_trans)
  qed (use 4(3) n pb_next_keeps in auto)
qed auto

text \<open>Two for each byte left are enough: each turn of a group reads a tag of a byte at least.\<close>

lemma skip_enough:
  "within r \<Longrightarrow> 2 * (length (input r) - position r) + 2 \<le> k \<Longrightarrow> skip_field k r \<noteq> None"
  "within r \<Longrightarrow> 2 * (length (input r) - position r) + 1 \<le> k \<Longrightarrow> skip_group k r \<noteq> None"
proof (induction k r and k r rule: skip_field_skip_group.induct)
  case (2 k r)
  show ?case
  proof (cases "wire r = START_GROUP \<and> length (bounds r) < DEPTH")
    case True
    have "within (r\<lparr>bounds := BGroup (number r) # bounds r\<rparr>)"
      using True 2(2) keeps_push_group [of r "number r"] by (simp add: keeps_def)
    then show ?thesis using 2(1,3) True by simp
  qed (auto split: option.splits prod.splits)
next
  case (4 k r)
  obtain n s where n: "pb_next r = (n, s)" by (cases "pb_next r")
  show ?case
  proof (cases "n = 0 \<or> n = - 1")
    case False
    have s: "within s" "input s = input r" "position r < position s"
      using pb_next_keeps [OF n] pb_next_consumes [OF n] False 4(3) by (auto simp: keeps_def)
    then have "position s \<le> length (input r)" using within_position [of s] by simp
    then have f: "2 * (length (input s) - position s) + 2 \<le> k" using s 4(4) by simp
    from 4(1) [OF n [symmetric] False s(1) f] obtain t where t: "skip_field k s = Some t" by auto
    have "within t" "input t = input s" "position s \<le> position t" using skip_keeps(1) [OF t] s(1) by (auto simp: keeps_def)
    then have "skip_group k t \<noteq> None" using 4(2) [OF n [symmetric] False t] f by simp
    then show ?thesis using n t False by simp
  qed (use n in auto)
qed auto

lemma pb_skip_keeps: "keeps r (pb_skip r)"
proof (cases "skip_field (2 * (length (input r) - position r) + 2) r")
  case (Some s)
  then show ?thesis using skip_keeps(1) [OF Some] by (simp add: pb_skip_def)
qed (simp add: pb_skip_def keeps_def)

lemma pb_skip_is: "within r \<Longrightarrow> skip_field (2 * (length (input r) - position r) + 2) r = Some (pb_skip r)"
  using skip_enough(1) [OF _ le_refl, of r] unfolding pb_skip_def by (auto simp del: skip_field.simps)

subsection \<open>The operations of a message\<close>

lemma keeps_expect: "expect w what r = (b, r') \<Longrightarrow> keeps r r'"
  using advances_keeps [OF expect_advances [of r w what]] by simp

lemma keeps_varint: "read_varint r = (v, r') \<Longrightarrow> keeps r r'"
  using advances_keeps [OF read_varint_advances [of r]] by simp

lemma keeps_take: "take_bytes n r = (v, r') \<Longrightarrow> keeps r r'"
  using advances_keeps [OF take_bytes_advances [of r n]] by simp

lemma keeps_fail: "keeps r (fail e r)"
  by (rule advances_keeps) simp

lemmas keeps_rules = keeps_expect keeps_varint keeps_take keeps_fail keeps_trans

lemma keeps_read: "keeps r (snd (pb_read_varint r))" "keeps r (snd (pb_read_zigzag r))" "keeps r (snd (pb_read_fixed32 r))"
  "keeps r (snd (pb_read_fixed64 r))" "keeps r (snd (read_length r))"
proof -
  obtain b s where b: "expect VARINT ''a varint'' r = (b, s)" by fastforce
  obtain v t where "read_varint s = (v, t)" by fastforce
  then show v: "keeps r (snd (pb_read_varint r))" using b keeps_rules by (cases b) (auto simp: pb_read_varint_def, blast)
  then show "keeps r (snd (pb_read_zigzag r))" by (auto simp: pb_read_zigzag_def split: prod.splits)
next
  obtain b s where b: "expect FIXED32 ''4 bytes'' r = (b, s)" by fastforce
  obtain v t where "take_bytes 4 s = (v, t)" by fastforce
  then show "keeps r (snd (pb_read_fixed32 r))" using b keeps_rules by (cases b) (auto simp: pb_read_fixed32_def, blast)
next
  obtain b s where b: "expect FIXED64 ''8 bytes'' r = (b, s)" by fastforce
  obtain v t where "take_bytes 8 s = (v, t)" by fastforce
  then show "keeps r (snd (pb_read_fixed64 r))" using b keeps_rules by (cases b) (auto simp: pb_read_fixed64_def, blast)
next
  obtain b s where b: "expect DELIMITED ''a length-delimited value'' r = (b, s)" by fastforce
  obtain v t where v: "read_varint s = (v, t)" by fastforce
  obtain w u where w: "take_bytes (unat (the v)) t = (w, u)" by fastforce
  have k: "keeps r s" "keeps r t" "keeps r u"
    using keeps_expect [OF b] keeps_varint [OF v] keeps_take [OF w] by (blast intro: keeps_trans)+
  have "snd (read_length r) \<in> {s, t, u}" using b v w by (cases b; cases v) (simp_all add: read_length_def)
  then show "keeps r (snd (read_length r))" using k by auto
qed

lemma keeps_push:
  "length (bounds s) < DEPTH \<Longrightarrow> e \<le> end_of s \<Longrightarrow> (within s \<longrightarrow> position s \<le> e) \<Longrightarrow> keeps s (s\<lparr>bounds := BLength e p # bounds s\<rparr>)"
  by (auto simp: keeps_def within_def end_of_def)

lemma keeps_enter: "keeps r (pb_enter packed r)"
proof (cases "DEPTH \<le> length (bounds r) \<or> wire r = START_GROUP \<and> \<not> packed")
  case True
  then show ?thesis using keeps_push_group [of r "number r"] keeps_fail [of r] by (auto simp: pb_enter_def)
next
  case False
  obtain b s where b: "expect DELIMITED ''a length-delimited value'' r = (b, s)" by fastforce
  obtain v t where v: "read_varint s = (v, t)" by fastforce
  have k: "keeps r s" "keeps s t" using keeps_expect [OF b] keeps_varint [OF v] .
  have "bounds t = bounds r"
    using read_varint_advances [of s] expect_advances [of r DELIMITED "''a length-delimited value''"] v b by (simp add: advances_def)
  then have d: "length (bounds t) < DEPTH" using False by simp
  let ?e = "\<lambda>n. min (position t + unat n) (2 ^ 64 - 1)"
  have "within t \<longrightarrow> position t \<le> ?e n" for n :: u64 using within_position [of t] by (auto simp: within_def)
  then have "keeps t (if end_of t < ?e n then fail (PastEnd (unat n)) t else t\<lparr>bounds := BLength (?e n) packed # bounds t\<rparr>)" for n :: u64
    using keeps_push [OF d, of "?e n" packed] keeps_fail [of t] by (simp only: if_split not_less) blast
  note this [of "the v"]
  then show ?thesis using False b v keeps_trans [OF k] k
    by (cases b; cases v) (auto simp: pb_enter_def Let_def intro: keeps_trans)
qed

text \<open>What a program can do with a reader.\<close>

inductive pb_step :: "reader \<Rightarrow> reader \<Rightarrow> bool" where
  "pb_step r (snd (pb_next r))"
| "pb_step r (snd (pb_read_varint r))"
| "pb_step r (snd (pb_read_zigzag r))"
| "pb_step r (snd (pb_read_fixed32 r))"
| "pb_step r (snd (pb_read_fixed64 r))"
| "pb_step r (snd (pb_read_bytes r))"
| "pb_step r (snd (pb_read_text r))"
| "pb_step r (pb_enter packed r)"
| "pb_step r (snd (pb_more r))"
| "pb_step r (pb_skip r)"
| "pb_step r (snd (pb_raw r))"
| "pb_step r (pb_fail message r)"

lemma step_keeps: "pb_step r r' \<Longrightarrow> keeps r r'"
proof (induction rule: pb_step.induct)
  case (1 r) then show ?case using pb_next_keeps [of r] by (cases "pb_next r") auto
next
  case (7 r)
  obtain b s where b: "read_length r = (b, s)" by fastforce
  then show ?case using keeps_read(5) [of r] keeps_fail [of s] by (auto simp: pb_read_text_def intro: keeps_trans)
next
  case (9 r)
  have "keeps r r" by (simp add: keeps_def)
  then show ?case using keeps_pop [of r] by (auto simp: pb_more_def split: list.splits bound.splits)
qed (simp_all add: keeps_fail pb_fail_def pb_skip_keeps keeps_enter keeps_read pb_read_bytes_def pb_raw_def Let_def)

text \<open>C25: Whatever bytes are read, and whatever a program calls, reading stays within the input: the field's start, the
  position and the end of the innermost message are in this order, messages nest within the ones around them and
  at most 100 deep, the bytes a reader keeps of a field are a slice of the input, and skipping a field ends.\<close>

theorem reading_stays_within:
  assumes "length bs < 2 ^ 64" "pb_step\<^sup>*\<^sup>* (pb_reader bs) r"
  shows "input r = bs \<and> start r \<le> position r \<and> position r \<le> end_of r \<and> end_of r \<le> length bs \<and>
    nested (bounds r) (length bs) \<and> length (bounds r) \<le> 100 \<and>
    position r \<le> position (pb_skip r) \<and> position (pb_skip r) \<le> length bs \<and>
    skip_field (2 * (length bs - position r) + 2) r = Some (pb_skip r)"
proof -
  have k: "keeps (pb_reader bs) r" using assms(2)
    by (induction rule: rtranclp_induct) (auto simp: keeps_def dest!: step_keeps)
  moreover have "within (pb_reader bs)" using assms(1) by (simp add: within_def pb_reader_def end_of_def)
  ultimately have w: "within r" "input r = bs" by (auto simp: keeps_def pb_reader_def)
  have "within (pb_skip r)" "input (pb_skip r) = bs" "position r \<le> position (pb_skip r)"
    using pb_skip_keeps [of r] w by (auto simp: keeps_def)
  then show ?thesis using w pb_skip_is [OF w(1)] within_position [of "pb_skip r"] inner_end_bound [of "bounds r"]
    by (simp add: within_def DEPTH_def end_of_def)
qed

theorem reading_stays_within_witness:
  "let r = snd (pb_next (pb_reader [8, 150])) in start r \<le> position r \<and> position r \<le> end_of r \<and> position (pb_skip r) \<le> length [8, 150 :: u8]"
proof -
  have "pb_step\<^sup>*\<^sup>* (pb_reader [8, 150]) (snd (pb_next (pb_reader [8, 150])))" by (blast intro: pb_step.intros)
  then show ?thesis using reading_stays_within [of "[8, 150]"] by (simp add: Let_def del: skip_field.simps)
qed

lemma zigzag_reads_back: "unzigzag (zigzag v) = v"
proof -
  have s: "signed_drop_bit 63 v = (if bit v 63 then - 1 else 0)"
    by (rule bit_word_eqI) (auto simp: bit_signed_drop_bit_iff Suc_le_eq dest: bit_imp_le_length)
  have z: "bit (zigzag v) k \<longleftrightarrow> k < 64 \<and> (1 \<le> k \<and> bit v (k - 1)) \<noteq> bit v 63" for k
    unfolding zigzag_def s bit_xor_iff bit_push_bit_iff by (auto simp: bit_simps)
  have o: "zigzag v AND 1 = (if bit v 63 then 1 else 0)"
    by (rule bit_word_eqI) (auto simp: bit_simps z)
  show ?thesis
  proof (rule bit_word_eqI)
    fix n assume "n < LENGTH(64)"
    then have "n < 63 \<or> n = 63" by auto
    then show "bit (unzigzag (zigzag v)) n = bit v n"
      unfolding unzigzag_def o by (auto simp: z bit_simps)
  qed
qed

end
