(* ===== verification/WireFormat.thy ===== *)
theory WireFormat
  imports Protobuf
begin

text \<open>
  Messages as trees, written and read with the operations of \<open>Protobuf\<close> the way compiled code calls them, field by
  field: what is written reads back, and a field that is skipped keeps its bytes.
\<close>

subsection \<open>Messages\<close>

datatype pb_value =
  Varint u64 | Fixed64 u64 | Fixed32 u32 | Bytes "u8 list" | Packed "u64 list"
| Message "(nat \<times> pb_value) list" | Group "(nat \<times> pb_value) list"

datatype schema = KVarint | KFixed64 | KFixed32 | KBytes | KPacked | KMessage "(nat \<times> schema) list" | KGroup "(nat \<times> schema) list"

fun schema_of :: "pb_value \<Rightarrow> schema" and schemas_of :: "(nat \<times> pb_value) list \<Rightarrow> (nat \<times> schema) list" where
  "schema_of (Varint _) = KVarint"
| "schema_of (Fixed64 _) = KFixed64"
| "schema_of (Fixed32 _) = KFixed32"
| "schema_of (Bytes _) = KBytes"
| "schema_of (Packed _) = KPacked"
| "schema_of (Message fs) = KMessage (schemas_of fs)"
| "schema_of (Group fs) = KGroup (schemas_of fs)"
| "schemas_of [] = []"
| "schemas_of ((n, v) # fs) = (n, schema_of v) # schemas_of fs"

fun write_field :: "nat \<Rightarrow> pb_value \<Rightarrow> writer \<Rightarrow> writer" and write_fields :: "(nat \<times> pb_value) list \<Rightarrow> writer \<Rightarrow> writer" where
  "write_field n (Varint v) w = pb_write_varint (int n) v w"
| "write_field n (Fixed64 v) w = pb_write_fixed64 (int n) v w"
| "write_field n (Fixed32 v) w = pb_write_fixed32 (int n) (ucast v) w"
| "write_field n (Bytes bs) w = pb_write_bytes (int n) bs w"
| "write_field n (Packed vs) w = pb_end (fold (pb_write_varint 0) vs (pb_begin (int n) w))"
| "write_field n (Message fs) w = pb_end (write_fields fs (pb_begin (int n) w))"
| "write_field n (Group fs) w = pb_write_group (int n) False (write_fields fs (pb_write_group (int n) True w))"
| "write_fields [] w = w"
| "write_fields ((n, v) # fs) w = write_fields fs (write_field n v w)"

fun read_packed :: "nat \<Rightarrow> reader \<Rightarrow> u64 list \<times> reader" where
  "read_packed 0 r = ([], r)"
| "read_packed (Suc k) r =
     (case pb_more r of
        (False, r) \<Rightarrow> ([], r)
      | (True, r) \<Rightarrow> (case pb_read_varint r of (v, r) \<Rightarrow> (case read_packed k r of (vs, r) \<Rightarrow> (v # vs, r))))"

fun read_value :: "schema \<Rightarrow> reader \<Rightarrow> pb_value \<times> reader"
  and read_fields :: "(nat \<times> schema) list \<Rightarrow> reader \<Rightarrow> (nat \<times> pb_value) list \<times> reader" where
  "read_value KVarint r = (case pb_read_varint r of (v, r) \<Rightarrow> (Varint v, r))"
| "read_value KFixed64 r = (case pb_read_fixed64 r of (v, r) \<Rightarrow> (Fixed64 v, r))"
| "read_value KFixed32 r = (case pb_read_fixed32 r of (v, r) \<Rightarrow> (Fixed32 (ucast v), r))"
| "read_value KBytes r = (case pb_read_bytes r of (v, r) \<Rightarrow> (Bytes v, r))"
| "read_value KPacked r = (case read_packed (length (input r) + 1) (pb_enter True r) of (vs, r) \<Rightarrow> (Packed vs, r))"
| "read_value (KMessage ks) r =
     (case read_fields ks (pb_enter False r) of (fs, r) \<Rightarrow> (Message fs, snd (pb_next r)))"
| "read_value (KGroup ks) r =
     (case read_fields ks (pb_enter False r) of (fs, r) \<Rightarrow> (Group fs, snd (pb_next r)))"
| "read_fields [] r = ([], r)"
| "read_fields ((n, k) # ks) r =
     (case pb_next r of (m, r) \<Rightarrow>
      case read_value k r of (v, r) \<Rightarrow>
      case read_fields ks r of (fs, r) \<Rightarrow> ((nat m, v) # fs, r))"

text \<open>The bytes of a field.\<close>

definition sized :: "nat \<Rightarrow> u8 list \<Rightarrow> u8 list" where
  "sized n bs = tag_bytes (int n) 2 @ varint_bytes (of_nat (length bs)) @ bs"

fun enc_field :: "nat \<Rightarrow> pb_value \<Rightarrow> u8 list" and enc_fields :: "(nat \<times> pb_value) list \<Rightarrow> u8 list" where
  "enc_field n (Varint v) = tag_bytes (int n) 0 @ varint_bytes v"
| "enc_field n (Fixed64 v) = tag_bytes (int n) 1 @ le_bytes 8 v"
| "enc_field n (Fixed32 v) = tag_bytes (int n) 5 @ le_bytes 4 v"
| "enc_field n (Bytes bs) = sized n bs"
| "enc_field n (Packed vs) = sized n (concat (map varint_bytes vs))"
| "enc_field n (Message fs) = sized n (enc_fields fs)"
| "enc_field n (Group fs) = tag_bytes (int n) 3 @ enc_fields fs @ tag_bytes (int n) 4"
| "enc_fields [] = []"
| "enc_fields ((n, v) # fs) = enc_field n v @ enc_fields fs"

lemma append_buffer_simps: "append_buffer [] w = w" "append_buffer b (append_buffer a w) = append_buffer (a @ b) w"
  by (auto simp: append_buffer_def split: list.splits prod.splits)

lemma end_begin: "pb_end (append_buffer x (pb_begin n w)) =
    append_buffer (tag_bytes n 2 @ varint_bytes (of_nat (length x)) @ x) w"
  by (simp add: pb_end_def close_open_def append_buffer_def [of x] pb_begin_def write_tag_def append_buffer_simps)

lemma fold_packed: "fold (pb_write_varint 0) vs w = append_buffer (concat (map varint_bytes vs)) w"
  by (induction vs arbitrary: w)
    (simp_all add: append_buffer_simps pb_write_varint_def write_wire_def write_tag_def tag_bytes_def)

lemma narrow_wide: "ucast (ucast v :: u64) = (v :: u32)"
  by (rule bit_word_eqI) (simp add: bit_simps)

lemma writes:
  "write_field n v w = append_buffer (enc_field n v) w"
  "write_fields fs w = append_buffer (enc_fields fs) w"
  by (induction n v w and fs w rule: write_field_write_fields.induct)
    (simp_all add: append_buffer_simps pb_write_varint_def write_wire_def write_tag_def pb_write_fixed64_def
      pb_write_fixed32_def pb_write_bytes_def write_length_def sized_def end_begin fold_packed pb_write_group_def narrow_wide)

lemma finish_written: "fst (pb_finish (write_fields fs (pb_writer d))) = enc_fields fs"
  by (simp add: pb_finish_def writes close_all.simps pb_writer_def append_buffer_def Let_def)

subsection \<open>Reading what is ahead\<close>

definition ahead :: "reader \<Rightarrow> u8 list \<Rightarrow> bool" where
  "ahead r bs \<longleftrightarrow> error r = None \<and> length (input r) < 2 ^ 64 \<and> (\<exists>post. drop (position r) (input r) = bs @ post) \<and>
     position r + length bs \<le> end_of r \<and> end_of r \<le> length (input r)"

definition past :: "reader \<Rightarrow> nat \<Rightarrow> reader \<Rightarrow> bool" where
  "past r k r' \<longleftrightarrow> input r' = input r \<and> bounds r' = bounds r \<and> position r' = position r + k \<and> error r' = None"

lemma ahead_prefix: "ahead r (a @ b) \<Longrightarrow> ahead r a"
  by (auto simp: ahead_def)

lemma past_ahead:
  assumes "past r (length a) r'" "ahead r (a @ b)" shows "ahead r' b"
proof -
  obtain post where p: "drop (position r) (input r) = (a @ b) @ post" using assms(2) by (auto simp: ahead_def)
  have "drop (position r') (input r') = drop (length a) (drop (position r) (input r))"
    using assms(1) by (simp add: past_def add.commute)
  then have "drop (position r') (input r') = b @ post" by (simp add: p)
  then show ?thesis using assms by (auto simp: past_def ahead_def end_of_def)
qed

lemma past_trans: "past r j s \<Longrightarrow> past s k t \<Longrightarrow> past r (j + k) t"
  by (simp add: past_def)

lemma ahead_nth: "ahead r (b # bs) \<Longrightarrow> position r < length (input r) \<and> input r ! position r = b \<and> position r < end_of r"
  by (auto simp: ahead_def nth_via_drop)

lemma bit_marks: "7 < LENGTH('a) \<Longrightarrow> bit (0x80 :: 'a::len word) n \<longleftrightarrow> n = 7" "(0x7f :: 'a::len word) = mask 7"
  using bit_exp_iff [where 'a = "'a word", of 7 n] by (auto simp: mask_eq_exp_minus_1)

lemma bit_mark_int: "bit (128 :: int) n \<longleftrightarrow> n = 7"
  using bit_exp_iff [where 'a = int, of 7 n] by simp

lemma small_bits: 
  assumes "v < 0x80" shows "bit (v :: u64) n \<longrightarrow> n < 7"
proof -
  have "unat v < 128" using assms by (simp add: word_less_nat_alt)
  then have "take_bit 7 (unat v) = unat v" by (simp add: take_bit_eq_mod)
  then have "take_bit 7 v = v" by (metis unsigned_take_bit_eq word_unat_eq_iff)
  then show ?thesis by (metis bit_take_bit_iff)
qed

lemma marked: "b < (0x80 :: u8) \<longleftrightarrow> \<not> bit b 7"
proof -
  have b: "unat b < 256" using unsigned_less [of b] by simp
  have "even (unat b div 128) \<longleftrightarrow> unat b < 128"
  proof (cases "unat b < 128")
    case False
    then have "unat b div 128 = 1" using b by (intro div_nat_eqI) auto
    then show ?thesis using False by simp
  qed simp
  moreover have "bit b 7 = odd (unat b div 128)"
    using bit_unsigned_iff [where 'a = nat, of b 7] by (simp add: bit_iff_odd)
  ultimately show ?thesis by (simp add: word_less_nat_alt)
qed

lemma varint_byte: "(ucast ((ucast v OR 0x80 :: u8) AND 0x7f) :: u64) = v AND 0x7f" "\<not> (ucast v OR 0x80 :: u8) < 0x80"
  unfolding marked by (rule bit_word_eqI) (auto simp: bit_simps bit_marks bit_mark_int)

lemma varint_last:
  assumes "v < 0x80"
  shows "(ucast ((ucast v :: u8) AND 0x7f) :: u64) = v" "(ucast v :: u8) < 0x80"
proof -
  show "(ucast ((ucast v :: u8) AND 0x7f) :: u64) = v"
    by (rule bit_word_eqI) (use small_bits [OF assms] in \<open>fastforce simp: bit_simps bit_marks\<close>)
  show "(ucast v :: u8) < 0x80" unfolding marked using small_bits [OF assms, of 7] by (simp add: bit_simps)
qed

lemma varint_split: "push_bit n (v AND 0x7f) OR push_bit (n + 7) (drop_bit 7 v) = push_bit n (v :: u64)"
proof (rule bit_word_eqI)
  fix k
  have "7 + (k - (n + 7)) = k - n" if "\<not> k - n < 7" using that by simp
  then show "bit (push_bit n (v AND 0x7f) OR push_bit (n + 7) (drop_bit 7 v)) k = bit (push_bit n v) k"
    by (cases "k - n < 7") (auto simp: bit_simps bit_marks)
qed
lemma varint_loop_reads:
  assumes "ahead r (varint_bytes v)" "e = end_of r" "length (varint_bytes v) \<le> k"
  shows "varint_loop k i e acc r = (Some (acc OR push_bit (i * 7) v), r\<lparr>position := position r + length (varint_bytes v)\<rparr>)"
  using assms
proof (induction v arbitrary: r k i acc rule: varint_bytes.induct)
  case (1 v)
  then obtain k' where k: "k = Suc k'" by (cases k) (auto simp: varint_bytes.simps [of v] split: if_splits)
  show ?case
  proof (cases "0x80 \<le> v")
    case True
    let ?b = "ucast v OR 0x80 :: u8" let ?r = "r\<lparr>position := position r + 1\<rparr>"
    have v: "varint_bytes v = ?b # varint_bytes (drop_bit 7 v)" using True by (subst varint_bytes.simps) simp
    have "ahead ?r (varint_bytes (drop_bit 7 v))"
      using past_ahead [of r "[?b]" ?r] 1(2) v by (auto simp: past_def ahead_def)
    then have "varint_loop k' (i + 1) e (acc OR push_bit (i * 7) (v AND 0x7f)) ?r =
        (Some ((acc OR push_bit (i * 7) (v AND 0x7f)) OR push_bit ((i + 1) * 7) (drop_bit 7 v)),
         ?r\<lparr>position := position ?r + length (varint_bytes (drop_bit 7 v))\<rparr>)"
      using 1 True k v by (intro 1(1)) (auto simp: end_of_def)
    moreover have "(acc OR push_bit (i * 7) (v AND 0x7f)) OR push_bit ((i + 1) * 7) (drop_bit 7 v) = acc OR push_bit (i * 7) v"
      using varint_split [of "i * 7" v] by (simp add: or.assoc add.commute)
    ultimately show ?thesis
      using ahead_nth [of r ?b] 1(2,3) v k varint_byte [of v] by (simp add: Let_def)
  next
    case False
    then have v: "varint_bytes v = [ucast v]" by (subst varint_bytes.simps) simp
    show ?thesis using varint_last [of v] False ahead_nth [of r "ucast v"] 1(2,3) v k by (simp add: Let_def)
  qed
qed

lemma length_varint_bytes: "unat v < 2 ^ (7 * Suc k) \<Longrightarrow> length (varint_bytes v) \<le> Suc k"
proof (induction v arbitrary: k rule: varint_bytes.induct)
  case (1 v)
  show ?case
  proof (cases "0x80 \<le> v")
    case True
    then obtain j where k: "k = Suc j" using 1(2) by (cases k) (auto simp: word_le_nat_alt)
    have "unat (drop_bit 7 v) < 2 ^ (7 * Suc j)"
    proof -
      have "unat v < 2 ^ (7 * Suc j) * 128" using 1(2) by (simp add: k power_add mult.commute)
      then have "unat v div 128 < 2 ^ (7 * Suc j)" by (rule less_mult_imp_div_less)
      then show ?thesis by (simp add: unat_drop_bit_eq drop_bit_eq_div unat_div)
    qed
    then show ?thesis using 1(1) [OF True, of j] True k by (subst varint_bytes.simps) simp
  qed (subst varint_bytes.simps, simp)
qed

lemma read_varint_reads:
  assumes "ahead r (varint_bytes v)"
  shows "read_varint r = (Some v, r\<lparr>position := position r + length (varint_bytes v)\<rparr>)"
proof -
  have "unat v < 2 ^ 64" using unsigned_less [of v] by simp
  also have "(2 :: nat) ^ 64 < 2 ^ (7 * Suc 9)" by simp
  finally have "length (varint_bytes v) \<le> Suc 9" by (rule length_varint_bytes)
  then show ?thesis using varint_loop_reads [OF assms refl, of 10 0 0] by (simp add: read_varint_def)
qed

lemma take_bytes_reads:
  assumes "ahead r bs"
  shows "take_bytes (length bs) r = (Some bs, r\<lparr>position := position r + length bs\<rparr>)"
  using assms by (auto simp: take_bytes_def ahead_def)

lemma le_round: "from_le (le_bytes n w) = take_bit (8 * n) (w :: 'a::len word)"
proof (induction n arbitrary: w)
  case (Suc n)
  show ?case
  proof (rule bit_word_eqI)
    fix k assume "k < LENGTH('a)"
    then show "bit (from_le (le_bytes (Suc n) w) :: 'a word) k = bit (take_bit (8 * Suc n) w) k"
      using Suc by (cases "k < 8") (auto simp: bit_simps)
  qed
qed simp

lemma le_rounds: "from_le (le_bytes 4 w) = (w :: u32)" "from_le (le_bytes 8 v) = (v :: u64)"
  by (simp_all add: le_round take_bit_word_eq_self)

lemma length_le_bytes [simp]: "length (le_bytes n w) = n"
  by (induction n arbitrary: w) simp_all

lemma nat_bit_less: "z < 2 ^ m \<Longrightarrow> bit (z :: nat) k \<Longrightarrow> k < m"
  by (metis bit_take_bit_iff take_bit_nat_eq_self)

lemma tag_parts:
  assumes "n < 2 ^ 29" "w < 8"
  defines "t \<equiv> push_bit 3 (word_of_int (int n)) OR of_nat w :: u64"
  shows "drop_bit 3 t = of_nat n" "unat (t AND 7) = w"
proof -
  have n: "bit n k \<Longrightarrow> k < 29" for k using nat_bit_less [of n 29 k] assms(1) by simp
  have w: "bit w k \<Longrightarrow> k < 3" for k using nat_bit_less [of w 3 k] assms(2) by simp
  show "drop_bit 3 t = of_nat n"
    unfolding t_def by (rule bit_word_eqI) (auto simp: bit_simps dest: n w)
  have m: "(7 :: u64) = mask 3" by (simp add: mask_eq_exp_minus_1)
  have "t AND 7 = of_nat w"
    unfolding t_def m by (rule bit_word_eqI) (auto simp: bit_simps dest: n w)
  then show "unat (t AND 7) = w" using assms(2) by (simp add: unat_of_nat)
qed

definition field_number :: "nat \<Rightarrow> bool" where
  "field_number n \<longleftrightarrow> 0 < n \<and> n < 2 ^ 29"

lemma tag_reads:
  assumes "ahead r (tag_bytes (int n) w)" "field_number n" "w < 8" 
  shows "\<exists>r'. read_tag r = (if w = 4 then
      (case bounds r of BGroup g # rest \<Rightarrow> if g = of_nat n then (0, r'\<lparr>bounds := rest\<rparr>) else (- 1, fail (ClosesNoGroup (of_nat n)) r')
                | _ \<Rightarrow> (- 1, fail (ClosesNoGroup (of_nat n)) r'))
     else if 5 < w then (- 1, fail (NoWire (of_nat n) w) r')
     else (int n, r'\<lparr>number := of_nat n, wire := w\<rparr>)) \<and> past r (length (tag_bytes (int n) w)) r' \<and> start r' = position r"
proof -
  let ?t = "push_bit 3 (word_of_int (int n)) OR of_nat w :: u64"
  let ?s = "r\<lparr>start := position r\<rparr>"
  let ?r = "?s\<lparr>position := position r + length (tag_bytes (int n) w)\<rparr>"
  have n: "0 < n" "n < 2 ^ 29" using assms(2) by (auto simp: field_number_def)
  then have b: "tag_bytes (int n) w = varint_bytes ?t" by (simp add: tag_bytes_def)
  have "ahead ?s (varint_bytes ?t)" using assms(1) b by (simp add: ahead_def end_of_def)
  then have r: "read_varint ?s = (Some ?t, ?r)" using b by (simp add: read_varint_reads)
  have u: "uint (of_nat n :: u64) = int n" using n by (simp add: uint_nat unat_of_nat)
  have "(of_nat n :: u64) \<noteq> 0" "\<not> (0x1fffffff :: u64) < of_nat n"
    using n by (simp_all add: word_less_nat_alt unat_of_nat word_unat_eq_iff)
  then show ?thesis
    using r tag_parts [OF n(2) assms(3)] u assms(1)
    by (intro exI [of _ ?r]) (auto simp: read_tag_def Let_def past_def ahead_def split: list.splits bound.splits)
qed

lemma varint_not_nil [simp]: "varint_bytes v \<noteq> []"
  by (subst varint_bytes.simps) simp

lemma next_is_tag:
  assumes "ahead r (tag_bytes (int n) w @ x)" "field_number n" shows "pb_next r = read_tag r"
proof -
  have "tag_bytes (int n) w \<noteq> []" using assms(2) by (simp add: tag_bytes_def field_number_def)
  then obtain b bs where b: "tag_bytes (int n) w @ x = b # bs" by (cases "tag_bytes (int n) w") auto
  show ?thesis using ahead_nth [of r b bs] assms(1) unfolding b
    by (auto simp: pb_next_def ahead_def end_of_def split: list.splits bound.splits)
qed

text \<open>The tag of a field, and of the end of a group.\<close>

definition tagged :: "nat \<Rightarrow> nat \<Rightarrow> nat \<Rightarrow> u8 list \<Rightarrow> reader \<Rightarrow> bool" where
  "tagged s n w x r \<longleftrightarrow> wire r = w \<and> number r = of_nat n \<and> start r = s \<and> ahead r x"

lemma next_reads:
  assumes "ahead r (tag_bytes (int n) w @ x)" "field_number n" "w \<le> 5" "w \<noteq> 4"
  shows "\<exists>r1. pb_next r = (int n, r1) \<and> past r (length (tag_bytes (int n) w)) r1 \<and> tagged (position r) n w x r1"
proof -
  obtain s where s: "read_tag r = (int n, s\<lparr>number := of_nat n, wire := w\<rparr>)" "past r (length (tag_bytes (int n) w)) s" "start s = position r"
    using tag_reads [OF ahead_prefix [OF assms(1)] assms(2), of] assms(3,4) by auto
  let ?s = "s\<lparr>number := of_nat n, wire := w\<rparr>"
  have "past r (length (tag_bytes (int n) w)) ?s" using s(2) by (simp add: past_def)
  then show ?thesis using s past_ahead assms(1) next_is_tag [OF assms(1,2)] unfolding tagged_def
    by (intro exI [of _ ?s]) auto
qed

lemma next_ends_group:
  assumes "ahead r (tag_bytes (int n) 4)" "field_number n" "bounds r = BGroup (of_nat n) # rest"
  shows "\<exists>r1. pb_next r = (0, r1) \<and> past (r\<lparr>bounds := rest\<rparr>) (length (tag_bytes (int n) 4)) r1"
proof -
  obtain s where s: "read_tag r = (0, s\<lparr>bounds := rest\<rparr>)" "past r (length (tag_bytes (int n) 4)) s"
    using tag_reads [OF assms(1,2), of] assms(3) by auto
  then show ?thesis using next_is_tag [of r n 4 "[]"] assms(1,2) by (auto simp: past_def)
qed

lemma next_ends_length: "error r = None \<Longrightarrow> bounds r = BLength e p # rest \<Longrightarrow> e \<le> position r \<Longrightarrow> pb_next r = (0, r\<lparr>bounds := rest\<rparr>)"
  by (simp add: pb_next_def)

lemma expect_reads: "wire r = w \<Longrightarrow> expect w what r = (True, r)"
  by (simp add: expect_def)

lemma varint_past:
  assumes "ahead r (varint_bytes v @ x)"
  shows "\<exists>r'. read_varint r = (Some v, r') \<and> past r (length (varint_bytes v)) r' \<and> ahead r' x"
proof -
  let ?r = "r\<lparr>position := position r + length (varint_bytes v)\<rparr>"
  have "past r (length (varint_bytes v)) ?r" using assms by (simp add: past_def ahead_def)
  then show ?thesis using read_varint_reads [OF ahead_prefix [OF assms]] past_ahead [OF _ assms] by auto
qed

lemma take_past:
  assumes "ahead r bs" shows "\<exists>r'. take_bytes (length bs) r = (Some bs, r') \<and> past r (length bs) r'"
  using take_bytes_reads [OF assms] assms by (auto simp: past_def ahead_def)

lemma ahead_length: "ahead r bs \<Longrightarrow> length bs < 2 ^ 64"
proof -
  assume a: "ahead r bs"
  then obtain post where "drop (position r) (input r) = bs @ post" by (auto simp: ahead_def)
  then have "length bs \<le> length (input r)" by (metis le_add1 length_append length_drop diff_le_self le_trans)
  then show ?thesis using a by (simp add: ahead_def)
qed

lemma unat_length: "ahead r (x @ bs) \<Longrightarrow> unat (of_nat (length bs) :: u64) = length bs"
  using ahead_length [of r "x @ bs"] by (simp add: unat_of_nat)

lemma read_length_reads:
  assumes "ahead r (varint_bytes (of_nat (length bs)) @ bs)" "wire r = 2"
  shows "\<exists>r'. read_length r = (bs, r') \<and> past r (length (varint_bytes (of_nat (length bs))) + length bs) r'"
proof -
  obtain s where s: "read_varint r = (Some (of_nat (length bs)), s)" "past r (length (varint_bytes (of_nat (length bs)))) s" "ahead s bs"
    using varint_past [OF assms(1)] by blast
  obtain t where "take_bytes (length bs) s = (Some bs, t)" "past s (length bs) t" using take_past [OF s(3)] by blast
  then show ?thesis using s expect_reads [OF assms(2)] unat_length [OF assms(1)] by (auto simp: read_length_def intro: past_trans)
qed

text \<open>Entering a value of a length.\<close>

lemma enter_reads:
  assumes "ahead r (varint_bytes (of_nat (length bs)) @ bs)" "wire r = 2" "length (bounds r) < DEPTH"
  shows "\<exists>r'. pb_enter p r = r' \<and> bounds r' = BLength (position r' + length bs) p # bounds r \<and> ahead r' bs \<and> input r' = input r \<and>
    position r' = position r + length (varint_bytes (of_nat (length bs)))"
proof -
  obtain s where s: "read_varint r = (Some (of_nat (length bs)), s)" "past r (length (varint_bytes (of_nat (length bs)))) s" "ahead s bs"
    using varint_past [OF assms(1)] by blast
  have u: "unat (of_nat (length bs) :: u64) = length bs" by (rule unat_length [OF assms(1)])
  have e: "min (position s + length bs) (2 ^ 64 - 1) = position s + length bs" "position s + length bs \<le> end_of s"
    using s(3) by (auto simp: ahead_def)
  let ?s = "s\<lparr>bounds := BLength (position s + length bs) p # bounds s\<rparr>"
  have "pb_enter p r = ?s" using s(1) assms(2,3) e by (simp add: pb_enter_def expect_reads u not_less)
  moreover have "ahead ?s bs" using s(3) by (auto simp: ahead_def end_of_def)
  ultimately show ?thesis using s(2) by (auto simp: past_def)
qed

lemma enter_group:
  assumes "wire r = 3" "number r = g" "length (bounds r) < DEPTH" "ahead r bs"
  shows "pb_enter False r = r\<lparr>bounds := BGroup g # bounds r\<rparr> \<and> ahead (r\<lparr>bounds := BGroup g # bounds r\<rparr>) bs"
  using assms by (auto simp: pb_enter_def ahead_def end_of_def)

lemma read_packed_reads:
  assumes "bounds r = BLength (position r + length (concat (map varint_bytes vs))) True # rest"
    "ahead r (concat (map varint_bytes vs))" "length vs < k"
  shows "\<exists>r'. read_packed k r = (vs, r') \<and> past (r\<lparr>bounds := rest\<rparr>) (length (concat (map varint_bytes vs))) r'"
  using assms
proof (induction vs arbitrary: r k)
  case Nil
  then show ?case by (cases k) (auto simp: pb_more_def ahead_def past_def)
next
  case (Cons v vs)
  obtain j where k: "k = Suc j" using Cons.prems(3) by (cases k) auto
  obtain s where s: "read_varint r = (Some v, s)" "past r (length (varint_bytes v)) s" "ahead s (concat (map varint_bytes vs))"
    using varint_past [of r v "concat (map varint_bytes vs)"] Cons.prems(2) by auto
  have "varint_bytes v \<noteq> []" by simp
  then have "pb_more r = (True, r)" using Cons.prems(1,2) by (auto simp: pb_more_def ahead_def)
  moreover have "pb_read_varint r = (v, s)" using s(1) Cons.prems(1) by (simp add: pb_read_varint_def expect_def in_packed_def)
  moreover have "\<exists>r'. read_packed j s = (vs, r') \<and> past (s\<lparr>bounds := rest\<rparr>) (length (concat (map varint_bytes vs))) r'"
    using Cons s(2,3) k by (intro Cons.IH) (auto simp: past_def)
  ultimately show ?case using s(2) k by (auto simp: past_def)
qed

subsection \<open>What is written reads back\<close>

fun height :: "pb_value \<Rightarrow> nat" and heights :: "(nat \<times> pb_value) list \<Rightarrow> nat" where
  "height (Packed _) = 1"
| "height (Message fs) = heights fs + 1"
| "height (Group fs) = heights fs + 1"
| "height _ = 0"
| "heights [] = 0"
| "heights ((n, v) # fs) = max (height v) (heights fs)"

fun valid :: "pb_value \<Rightarrow> bool" and valids :: "(nat \<times> pb_value) list \<Rightarrow> bool" where
  "valid (Message fs) = valids fs"
| "valid (Group fs) = valids fs"
| "valid _ = True"
| "valids [] = True"
| "valids ((n, v) # fs) = (field_number n \<and> valid v \<and> valids fs)"

fun wire_of :: "pb_value \<Rightarrow> nat" where
  "wire_of (Varint _) = 0"
| "wire_of (Fixed64 _) = 1"
| "wire_of (Fixed32 _) = 5"
| "wire_of (Group _) = 3"
| "wire_of _ = 2"

definition reads :: "schema \<Rightarrow> pb_value \<Rightarrow> u8 list \<Rightarrow> reader \<Rightarrow> bool" where
  "reads k v bs r \<longleftrightarrow> (\<exists>r'. read_value k r = (v, r') \<and> past r (length bs) r')"

lemma length_packed: "length vs \<le> length (concat (map varint_bytes vs))"
proof (induction vs)
  case (Cons v vs)
  have "0 < length (varint_bytes v)" by simp
  then show ?case using Cons by (simp only: list.map concat.simps length_append list.size)
qed simp

lemma ahead_fits: "ahead r bs \<Longrightarrow> length bs \<le> length (input r)"
  by (auto simp: ahead_def)

lemma sized_reads:
  assumes "tagged s n 2 (varint_bytes (of_nat (length bs)) @ bs) r" "length (bounds r) < DEPTH"
  shows "\<exists>r'. pb_enter p r = r' \<and> bounds r' = BLength (position r' + length bs) p # bounds r \<and> ahead r' bs \<and> input r' = input r \<and>
    position r' + length bs = position r + length (varint_bytes (of_nat (length bs)) @ bs)"
  using enter_reads [of r bs p] assms by (auto simp: tagged_def)

lemma value_reads:
  "valid v \<Longrightarrow> tagged s n w x r \<Longrightarrow> tag_bytes (int n) w @ x = enc_field n v \<Longrightarrow> w = wire_of v \<Longrightarrow>
    field_number n \<Longrightarrow> length (bounds r) + height v \<le> DEPTH \<Longrightarrow> reads (schema_of v) v x r"
  "valids fs \<Longrightarrow> ahead r (enc_fields fs) \<Longrightarrow> length (bounds r) + heights fs \<le> DEPTH \<Longrightarrow>
    \<exists>r'. read_fields (schemas_of fs) r = (fs, r') \<and> past r (length (enc_fields fs)) r'"
proof (induction v and fs arbitrary: s n w x r and r rule: schema_of_schemas_of.induct)
  case (1 v)
  then have "ahead r (varint_bytes v @ [])" "wire r = 0" "x = varint_bytes v" by (auto simp: tagged_def)
  then show ?case using varint_past [of r v "[]"] by (auto simp: reads_def pb_read_varint_def expect_reads)
next
  case (2 v)
  then have "ahead r (le_bytes 8 v)" "wire r = 1" "x = le_bytes 8 v" by (auto simp: tagged_def)
  then show ?case using take_past [of r "le_bytes 8 v"] by (auto simp: reads_def pb_read_fixed64_def expect_reads le_rounds)
next
  case (3 v)
  then have "ahead r (le_bytes 4 v)" "wire r = 5" "x = le_bytes 4 v" by (auto simp: tagged_def)
  then show ?case using take_past [of r "le_bytes 4 v"] by (auto simp: reads_def pb_read_fixed32_def expect_reads le_rounds narrow_wide)
next
  case (4 bs)
  then have "ahead r (varint_bytes (of_nat (length bs)) @ bs)" "wire r = 2" "x = varint_bytes (of_nat (length bs)) @ bs"
    by (auto simp: tagged_def sized_def)
  then show ?case using read_length_reads [of r bs] by (auto simp: reads_def pb_read_bytes_def)
next
  case (5 vs)
  let ?bs = "concat (map varint_bytes vs)"
  have x: "tagged s n 2 x r" "x = varint_bytes (of_nat (length ?bs)) @ ?bs" using 5 by (auto simp: sized_def)
  obtain t where t: "pb_enter True r = t" "bounds t = BLength (position t + length ?bs) True # bounds r" "ahead t ?bs"
    "input t = input r" "position t + length ?bs = position r + length x"
    using sized_reads [of s n ?bs r True] x 5(6) by auto
  have "length vs < length (input r) + 1" using length_packed [of vs] ahead_fits [OF t(3)] t(4) by simp
  then obtain u where u: "read_packed (length (input r) + 1) t = (vs, u)" "past (t\<lparr>bounds := bounds r\<rparr>) (length ?bs) u"
    using read_packed_reads [OF t(2,3)] by blast
  have "past r (length x) u" using u(2) t(4,5) by (simp add: past_def)
  then show ?case using u t(1) by (auto simp: reads_def)
next
  case (6 fs)
  let ?bs = "enc_fields fs"
  have x: "tagged s n 2 x r" "x = varint_bytes (of_nat (length ?bs)) @ ?bs" using 6 by (auto simp: sized_def)
  obtain t where t: "pb_enter False r = t" "bounds t = BLength (position t + length ?bs) False # bounds r" "ahead t ?bs"
    "input t = input r" "position t + length ?bs = position r + length x"
    using sized_reads [of s n ?bs r False] x 6(7) by auto
  obtain u where u: "read_fields (schemas_of fs) t = (fs, u)" "past t (length ?bs) u"
    using 6(1) [of t] 6(2,7) t(2,3) by auto
  have "pb_next u = (0, u\<lparr>bounds := bounds r\<rparr>)" by (rule next_ends_length) (use u(2) t(2) in \<open>auto simp: past_def\<close>)
  moreover have "past r (length x) (u\<lparr>bounds := bounds r\<rparr>)" using u(2) t(4,5) by (simp add: past_def)
  ultimately show ?case using u(1) t(1) by (auto simp: reads_def)
next
  case (7 fs)
  let ?e = "tag_bytes (int n) 4"
  have x: "ahead r (enc_fields fs @ ?e)" "wire r = 3" "number r = of_nat n" "x = enc_fields fs @ ?e"
    using 7 by (auto simp: tagged_def)
  define t where "t = r\<lparr>bounds := BGroup (of_nat n) # bounds r\<rparr>"
  have t: "pb_enter False r = t" "ahead t (enc_fields fs @ ?e)"
    using enter_group [OF x(2,3) _ x(1)] 7(7) by (auto simp: t_def)
  obtain u where u: "read_fields (schemas_of fs) t = (fs, u)" "past t (length (enc_fields fs)) u"
    using 7(1) [OF _ ahead_prefix [OF t(2)]] 7(2,7) by (auto simp: t_def)
  obtain y where y: "pb_next u = (0, y)" "past (u\<lparr>bounds := bounds r\<rparr>) (length ?e) y"
    using next_ends_group [OF past_ahead [OF u(2) t(2)] 7(6), of "bounds r"] u(2) by (auto simp: past_def t_def)
  have "past r (length x) y" using y(2) u(2) by (simp add: past_def t_def x(4))
  then show ?case using u(1) t(1) y(1) by (auto simp: reads_def)
next
  case 8
  then show ?case by (auto simp: past_def ahead_def)
next
  case (9 n v fs)
  let ?w = "wire_of v"
  have n: "field_number n" "valid v" "valids fs" using 9(3) by auto
  obtain x where x: "enc_field n v = tag_bytes (int n) ?w @ x" by (cases v) (auto simp: sized_def)
  have w: "?w \<le> 5" "?w \<noteq> 4" by (cases v; simp)+
  obtain t where t: "pb_next r = (int n, t)" "past r (length (tag_bytes (int n) ?w)) t" "tagged (position r) n ?w (x @ enc_fields fs) t"
    using next_reads [of r n ?w "x @ enc_fields fs", OF _ n(1) w] 9(4) x by auto
  have "tagged (position r) n ?w x t" using t(3) ahead_prefix by (auto simp: tagged_def)
  moreover have "length (bounds t) + height v \<le> DEPTH" using 9(5) t(2) by (simp add: past_def)
  ultimately obtain u where u: "read_value (schema_of v) t = (v, u)" "past t (length x) u"
    using 9(1) [OF n(2) _ x [symmetric] refl n(1)] by (auto simp: reads_def)
  have "ahead u (enc_fields fs)" using past_ahead [OF u(2)] t(3) by (simp add: tagged_def)
  moreover have "length (bounds u) + heights fs \<le> DEPTH" using 9(5) t(2) u(2) by (simp add: past_def)
  ultimately obtain y where y: "read_fields (schemas_of fs) u = (fs, y)" "past u (length (enc_fields fs)) y"
    using 9(2) [OF n(3)] by blast
  have "past r (length (enc_fields ((n, v) # fs))) y" using past_trans [OF past_trans [OF t(2) u(2)] y(2)] x by (simp add: add.assoc)
  then show ?case using t(1) u(1) y(1) by auto
qed

lemma ahead_start:
  assumes "length bs < 2 ^ 64" shows "ahead (pb_reader bs) bs"
  using assms by (simp add: ahead_def pb_reader_def end_of_def)

text \<open>C24: A message of fields with their numbers, nested at most 100 deep, that is written field by field reads back as it
  was, without error and to the end: varints, fixed values, bytes, packed fields, nested messages and groups.\<close>

theorem message_reads_back:
  assumes "valids fs" "heights fs \<le> 100" "length (fst (pb_finish (write_fields fs (pb_writer d)))) < 2 ^ 64"
  shows "\<exists>r. read_fields (schemas_of fs) (pb_reader (fst (pb_finish (write_fields fs (pb_writer d))))) = (fs, r) \<and>
    error r = None \<and> pb_next r = (0, r)"
proof -
  let ?r = "pb_reader (enc_fields fs)"
  have "ahead ?r (enc_fields fs)" using assms(3) by (intro ahead_start) (simp add: finish_written)
  moreover have "length (bounds ?r) + heights fs \<le> DEPTH" using assms(2) by (simp add: pb_reader_def DEPTH_def)
  ultimately obtain r where r: "read_fields (schemas_of fs) ?r = (fs, r)" "past ?r (length (enc_fields fs)) r"
    using value_reads(2) [OF assms(1)] by blast
  then have "pb_next r = (0, r)" by (auto simp: pb_next_def past_def pb_reader_def)
  then show ?thesis using r by (auto simp: finish_written past_def)
qed

definition sample_message :: "(nat \<times> pb_value) list" where
  "sample_message = [(1, Varint 300), (2, Message [(3, Packed [1, 2]), (4, Group [(5, Fixed32 7)])])]"

lemma sample_message_fits: "valids sample_message" "heights sample_message \<le> 100"
  "length (fst (pb_finish (write_fields sample_message (pb_writer True)))) < 2 ^ 64"
proof -
  have "varint_bytes 300 = [172, 2]" "varint_bytes 8 = [8]" "varint_bytes 18 = [18]" "varint_bytes 26 = [26]" "varint_bytes 35 = [35]"
    "varint_bytes 36 = [36]" "varint_bytes 45 = [45]" "varint_bytes 1 = [1]" "varint_bytes 2 = [2]" "varint_bytes 11 = [11]"
    by (simp_all add: varint_bytes.simps word_le_nat_alt)
  then have "length (enc_fields sample_message) = 16"
    by (simp add: tag_bytes_def sized_def sample_message_def)
  then show "length (fst (pb_finish (write_fields sample_message (pb_writer True)))) < 2 ^ 64" by (simp add: finish_written)
qed (simp_all add: sample_message_def field_number_def)

theorem message_reads_back_witness:
  "\<exists>r. read_fields (schemas_of sample_message) (pb_reader (fst (pb_finish (write_fields sample_message (pb_writer True))))) =
    (sample_message, r) \<and> error r = None \<and> pb_next r = (0, r)"
  by (rule message_reads_back [OF sample_message_fits])

subsection \<open>Fields that are not known\<close>

lemma sized_skips:
  assumes "tagged s n 2 (varint_bytes (of_nat (length bs)) @ bs) r" "skip_field k r = Some r'"
  shows "past r (length (varint_bytes (of_nat (length bs)) @ bs)) r'"
proof -
  have a: "ahead r (varint_bytes (of_nat (length bs)) @ bs)" "wire r = 2" using assms(1) by (auto simp: tagged_def)
  obtain t where t: "read_varint r = (Some (of_nat (length bs)), t)" "past r (length (varint_bytes (of_nat (length bs)))) t" "ahead t bs"
    using varint_past [OF a(1)] by blast
  obtain u where u: "take_bytes (length bs) t = (Some bs, u)" "past t (length bs) u" using take_past [OF t(3)] by blast
  then have "r' = u" using assms(2) t(1) a(2) unat_length [OF a(1)] by (cases k) auto
  then show ?thesis using past_trans [OF t(2) u(2)] by simp
qed

lemma value_skips:
  "valid v \<Longrightarrow> tagged s n w x r \<Longrightarrow> tag_bytes (int n) w @ x = enc_field n v \<Longrightarrow> w = wire_of v \<Longrightarrow>
    field_number n \<Longrightarrow> length (bounds r) + height v \<le> DEPTH \<Longrightarrow> skip_field k r = Some r' \<Longrightarrow> past r (length x) r'"
  "valids fs \<Longrightarrow> ahead r (enc_fields fs @ tag_bytes (int m) 4) \<Longrightarrow> field_number m \<Longrightarrow> bounds r = BGroup (of_nat m) # rest \<Longrightarrow>
    length (bounds r) + heights fs \<le> DEPTH \<Longrightarrow> skip_group k r = Some r' \<Longrightarrow>
    past (r\<lparr>bounds := rest\<rparr>) (length (enc_fields fs @ tag_bytes (int m) 4)) r'"
proof (induction v and fs arbitrary: s n w x r r' k and r r' k m rest rule: schema_of_schemas_of.induct)
  case (1 v)
  then have "ahead r (varint_bytes v @ [])" "wire r = 0" "x = varint_bytes v" by (auto simp: tagged_def)
  then show ?case using varint_past [of r v "[]"] 1(7) by (cases k) auto
next
  case (2 v)
  then have "ahead r (le_bytes 8 v)" "wire r = 1" "x = le_bytes 8 v" by (auto simp: tagged_def)
  then show ?case using take_past [of r "le_bytes 8 v"] 2(7) by (cases k) auto
next
  case (3 v)
  then have "ahead r (le_bytes 4 v)" "wire r = 5" "x = le_bytes 4 v" by (auto simp: tagged_def)
  then show ?case using take_past [of r "le_bytes 4 v"] 3(7) by (cases k) auto
next
  case (7 fs)
  let ?e = "tag_bytes (int n) 4"
  have x: "ahead r (enc_fields fs @ ?e)" "wire r = 3" "number r = of_nat n" "x = enc_fields fs @ ?e"
    using 7 by (auto simp: tagged_def)
  define t where "t = r\<lparr>bounds := BGroup (of_nat n) # bounds r\<rparr>"
  obtain j where k: "k = Suc j" using 7(8) by (cases k) auto
  have t: "ahead t (enc_fields fs @ ?e)" "skip_group j t = Some r'"
    using enter_group [OF x(2,3) _ x(1)] 7(7,8) x(2,3) k by (auto simp: t_def)
  have "past (t\<lparr>bounds := bounds r\<rparr>) (length (enc_fields fs @ ?e)) r'"
    by (rule 7(1) [OF _ t(1) 7(6) _ _ t(2)]) (use 7(2,7) in \<open>auto simp: t_def\<close>)
  then show ?case by (simp add: past_def t_def x(4))
next
  case 8
  obtain j where k: "k = Suc j" using 8(6) by (cases k) auto
  obtain y where "pb_next r = (0, y)" "past (r\<lparr>bounds := rest\<rparr>) (length (tag_bytes (int m) 4)) y"
    using next_ends_group [of r m rest] 8(2-4) by auto
  then show ?case using 8(6) k by auto
next
  case (9 n v fs)
  have n: "field_number n" "valid v" "valids fs" using 9(3) by auto
  obtain x where x: "enc_field n v = tag_bytes (int n) (wire_of v) @ x" by (cases v) (auto simp: sized_def)
  have w: "wire_of v \<le> 5" "wire_of v \<noteq> 4" by (cases v; simp)+
  let ?y = "x @ enc_fields fs @ tag_bytes (int m) 4"
  obtain t where t: "pb_next r = (int n, t)" "past r (length (tag_bytes (int n) (wire_of v))) t" "tagged (position r) n (wire_of v) ?y t"
    using next_reads [of r n "wire_of v" ?y, OF _ n(1) w] 9(4) x by auto
  obtain j where k: "k = Suc j" using 9(8) by (cases k) auto
  have "n \<noteq> 0" using n(1) by (simp add: field_number_def)
  then obtain u where u: "skip_field j t = Some u" "skip_group j u = Some r'"
    using 9(8) t(1) k by (auto split: option.splits)
  have "tagged (position r) n (wire_of v) x t" using t(3) ahead_prefix by (auto simp: tagged_def)
  moreover have "length (bounds t) + height v \<le> DEPTH" using 9(7) t(2) by (simp add: past_def)
  ultimately have p: "past t (length x) u" using 9(1) [OF n(2) _ x [symmetric] refl n(1) _ u(1)] by auto
  have "ahead u (enc_fields fs @ tag_bytes (int m) 4)" using past_ahead [OF p] t(3) by (simp add: tagged_def)
  then have "past (u\<lparr>bounds := rest\<rparr>) (length (enc_fields fs @ tag_bytes (int m) 4)) r'"
    using 9(2) [OF n(3) _ 9(5) _ _ u(2)] 9(6,7) t(2) p by (auto simp: past_def)
  then show ?case using t(2) p x by (auto simp: past_def)
next
  case (4 bs)
  then show ?case using sized_skips [of s n bs r k r'] by (auto simp: sized_def)
next
  case (5 vs)
  then show ?case using sized_skips [of s n "concat (map varint_bytes vs)" r k r'] by (auto simp: sized_def)
next
  case (6 fs)
  then show ?case using sized_skips [of s n "enc_fields fs" r k r'] by (auto simp: sized_def)
qed

lemma raw_reads:
  assumes "ahead r (enc_field n v @ y)" "valid v" "field_number n" "length (bounds r) + height v \<le> DEPTH" "within r"
  shows "\<exists>t u. pb_next r = (int n, t) \<and> pb_raw t = (enc_field n v, u) \<and> past r (length (enc_field n v)) u \<and> within u"
proof -
  obtain x where x: "enc_field n v = tag_bytes (int n) (wire_of v) @ x" by (cases v) (auto simp: sized_def)
  have w: "wire_of v \<le> 5" "wire_of v \<noteq> 4" by (cases v; simp)+
  obtain t where t: "pb_next r = (int n, t)" "past r (length (tag_bytes (int n) (wire_of v))) t" "tagged (position r) n (wire_of v) (x @ y) t"
    using next_reads [of r n "wire_of v" "x @ y", OF _ assms(3) w] assms(1) x by auto
  have "keeps r t" by (rule pb_next_keeps [OF t(1)])
  then have wt: "within t" "keeps t (pb_skip t)" using assms(5) pb_skip_keeps by (auto simp: keeps_def)
  have "tagged (position r) n (wire_of v) x t" using t(3) ahead_prefix by (auto simp: tagged_def)
  moreover have "length (bounds t) + height v \<le> DEPTH" using assms(4) t(2) by (simp add: past_def)
  ultimately have p: "past t (length x) (pb_skip t)"
    using value_skips(1) [OF assms(2) _ x [symmetric] refl assms(3) _ pb_skip_is [OF wt(1)]] by blast
  have q: "past r (length (enc_field n v)) (pb_skip t)" using past_trans [OF t(2) p] x by simp
  have "start t = position r" using t(3) by (simp add: tagged_def)
  moreover have "take (length (enc_field n v)) (drop (position r) (input r)) = enc_field n v"
    using assms(1) by (auto simp: ahead_def)
  ultimately have "pb_raw t = (enc_field n v, pb_skip t)" using q by (simp add: pb_raw_def Let_def past_def)
  moreover have "within (pb_skip t)" using wt by (simp add: keeps_def)
  ultimately show ?thesis using t(1) q by blast
qed

text \<open>A message that keeps every field as it was read, as the ones it does not know.\<close>

fun copy_fields :: "nat \<Rightarrow> reader \<Rightarrow> writer \<Rightarrow> writer \<times> reader" where
  "copy_fields 0 r w = (w, r)"
| "copy_fields (Suc k) r w =
     (case pb_next r of (n, r) \<Rightarrow>
        if n = 0 \<or> n = - 1 then (w, r)
        else case pb_raw r of (bs, r) \<Rightarrow> copy_fields k r (pb_write_raw bs w))"

lemma copies:
  assumes "ahead r (enc_fields fs)" "valids fs" "length (bounds r) + heights fs \<le> DEPTH" "within r"
    "bounds r = []" "position r + length (enc_fields fs) = length (input r)" "length fs < k"
  shows "\<exists>r'. copy_fields k r w = (append_buffer (enc_fields fs) w, r') \<and> error r' = None"
  using assms
proof (induction fs arbitrary: r w k)
  case Nil
  then show ?case by (cases k) (auto simp: pb_next_def ahead_def append_buffer_simps)
next
  case (Cons f fs)
  obtain n v j where f: "f = (n, v)" and k: "k = Suc j" using Cons.prems(7) by (cases f; cases k) auto
  obtain t u where t: "pb_next r = (int n, t)" "pb_raw t = (enc_field n v, u)" "past r (length (enc_field n v)) u" "within u"
    using raw_reads [of r n v "enc_fields fs"] Cons.prems f by auto
  have "n \<noteq> 0" using Cons.prems(2) f by (simp add: field_number_def)
  moreover have "\<exists>r'. copy_fields j u (append_buffer (enc_field n v) w) =
      (append_buffer (enc_fields fs) (append_buffer (enc_field n v) w), r') \<and> error r' = None"
    using Cons.prems t(3,4) past_ahead [OF t(3), of "enc_fields fs"] f k by (intro Cons.IH) (auto simp: past_def)
  ultimately show ?case using t f k by (auto simp: append_buffer_simps pb_write_raw_def)
qed

text \<open>C26: Fields that a message does not know survive it: reading each field of a message as it is written, and writing
  those bytes, gives the same message, whatever its fields hold.\<close>

theorem unknown_fields_survive:
  assumes "valids fs" "heights fs \<le> 100" "length (fst (pb_finish (write_fields fs (pb_writer d)))) < 2 ^ 64"
    and "bs = fst (pb_finish (write_fields fs (pb_writer d)))"
  shows "fst (pb_finish (fst (copy_fields (length fs + 1) (pb_reader bs) (pb_writer d)))) = bs"
proof -
  have b: "bs = enc_fields fs" using assms(4) by (simp add: finish_written)
  have a: "ahead (pb_reader bs) bs" by (rule ahead_start) (use assms(3,4) in simp)
  have "length bs < 2 ^ 64" using assms(3,4) by simp
  then have "within (pb_reader bs)" by (simp add: within_def pb_reader_def end_of_def)
  then obtain r' where "copy_fields (length fs + 1) (pb_reader bs) (pb_writer d) = (append_buffer (enc_fields fs) (pb_writer d), r')"
    using copies [of "pb_reader bs" fs "length fs + 1" "pb_writer d"] a assms(1,2)
    by (auto simp: b pb_reader_def DEPTH_def)
  then show ?thesis using finish_written [of fs d] by (simp add: writes b)
qed

theorem unknown_fields_survive_witness:
  "fst (pb_finish (fst (copy_fields (length sample_message + 1)
      (pb_reader (fst (pb_finish (write_fields sample_message (pb_writer True))))) (pb_writer True)))) =
    fst (pb_finish (write_fields sample_message (pb_writer True)))"
  by (rule unknown_fields_survive [OF sample_message_fits refl])

end
