(* ===== verification/MessagePack.thy ===== *)
theory MessagePack
  imports Prelude Civil
begin

text \<open>
  The reader of \<open>std.messagepack\<close>, \<^verbatim>\<open>crates/tondo-runtime/src/msgpack.rs\<close>: input read into events, each with the path
  it comes from, by a loop over values with a stack of the lists and maps being read, the innermost first; and
  the timestamps of the writer. A float is kept as its bits. A value that fails has pushed no event, so a failure
  carries the message and the path only. The rest of the writer calls the library \<open>rmp\<close>.
\<close>

unbundle bit_operations_syntax

subsection \<open>Events\<close>

datatype code =
  NULL | TRUE | FALSE | INTEGER | FLOAT | TEXT | NUMBER | BEGIN_LIST | END_LIST | BEGIN_MAP | END_MAP | KEY | BYTES | DATETIME

datatype float_bits = Bits32 u32 | Bits64 u64

record event =
  ecode :: code
  etext :: string
  eint :: int
  efloat :: float_bits
  ebytes :: "u8 list"
  epath :: string

record frame =
  is_map :: bool
  left :: nat
  key :: bool
  index :: nat
  current :: string

record decoder =
  input :: "u8 list"
  at :: nat
  frames :: "frame list"
  events :: "event list"

datatype mp_error =
  EndsInside nat | StrNotUtf8 nat | KeyKind nat | ExtensionKind int nat | TimestampLength nat | Reserved nat
| Empty | Trailing nat

type_synonym failure = "mp_error \<times> string"

definition text_of :: "u8 list \<Rightarrow> string" where
  "text_of = map (\<lambda>b. char_of (unat b))"

subsection \<open>Reading a value\<close>

definition frame_path :: "frame \<Rightarrow> string" where
  "frame_path f = (if is_map f then ''.'' @ current f else ''['' @ dec (index f) @ '']'')"

definition path_of :: "decoder \<Rightarrow> string" where
  "path_of d = ''$'' @ concat (map frame_path (rev (frames d)))"

definition fail :: "mp_error \<Rightarrow> decoder \<Rightarrow> failure + 'a" where
  "fail e d = Inl (e, path_of d)"

definition take_bytes :: "nat \<Rightarrow> decoder \<Rightarrow> failure + u8 list \<times> decoder" where
  "take_bytes n d =
     (if length (input d) - at d < n then fail (EndsInside (at d)) d
      else Inr (take n (drop (at d) (input d)), d\<lparr>at := at d + n\<rparr>))"

text \<open>Bytes, the highest first, as the integer of 64 bits they end in.\<close>

definition big_endian :: "u8 list \<Rightarrow> u64" where
  "big_endian bs = fold (\<lambda>b v. push_bit 8 v OR ucast b) bs 0"

definition read_uint :: "nat \<Rightarrow> decoder \<Rightarrow> failure + u64 \<times> decoder" where
  "read_uint width d = (case take_bytes width d of Inl f \<Rightarrow> Inl f | Inr (bs, d) \<Rightarrow> Inr (big_endian bs, d))"

definition new_event :: "code \<Rightarrow> decoder \<Rightarrow> event" where
  "new_event c d = \<lparr>ecode = c, etext = [], eint = 0, efloat = Bits64 0, ebytes = [], epath = path_of d\<rparr>"

definition push :: "code \<Rightarrow> (event \<Rightarrow> event) \<Rightarrow> decoder \<Rightarrow> decoder" where
  "push c with_parts d = d\<lparr>events := events d @ [with_parts (new_event c d)]\<rparr>"

definition at_key :: "decoder \<Rightarrow> bool" where
  "at_key d = (case frames d of f # _ \<Rightarrow> is_map f \<and> key f | [] \<Rightarrow> False)"

definition count_item :: "frame list \<Rightarrow> frame list" where
  "count_item fs = (case fs of f # rest \<Rightarrow> f\<lparr>left := left f - 1, index := index f + 1, key := True\<rparr> # rest | [] \<Rightarrow> [])"

lemma length_count_item [simp]: "length (count_item fs) = length fs"
  by (simp add: count_item_def split: list.splits)

text \<open>The loop of \<open>done\<close>, which closes what is finished.\<close>

function close_finished :: "decoder \<Rightarrow> decoder" where
  "close_finished d =
     (case frames d of
        f # rest \<Rightarrow>
          if left f = 0
          then let d = push (if is_map f then END_MAP else END_LIST) id (d\<lparr>frames := rest\<rparr>)
               in close_finished (d\<lparr>frames := count_item (frames d)\<rparr>)
          else d
      | [] \<Rightarrow> d)"
  by auto
termination by (relation "measure (\<lambda>d. length (frames d))") (auto simp: push_def)

declare close_finished.simps [simp del]

definition value_done :: "decoder \<Rightarrow> decoder" where
  "value_done d = close_finished (d\<lparr>frames := count_item (frames d)\<rparr>)"

definition open_frame :: "bool \<Rightarrow> nat \<Rightarrow> decoder \<Rightarrow> decoder" where
  "open_frame m count d =
     (let d = push (if m then BEGIN_MAP else BEGIN_LIST) id d in
      if count = 0 then value_done (push (if m then END_MAP else END_LIST) id d)
      else d\<lparr>frames := \<lparr>is_map = m, left = count, key = m, index = 0, current = []\<rparr> # frames d\<rparr>)"

definition read_string :: "nat \<Rightarrow> decoder \<Rightarrow> failure + string \<times> decoder" where
  "read_string width d =
     (case take_bytes width d of
        Inl f \<Rightarrow> Inl f
      | Inr (raw, d') \<Rightarrow> if utf8 raw then Inr (text_of raw, d') else fail (StrNotUtf8 (at d)) d')"

definition sized_string :: "nat \<Rightarrow> decoder \<Rightarrow> failure + string \<times> decoder" where
  "sized_string width d = (case read_uint width d of Inl f \<Rightarrow> Inl f | Inr (n, d) \<Rightarrow> read_string (unat n) d)"

text \<open>\<open>((raw << shift) as i64) >> shift\<close>: the sign of the highest of the bytes read.\<close>

definition sign_extend :: "nat \<Rightarrow> u64 \<Rightarrow> int" where
  "sign_extend width raw = (let shift = 64 - 8 * width in sint (signed_drop_bit shift (push_bit shift raw)))"

definition key_text :: "nat \<Rightarrow> decoder \<Rightarrow> failure + string \<times> decoder" where
  "key_text m d =
     (if 0xa0 \<le> m \<and> m \<le> 0xbf then read_string (m - 0xa0) d
      else if m = 0xd9 then sized_string 1 d
      else if m = 0xda then sized_string 2 d
      else if m = 0xdb then sized_string 4 d
      else if m \<le> 0x7f then Inr (dec m, d)
      else if 0xe0 \<le> m then Inr (dec_int (int m - 256), d)
      else if 0xcc \<le> m \<and> m \<le> 0xcf
      then (case read_uint (2 ^ (m - 0xcc)) d of Inl f \<Rightarrow> Inl f | Inr (n, d) \<Rightarrow> Inr (dec (unat n), d))
      else if 0xd0 \<le> m \<and> m \<le> 0xd3
      then (case read_uint (2 ^ (m - 0xd0)) d of Inl f \<Rightarrow> Inl f | Inr (n, d) \<Rightarrow> Inr (dec_int (sign_extend (2 ^ (m - 0xd0)) n), d))
      else fail (KeyKind (at d - 1)) d)"

definition read_key :: "nat \<Rightarrow> decoder \<Rightarrow> failure + decoder" where
  "read_key m d =
     (case key_text m d of
        Inl f \<Rightarrow> Inl f
      | Inr (k, d) \<Rightarrow>
          Inr (push KEY (\<lambda>e. e\<lparr>etext := k\<rparr>)
            (d\<lparr>frames := (case frames d of f # rest \<Rightarrow> f\<lparr>key := False, current := k\<rparr> # rest | [] \<Rightarrow> [])\<rparr>)))"

text \<open>The seconds and nanoseconds of a timestamp.\<close>

definition timestamp :: "u8 list \<Rightarrow> (int \<times> nat) option" where
  "timestamp bs =
     (if length bs = 4 then Some (sint (big_endian bs), 0)
      else if length bs = 8 then Some (sint (big_endian bs AND 0x3ffffffff), unat (ucast (drop_bit 34 (big_endian bs)) :: u32))
      else if length bs = 12 then Some (sint (big_endian (drop 4 bs)), unat (ucast (big_endian (take 4 bs)) :: u32))
      else None)"

definition read_extension :: "nat \<Rightarrow> nat \<Rightarrow> decoder \<Rightarrow> failure + decoder" where
  "read_extension start width d =
     (case take_bytes 1 d of
        Inl f \<Rightarrow> Inl f
      | Inr (kind, d) \<Rightarrow>
          (case take_bytes width d of
             Inl f \<Rightarrow> Inl f
           | Inr (bs, d) \<Rightarrow>
               let kind = sint (hd kind) in
               if kind \<noteq> - 1 then fail (ExtensionKind kind start) d
               else case timestamp bs of
                 None \<Rightarrow> fail (TimestampLength start) d
               | Some (seconds, nanos) \<Rightarrow> Inr (push DATETIME (\<lambda>e. e\<lparr>etext := format_time seconds nanos\<rparr>) d)))"

text \<open>A value that is neither a list nor a map: its event, before \<open>done\<close>.\<close>

definition read_scalar :: "nat \<Rightarrow> nat \<Rightarrow> decoder \<Rightarrow> failure + decoder" where
  "read_scalar start m d =
     (if m \<le> 0x7f then Inr (push INTEGER (\<lambda>e. e\<lparr>eint := int m\<rparr>) d)
      else if 0xe0 \<le> m then Inr (push INTEGER (\<lambda>e. e\<lparr>eint := int m - 256\<rparr>) d)
      else if m = 0xc0 then Inr (push NULL id d)
      else if m = 0xc2 \<or> m = 0xc3 then Inr (push (if m = 0xc3 then TRUE else FALSE) id d)
      else if 0xcc \<le> m \<and> m \<le> 0xcf
      then (case read_uint (2 ^ (m - 0xcc)) d of
              Inl f \<Rightarrow> Inl f
            | Inr (n, d) \<Rightarrow>
                if unat n < 2 ^ 63 then Inr (push INTEGER (\<lambda>e. e\<lparr>eint := uint n\<rparr>) d)
                else Inr (push NUMBER (\<lambda>e. e\<lparr>etext := dec (unat n)\<rparr>) d))
      else if 0xd0 \<le> m \<and> m \<le> 0xd3
      then (case read_uint (2 ^ (m - 0xd0)) d of
              Inl f \<Rightarrow> Inl f
            | Inr (n, d) \<Rightarrow> Inr (push INTEGER (\<lambda>e. e\<lparr>eint := sign_extend (2 ^ (m - 0xd0)) n\<rparr>) d))
      else if m = 0xca
      then (case read_uint 4 d of Inl f \<Rightarrow> Inl f | Inr (n, d) \<Rightarrow> Inr (push FLOAT (\<lambda>e. e\<lparr>efloat := Bits32 (ucast n)\<rparr>) d))
      else if m = 0xcb
      then (case read_uint 8 d of Inl f \<Rightarrow> Inl f | Inr (n, d) \<Rightarrow> Inr (push FLOAT (\<lambda>e. e\<lparr>efloat := Bits64 n\<rparr>) d))
      else if 0xa0 \<le> m \<and> m \<le> 0xbf \<or> 0xd9 \<le> m \<and> m \<le> 0xdb
      then (case (if m = 0xd9 then sized_string 1 d else if m = 0xda then sized_string 2 d
                  else if m = 0xdb then sized_string 4 d else read_string (m - 0xa0) d) of
              Inl f \<Rightarrow> Inl f
            | Inr (s, d) \<Rightarrow> Inr (push TEXT (\<lambda>e. e\<lparr>etext := s\<rparr>) d))
      else if 0xc4 \<le> m \<and> m \<le> 0xc6
      then (case read_uint (2 ^ (m - 0xc4)) d of
              Inl f \<Rightarrow> Inl f
            | Inr (n, d) \<Rightarrow>
                (case take_bytes (unat n) d of Inl f \<Rightarrow> Inl f | Inr (bs, d) \<Rightarrow> Inr (push BYTES (\<lambda>e. e\<lparr>ebytes := bs\<rparr>) d)))
      else if 0xd4 \<le> m \<and> m \<le> 0xd8 then read_extension start (2 ^ (m - 0xd4)) d
      else if 0xc7 \<le> m \<and> m \<le> 0xc9
      then (case read_uint (2 ^ (m - 0xc7)) d of Inl f \<Rightarrow> Inl f | Inr (n, d) \<Rightarrow> read_extension start (unat n) d)
      else fail (Reserved start) d)"

definition read_value :: "decoder \<Rightarrow> failure + decoder" where
  "read_value d0 =
     (case take_bytes 1 d0 of
        Inl f \<Rightarrow> Inl f
      | Inr (bs, d) \<Rightarrow>
          let m = unat (hd bs) in
          if at_key d then read_key m d
          else if 0x90 \<le> m \<and> m \<le> 0x9f then Inr (open_frame False (m - 0x90) d)
          else if m = 0xdc \<or> m = 0xdd
          then (case read_uint (if m = 0xdc then 2 else 4) d of Inl f \<Rightarrow> Inl f | Inr (n, d) \<Rightarrow> Inr (open_frame False (unat n) d))
          else if 0x80 \<le> m \<and> m \<le> 0x8f then Inr (open_frame True (m - 0x80) d)
          else if m = 0xde \<or> m = 0xdf
          then (case read_uint (if m = 0xde then 2 else 4) d of Inl f \<Rightarrow> Inl f | Inr (n, d) \<Rightarrow> Inr (open_frame True (unat n) d))
          else (case read_scalar (at d0) m d of Inl f \<Rightarrow> Inl f | Inr d \<Rightarrow> Inr (value_done d)))"

subsection \<open>A document\<close>

lemma take_bytes_at: "take_bytes n d = Inr (bs, d') \<Longrightarrow> input d' = input d \<and> frames d' = frames d \<and> events d' = events d \<and>
    at d' = at d + n \<and> n \<le> length (input d) - at d \<and> length bs = n"
  by (auto simp: take_bytes_def fail_def split: if_splits)

text \<open>What reading bytes does: the position moves within the input. A scalar also pushes its event.\<close>

definition moves :: "decoder \<Rightarrow> decoder \<Rightarrow> bool" where
  "moves d e \<longleftrightarrow> input e = input d \<and> at d \<le> at e \<and> (at d \<le> length (input d) \<longrightarrow> at e \<le> length (input d)) \<and>
     frames e = frames d \<and> events e = events d"

definition scalar_codes :: "code set" where
  "scalar_codes = {NULL, TRUE, FALSE, INTEGER, FLOAT, TEXT, NUMBER, BYTES, DATETIME}"

definition pushes :: "code set \<Rightarrow> decoder \<Rightarrow> decoder \<Rightarrow> bool" where
  "pushes C d e \<longleftrightarrow> input e = input d \<and> at d \<le> at e \<and> (at d \<le> length (input d) \<longrightarrow> at e \<le> length (input d)) \<and>
     frames e = frames d \<and> (\<exists>v. events e = events d @ [v] \<and> ecode v \<in> C)"

definition fine :: "decoder \<Rightarrow> failure + 'a \<times> decoder \<Rightarrow> bool" where
  "fine d r \<longleftrightarrow> (\<forall>v e. r = Inr (v, e) \<longrightarrow> moves d e)"

definition good :: "decoder \<Rightarrow> failure + decoder \<Rightarrow> bool" where
  "good d r \<longleftrightarrow> (\<forall>e. r = Inr e \<longrightarrow> pushes scalar_codes d e)"

lemma fine_take: "fine d (take_bytes n d)"
  by (auto simp: fine_def moves_def dest: take_bytes_at)

lemma fine_Inr: "fine d (Inr (v, d))"
  by (simp add: fine_def moves_def)

lemma fine_fail: "fine d (fail e e')"
  by (simp add: fine_def fail_def)

lemma moves_trans: "moves d e \<Longrightarrow> moves e e' \<Longrightarrow> moves d e'"
  by (auto simp: moves_def)

lemma moves_pushes: "moves d e \<Longrightarrow> pushes C e e' \<Longrightarrow> pushes C d e'"
  by (auto simp: moves_def pushes_def)

lemma fine_bind:
  assumes "fine d x" "\<And>v e. fine e (k v e)" shows "fine d (case x of Inl f \<Rightarrow> Inl f | Inr (v, e) \<Rightarrow> k v e)"
proof (cases x)
  case (Inr p)
  obtain v e where p: "p = (v, e)" by (cases p)
  have "moves d e" "fine e (k v e)" using assms Inr p by (auto simp: fine_def)
  then have "fine d (k v e)" unfolding fine_def by (blast intro: moves_trans)
  then show ?thesis by (simp add: Inr p)
qed (simp add: fine_def)

lemma fine_if: "fine d x \<Longrightarrow> fine d y \<Longrightarrow> fine d (if c then x else y)"
  by simp

lemma good_bind:
  assumes "fine d x" "\<And>v e. good e (k v e)" shows "good d (case x of Inl f \<Rightarrow> Inl f | Inr (v, e) \<Rightarrow> k v e)"
proof (cases x)
  case (Inr p)
  obtain v e where p: "p = (v, e)" by (cases p)
  have "moves d e" "good e (k v e)" using assms Inr p by (auto simp: fine_def)
  then have "good d (k v e)" unfolding good_def by (blast intro: moves_pushes)
  then show ?thesis by (simp add: Inr p)
qed (simp add: good_def)

lemma good_if: "good d x \<Longrightarrow> good d y \<Longrightarrow> good d (if c then x else y)"
  by simp

lemma good_push: "c \<in> scalar_codes \<Longrightarrow> (\<And>v. ecode (f v) = ecode v) \<Longrightarrow> good d (Inr (push c f d))"
  by (simp add: good_def pushes_def push_def new_event_def)

lemma good_fail: "good d (fail e e')"
  by (simp add: good_def fail_def)

lemma fine_uint: "fine d (read_uint n d)"
  unfolding read_uint_def by (intro fine_bind fine_take fine_Inr)

lemma fine_string: "fine d (read_string n d)"
  unfolding read_string_def by (intro fine_bind fine_if fine_take fine_Inr fine_fail)

lemma fine_sized: "fine d (sized_string n d)"
  unfolding sized_string_def by (intro fine_bind fine_uint fine_string)

lemma fine_key: "fine d (key_text m d)"
  unfolding key_text_def by (intro fine_if fine_bind fine_uint fine_string fine_sized fine_Inr fine_fail)

lemma good_extension: "good d (read_extension a n d)"
  unfolding read_extension_def Let_def
  by (intro good_bind fine_take good_if good_fail) (auto split: option.splits intro!: good_push good_fail simp: scalar_codes_def)

lemma good_scalar: "good d (read_scalar a m d)"
  unfolding read_scalar_def
  by (intro good_if good_bind good_push good_fail good_extension fine_take fine_uint fine_string fine_sized fine_if)
    (simp_all add: scalar_codes_def)

lemma close_simps:
  "frames d = [] \<Longrightarrow> close_finished d = d"
  "frames d = f # rest \<Longrightarrow> left f \<noteq> 0 \<Longrightarrow> close_finished d = d"
  "frames d = f # rest \<Longrightarrow> left f = 0 \<Longrightarrow> close_finished d =
    close_finished (push (if is_map f then END_MAP else END_LIST) id (d\<lparr>frames := rest\<rparr>)\<lparr>frames := count_item rest\<rparr>)"
  by (subst close_finished.simps, simp add: Let_def push_def)+

lemma closed_parts: "input (close_finished d) = input d \<and> at (close_finished d) = at d"
proof (induction "length (frames d)" arbitrary: d)
  case 0
  then show ?case by (simp add: close_simps)
next
  case (Suc n)
  then obtain f rest where f: "frames d = f # rest" "length rest = n" by (cases "frames d") auto
  show ?case
  proof (cases "left f = 0")
    case True
    then show ?thesis using f Suc(1) [of "push (if is_map f then END_MAP else END_LIST) id (d\<lparr>frames := rest\<rparr>)\<lparr>frames := count_item rest\<rparr>"]
      by (simp add: close_simps(3) [OF f(1)] push_def)
  qed (simp add: close_simps(2) [OF f(1)])
qed

lemma done_parts: "input (value_done d) = input d \<and> at (value_done d) = at d"
  by (simp add: value_done_def closed_parts)

lemma open_parts: "input (open_frame m n d) = input d \<and> at (open_frame m n d) = at d"
  by (simp add: open_frame_def Let_def done_parts push_def)

lemma key_parts:
  assumes "read_key m d = Inr e"
  shows "\<exists>d' k. moves d d' \<and> e = push KEY (\<lambda>v. v\<lparr>etext := k\<rparr>)
    (d'\<lparr>frames := (case frames d of f # rest \<Rightarrow> f\<lparr>key := False, current := k\<rparr> # rest | [] \<Rightarrow> [])\<rparr>)"
proof -
  obtain k d' where "key_text m d = Inr (k, d')" using assms by (auto simp: read_key_def split: sum.splits)
  moreover then have "moves d d'" using fine_key by (auto simp: fine_def)
  moreover then have "frames d' = frames d" by (simp add: moves_def)
  ultimately show ?thesis using assms by (auto simp: read_key_def)
qed

text \<open>The cases of a value, after its first byte.\<close>

lemma read_value_cases:
  assumes "read_value d = Inr e" 
  obtains (key) d' m where "moves d d'" "at d < at d'" "at_key d" "read_key m d' = Inr e"
  | (collection) d' m n where "moves d d'" "at d < at d'" "\<not> at_key d" "e = open_frame m n d'"
  | (scalar) d' where "pushes scalar_codes d d'" "at d < at d'" "\<not> at_key d" "e = value_done d'"
proof -
  obtain bs d1 where b: "take_bytes 1 d = Inr (bs, d1)" using assms by (auto simp: read_value_def split: sum.splits)
  have d1: "moves d d1" "at d < at d1" using fine_take [of d 1] take_bytes_at [OF b] b by (auto simp: fine_def)
  have k: "at_key d1 = at_key d" using d1(1) by (simp add: at_key_def moves_def)
  let ?m = "unat (hd bs)"
  have u: "moves d d2 \<and> at d < at d2" if "read_uint n d1 = Inr (v, d2)" for n v d2
    using fine_uint [of d1 n] that d1 by (auto simp: fine_def moves_def)
  have s: "pushes scalar_codes d d2 \<and> at d < at d2" if "read_scalar a ?m d1 = Inr d2" for a d2
    using good_scalar [of d1 a ?m] that d1 by (auto simp: good_def moves_def pushes_def)
  show thesis
  proof (cases "at_key d")
    case True
    then show ?thesis using assms b k d1 key by (simp add: read_value_def Let_def)
  next
    case False
    consider (c) m n d2 where "moves d d2" "at d < at d2" "e = open_frame m n d2"
      | (s) d2 where "read_scalar (at d) ?m d1 = Inr d2" "e = value_done d2"
      using assms b k False d1 by (auto simp: read_value_def Let_def split: sum.splits if_splits dest!: u)
    then show ?thesis using collection scalar False s by cases blast+
  qed
qed

lemma read_value_advances:
  assumes "read_value d = Inr e" shows "input e = input d \<and> at d < at e \<and> at e \<le> length (input d)"
proof -
  have b: "at d \<le> length (input d)"
    using assms by (auto simp: read_value_def take_bytes_def fail_def Let_def split: sum.splits if_splits)
  show ?thesis using assms
  proof (cases rule: read_value_cases)
    case (key d' m)
    then show ?thesis using b key_parts [OF key(4)] by (auto simp: moves_def push_def)
  next
    case (collection d' m n)
    then show ?thesis using b open_parts [of m n d'] by (auto simp: moves_def)
  next
    case (scalar d')
    then show ?thesis using b done_parts [of d'] by (auto simp: pushes_def)
  qed
qed

function parse_loop :: "decoder \<Rightarrow> failure option \<times> decoder" where
  "parse_loop d =
     (case read_value d of
        Inl f \<Rightarrow> (Some f, d)
      | Inr d' \<Rightarrow> if frames d' = [] then (None, d') else parse_loop d')"
  by auto
termination
  by (relation "measure (\<lambda>d. length (input d) - at d)") (auto dest: read_value_advances)

declare parse_loop.simps [simp del]

definition new_decoder :: "u8 list \<Rightarrow> decoder" where
  "new_decoder bs = \<lparr>input = bs, at = 0, frames = [], events = []\<rparr>"

record mp_reader =
  revents :: "event list"
  nread :: nat
  error :: "failure option"

definition msgpack_parse :: "u8 list \<Rightarrow> mp_reader" where
  "msgpack_parse bs =
     (let (failed, d) = (if bs = [] then (Some (Empty, ''$''), new_decoder bs) else parse_loop (new_decoder bs));
          failed = (if failed = None \<and> at d < length bs then Some (Trailing (at d), ''$'') else failed)
      in \<lparr>revents = events d, nread = 0, error = failed\<rparr>)"

text \<open>\<open>END\<close> is \<open>Inr None\<close> and \<open>ERROR\<close> is \<open>Inl ()\<close>.\<close>

definition msgpack_next :: "mp_reader \<Rightarrow> (unit + code option) \<times> mp_reader" where
  "msgpack_next r =
     (if error r \<noteq> None then (Inl (), r)
      else if nread r = length (revents r) then (Inr None, r)
      else (Inr (Some (ecode (revents r ! nread r))), r\<lparr>nread := nread r + 1\<rparr>))"

definition current_event :: "mp_reader \<Rightarrow> event option" where
  "current_event r = (if nread r = 0 then None else if nread r - 1 < length (revents r) then Some (revents r ! (nread r - 1)) else None)"

text \<open>The loop of \<open>skip\<close>: the events left once the depth is 0, and the depth.\<close>

fun skip_loop :: "nat \<Rightarrow> event list \<Rightarrow> nat \<times> nat" where
  "skip_loop depth [] = (depth, 0)"
| "skip_loop depth (e # es) =
     (if depth = 0 then (depth, 0)
      else let (left, n) = skip_loop (if ecode e \<in> {BEGIN_LIST, BEGIN_MAP} then depth + 1
                                      else if ecode e \<in> {END_LIST, END_MAP} then depth - 1 else depth) es
           in (left, n + 1))"

definition msgpack_skip :: "code \<Rightarrow> mp_reader \<Rightarrow> bool \<times> mp_reader" where
  "msgpack_skip c r =
     (if c \<noteq> BEGIN_LIST \<and> c \<noteq> BEGIN_MAP then (True, r)
      else let (depth, n) = skip_loop 1 (drop (nread r) (revents r)) in (depth = 0, r\<lparr>nread := nread r + n\<rparr>))"

text \<open>A failure that the program found in the event read last.\<close>

definition msgpack_fail :: "mp_error \<Rightarrow> mp_reader \<Rightarrow> mp_reader" where
  "msgpack_fail message r =
     r\<lparr>error := Some (message, case current_event r of Some e \<Rightarrow> epath e | None \<Rightarrow> ''$'')\<rparr>"

text \<open>The bytes \<open>write_datetime\<close> writes for a time that parses.\<close>

definition be64 :: "u64 \<Rightarrow> u8 list" where
  "be64 w = be32 (ucast (drop_bit 32 w)) @ be32 (ucast w)"

definition write_datetime :: "string \<Rightarrow> u8 list option" where
  "write_datetime text =
     (case parse_time text of
        None \<Rightarrow> None
      | Some (seconds, nanos) \<Rightarrow>
          Some (if nanos = 0 \<and> 0 \<le> seconds \<and> seconds < 2 ^ 32
                then [0xd6, 0xff] @ be32 (word_of_int seconds)
                else if 0 \<le> seconds \<and> seconds < 2 ^ 34
                then [0xd7, 0xff] @ be64 (push_bit 34 (of_nat nanos) OR word_of_int seconds)
                else [0xc7, 12, 0xff] @ be32 (of_nat nanos) @ be64 (word_of_int seconds)))"

subsection \<open>The events of a value\<close>

inductive one_value :: "event list \<Rightarrow> bool" where
  scalar: "ecode e \<in> scalar_codes \<Longrightarrow> one_value [e]"
| list: "ecode b = BEGIN_LIST \<Longrightarrow> ecode e = END_LIST \<Longrightarrow> \<forall>v\<in>set vs. one_value v \<Longrightarrow> one_value (b # concat vs @ [e])"
| map: "ecode b = BEGIN_MAP \<Longrightarrow> ecode e = END_MAP \<Longrightarrow> \<forall>(k, v)\<in>set kvs. ecode k = KEY \<and> one_value v \<Longrightarrow>
    one_value (b # concat (map (\<lambda>(k, v). k # v) kvs) @ [e])"

text \<open>What a stack of frames has read so far, and whether it waits for a value rather than a key.\<close>

definition expects :: "frame list \<Rightarrow> bool" where
  "expects fs = (case fs of [] \<Rightarrow> True | f # _ \<Rightarrow> \<not> (is_map f \<and> key f))"

inductive partial :: "frame list \<Rightarrow> event list \<Rightarrow> bool" where
  nothing: "partial [] []"
| items: "partial fs es \<Longrightarrow> expects fs \<Longrightarrow> \<not> is_map f \<Longrightarrow> ecode b = BEGIN_LIST \<Longrightarrow> \<forall>v\<in>set vs. one_value v \<Longrightarrow>
    partial (f # fs) (es @ b # concat vs)"
| pairs: "partial fs es \<Longrightarrow> expects fs \<Longrightarrow> is_map f \<Longrightarrow> key f \<Longrightarrow> ecode b = BEGIN_MAP \<Longrightarrow>
    \<forall>(k, v)\<in>set kvs. ecode k = KEY \<and> one_value v \<Longrightarrow> partial (f # fs) (es @ b # concat (map (\<lambda>(k, v). k # v) kvs))"
| keyed: "partial fs es \<Longrightarrow> expects fs \<Longrightarrow> is_map f \<Longrightarrow> \<not> key f \<Longrightarrow> ecode b = BEGIN_MAP \<Longrightarrow>
    \<forall>(k, v)\<in>set kvs. ecode k = KEY \<and> one_value v \<Longrightarrow> ecode k = KEY \<Longrightarrow>
    partial (f # fs) (es @ b # concat (map (\<lambda>(k, v). k # v) kvs) @ [k])"

inductive_cases partial_frame_cases: "partial (f # fs) es"

lemma partial_frame:
  assumes "partial (f # fs) es"
  obtains (items) es0 b vs where "es = es0 @ b # concat vs" "partial fs es0" "expects fs" "\<not> is_map f" "ecode b = BEGIN_LIST"
    "\<forall>v\<in>set vs. one_value v"
  | (pairs) es0 b kvs where "es = es0 @ b # concat (map (\<lambda>(k, v). k # v) kvs)" "partial fs es0" "expects fs" "is_map f" "key f"
    "ecode b = BEGIN_MAP" "\<forall>(k, v)\<in>set kvs. ecode k = KEY \<and> one_value v"
  | (keyed) es0 b kvs k where "es = es0 @ b # concat (map (\<lambda>(k, v). k # v) kvs) @ [k]" "partial fs es0" "expects fs" "is_map f"
    "\<not> key f" "ecode b = BEGIN_MAP" "\<forall>(k, v)\<in>set kvs. ecode k = KEY \<and> one_value v" "ecode k = KEY"
  using assms by (elim partial_frame_cases) blast+

lemma partial_nil: "partial [] es \<Longrightarrow> es = []"
  by (auto elim: partial.cases)

lemma partial_item:
  assumes "partial (f # fs) es" "expects (f # fs)" "one_value v"
  shows "partial (count_item (f # fs)) (es @ v)"
  using assms(1)
proof (cases rule: partial_frame)
  case (items es0 b vs)
  then show ?thesis using partial.items [of fs es0 "f\<lparr>left := left f - 1, index := index f + 1, key := True\<rparr>" b "vs @ [v]"] assms(3)
    by (simp add: count_item_def)
next
  case (pairs es0 b kvs)
  then show ?thesis using assms(2) by (simp add: expects_def)
next
  case (keyed es0 b kvs k)
  then show ?thesis using partial.pairs [of fs es0 "f\<lparr>left := left f - 1, index := index f + 1, key := True\<rparr>" b "kvs @ [(k, v)]"] assms(3)
    by (simp add: count_item_def)
qed

lemma partial_close:
  assumes "partial (f # fs) es" "is_map f \<longrightarrow> key f" "ecode e = (if is_map f then END_MAP else END_LIST)"
  shows "\<exists>es0 v. es @ [e] = es0 @ v \<and> partial fs es0 \<and> expects fs \<and> one_value v"
  using assms(1)
proof (cases rule: partial_frame)
  case (items es0 b vs)
  then show ?thesis using one_value.list [of b e vs] assms(3)
    by (intro exI [of _ es0] exI [of _ "b # concat vs @ [e]"]) simp
next
  case (pairs es0 b kvs)
  then show ?thesis using one_value.map [of b e kvs] assms(3)
    by (intro exI [of _ es0] exI [of _ "b # concat (map (\<lambda>(k, v). k # v) kvs) @ [e]"]) simp
qed (use assms(2) in simp)

text \<open>Between values.\<close>

definition reading :: "decoder \<Rightarrow> bool" where
  "reading d \<longleftrightarrow> partial (frames d) (events d) \<and> (\<forall>f\<in>set (frames d). 0 < left f)"

definition finished :: "decoder \<Rightarrow> bool" where
  "finished d \<longleftrightarrow> frames d = [] \<and> one_value (events d)"

lemma close_reads:
  assumes "frames d = f # fs" "partial (f # fs) (events d)" "is_map f \<longrightarrow> key f" "\<forall>g\<in>set fs. 0 < left g"
  shows "finished (close_finished d) \<or> frames (close_finished d) \<noteq> [] \<and> reading (close_finished d)"
  using assms
proof (induction fs arbitrary: d f)
  case Nil
  show ?case
  proof (cases "left f = 0")
    case True
    let ?e = "new_event (if is_map f then END_MAP else END_LIST) (d\<lparr>frames := []\<rparr>)"
    have "ecode ?e = (if is_map f then END_MAP else END_LIST)" by (simp add: new_event_def)
    then obtain es0 v where v: "events d @ [?e] = es0 @ v" "partial [] es0" "one_value v" using partial_close [OF Nil(2,3)] by blast
    then have "one_value (events d @ [?e])" using partial_nil by force
    then show ?thesis using Nil(1) True by (simp add: close_simps push_def finished_def count_item_def)
  qed (use Nil in \<open>auto simp: close_simps reading_def\<close>)
next
  case (Cons g fs)
  show ?case
  proof (cases "left f = 0")
    case True
    let ?e = "new_event (if is_map f then END_MAP else END_LIST) (d\<lparr>frames := g # fs\<rparr>)"
    let ?d = "push (if is_map f then END_MAP else END_LIST) id (d\<lparr>frames := g # fs\<rparr>)\<lparr>frames := count_item (g # fs)\<rparr>"
    have "ecode ?e = (if is_map f then END_MAP else END_LIST)" by (simp add: new_event_def)
    then obtain es0 v where v: "events d @ [?e] = es0 @ v" "partial (g # fs) es0" "expects (g # fs)" "one_value v"
      using partial_close [OF Cons(3,4)] by blast
    have "partial (count_item (g # fs)) (events ?d)" using partial_item [OF v(2-4)] v(1) by (simp add: push_def)
    then have "finished (close_finished ?d) \<or> frames (close_finished ?d) \<noteq> [] \<and> reading (close_finished ?d)"
      using Cons(5) by (intro Cons.IH) (auto simp: count_item_def)
    then show ?thesis using Cons(2) True by (simp add: close_simps(3))
  qed (use Cons in \<open>auto simp: close_simps reading_def\<close>)
qed

lemma done_reads:
  assumes "partial (frames d) es" "expects (frames d)" "\<forall>f\<in>set (frames d). 0 < left f" "one_value v" "events d = es @ v"
  shows "finished (value_done d) \<or> frames (value_done d) \<noteq> [] \<and> reading (value_done d)"
proof (cases "frames d")
  case Nil
  then show ?thesis using assms partial_nil [of es] by (simp add: value_done_def count_item_def close_simps finished_def)
next
  case (Cons f fs)
  have "partial (count_item (f # fs)) (es @ v)" using partial_item assms(1,2,4) Cons by metis
  then show ?thesis unfolding value_done_def using assms(3,5) Cons
    by (intro close_reads [where f = "f\<lparr>left := left f - 1, index := index f + 1, key := True\<rparr>" and fs = fs]) (auto simp: count_item_def)
qed

lemma event_reads:
  assumes "reading d" "read_value d = Inr e"
  shows "finished e \<or> frames e \<noteq> [] \<and> reading e"
  using assms(2)
proof (cases rule: read_value_cases)
  case (key d' m)
  obtain f fs where f: "frames d = f # fs" "is_map f" "key f" using key(3) by (auto simp: at_key_def split: list.splits)
  obtain d2 k where e: "moves d' d2" "e = push KEY (\<lambda>v. v\<lparr>etext := k\<rparr>)
    (d2\<lparr>frames := (case frames d' of f # rest \<Rightarrow> f\<lparr>key := False, current := k\<rparr> # rest | [] \<Rightarrow> [])\<rparr>)"
    using key_parts [OF key(4)] by blast
  have "frames d' = f # fs" "events d2 = events d" using key(1) e(1) f(1) by (auto simp: moves_def)
  then have fr: "frames e = f\<lparr>key := False, current := k\<rparr> # fs" and ev: "\<exists>v. ecode v = KEY \<and> events e = events d @ [v]"
    using e(2) by (auto simp: push_def new_event_def)
  then obtain v where v: "ecode v = KEY" "events e = events d @ [v]" by blast
  have p: "partial (f # fs) (events d)" using assms(1) f(1) by (simp add: reading_def)
  have "partial (f\<lparr>key := False, current := k\<rparr> # fs) (events d @ [v])" using p
  proof (cases rule: partial_frame)
    case (pairs es b kvs)
    then show ?thesis using partial.keyed [of fs es "f\<lparr>key := False, current := k\<rparr>" b kvs v] v(1) by simp
  qed (use f in simp_all)
  then show ?thesis using assms(1) f fr v(2) by (auto simp: reading_def)
next
  case (collection d' m n)
  let ?b = "new_event (if m then BEGIN_MAP else BEGIN_LIST) d'"
  let ?p = "push (if m then BEGIN_MAP else BEGIN_LIST) id d'"
  have s: "partial (frames d') (events d')" "\<forall>f\<in>set (frames d'). 0 < left f" "expects (frames d')"
    using assms(1) collection(1,3) by (auto simp: reading_def moves_def expects_def at_key_def split: list.splits)
  have b: "ecode ?b = (if m then BEGIN_MAP else BEGIN_LIST)" by (simp add: new_event_def)
  show ?thesis
  proof (cases "n = 0")
    case True
    let ?e = "new_event (if m then END_MAP else END_LIST) ?p"
    have "one_value [?b, ?e]" using one_value.list [of ?b ?e "[]"] one_value.map [of ?b ?e "[]"] b by (simp add: new_event_def)
    then have "finished (value_done (push (if m then END_MAP else END_LIST) id ?p)) \<or>
        frames (value_done (push (if m then END_MAP else END_LIST) id ?p)) \<noteq> [] \<and>
        reading (value_done (push (if m then END_MAP else END_LIST) id ?p))"
      using s by (intro done_reads [of _ "events d'" "[?b, ?e]"]) (simp_all add: push_def)
    then show ?thesis unfolding collection(4) open_frame_def Let_def True by simp
  next
    case False
    let ?f = "\<lparr>is_map = m, left = n, key = m, index = 0, current = []\<rparr>"
    have "partial (?f # frames d') (events d' @ [?b])"
      using partial.items [OF s(1,3), of ?f ?b "[]"] partial.pairs [OF s(1,3), of ?f ?b "[]"] b by (cases m) auto
    then show ?thesis using collection(4) False s(2) by (simp add: open_frame_def Let_def reading_def push_def)
  qed
next
  case (scalar d')
  obtain v where v: "events d' = events d @ [v]" "ecode v \<in> scalar_codes" "frames d' = frames d"
    using scalar(1) by (auto simp: pushes_def)
  show ?thesis unfolding scalar(4)
    by (rule done_reads [of _ "events d" "[v]"])
      (use assms(1) v scalar(3) one_value.scalar in \<open>auto simp: reading_def expects_def at_key_def split: list.splits\<close>)
qed

lemma parse_loop_reads: "reading d \<Longrightarrow> parse_loop d = (None, e) \<Longrightarrow> finished e"
proof (induction d rule: parse_loop.induct)
  case (1 d)
  obtain d' where d': "read_value d = Inr d'" using 1(3) by (subst (asm) parse_loop.simps) (auto split: sum.splits)
  show ?case
  proof (cases "frames d' = []")
    case True
    then have "e = d'" using 1(3) d' by (subst (asm) parse_loop.simps) simp
    then show ?thesis using event_reads [OF 1(2) d'] True by simp
  next
    case False
    then have "parse_loop d' = (None, e)" using 1(3) d' by (subst (asm) parse_loop.simps) simp
    then show ?thesis using 1(1) [OF d' False] event_reads [OF 1(2) d'] False by (auto simp: finished_def)
  qed
qed

definition skips :: "event list \<Rightarrow> bool" where
  "skips v \<longleftrightarrow> (\<forall>depth rest. 0 < depth \<longrightarrow> skip_loop depth (v @ rest) = (fst (skip_loop depth rest), snd (skip_loop depth rest) + length v))"

lemma skips_append: "skips v \<Longrightarrow> skips w \<Longrightarrow> skips (v @ w)"
  by (simp add: skips_def)

lemma skips_concat: "\<forall>v\<in>set vs. skips v \<Longrightarrow> skips (concat vs)"
  by (induction vs) (auto simp: skips_append, simp add: skips_def)

lemma skips_one: "ecode e \<notin> {BEGIN_LIST, BEGIN_MAP, END_LIST, END_MAP} \<Longrightarrow> skips [e]"
  by (simp add: skips_def split: prod.splits)

lemma skips_enclosed:
  assumes "skips v" "ecode b \<in> {BEGIN_LIST, BEGIN_MAP}" "ecode e \<in> {END_LIST, END_MAP}" "0 < depth"
  shows "skip_loop depth (b # v @ e # rest) = (fst (skip_loop depth rest), snd (skip_loop depth rest) + length v + 2)"
  using assms by (auto simp: skips_def split: prod.splits)

lemma event_skips: "one_value v \<Longrightarrow> skips v"
proof (induction rule: one_value.induct)
  case (scalar e)
  then show ?case by (intro skips_one) (auto simp: scalar_codes_def)
next
  case (list b e vs)
  then have "skips (concat vs)" by (intro skips_concat) auto
  then show ?case using list skips_enclosed [of "concat vs" b e] by (simp add: skips_def)
next
  case (map b e kvs)
  have "skips ([k] @ v)" if "(k, v) \<in> set kvs" for k v
    using that map(3) by (intro skips_append skips_one) auto
  then have "skips (concat (map (\<lambda>(k, v). k # v) kvs))" by (intro skips_concat) auto
  then show ?case using map skips_enclosed [of "concat (map (\<lambda>(k, v). k # v) kvs)" b e] by (simp add: skips_def)
qed

lemma parse_loop_ends: "parse_loop d = (None, e) \<Longrightarrow> at e \<le> length (input d) \<and> input e = input d"
proof (induction d rule: parse_loop.induct)
  case (1 d)
  obtain d' where d': "read_value d = Inr d'" using 1(2) by (subst (asm) parse_loop.simps) (auto split: sum.splits)
  show ?case
  proof (cases "frames d' = []")
    case True
    then have "e = d'" using 1(2) d' by (subst (asm) parse_loop.simps) simp
    then show ?thesis using read_value_advances [OF d'] by simp
  next
    case False
    then have "parse_loop d' = (None, e)" using 1(2) d' by (subst (asm) parse_loop.simps) simp
    then show ?thesis using 1(1) [OF d' False] read_value_advances [OF d'] by simp
  qed
qed

text \<open>C27: What the reader accepts are the events of exactly one value, each list and map closed after its items and each value
  of a map after its key, read to the end of the input; and skipping a list or a map, once it began, leaves the reader
  after its end and nowhere else.\<close>

theorem events_form_a_value:
  assumes "error (msgpack_parse bs) = None"
  shows "one_value (revents (msgpack_parse bs)) \<and> at (snd (parse_loop (new_decoder bs))) = length bs \<and>
    (\<forall>pre v post. revents (msgpack_parse bs) = pre @ v @ post \<longrightarrow> one_value v \<longrightarrow> ecode (hd v) \<in> {BEGIN_LIST, BEGIN_MAP} \<longrightarrow>
      msgpack_skip (ecode (hd v)) ((msgpack_parse bs)\<lparr>nread := length pre + 1\<rparr>) =
        (True, (msgpack_parse bs)\<lparr>nread := length pre + length v\<rparr>))"
proof -
  have ne: "bs \<noteq> []" using assms by (auto simp: msgpack_parse_def)
  obtain f d where p: "parse_loop (new_decoder bs) = (f, d)" by fastforce
  have f: "f = None" "\<not> at d < length bs" "revents (msgpack_parse bs) = events d"
    using assms ne p by (auto simp: msgpack_parse_def split: if_splits)
  have "finished d" by (rule parse_loop_reads [OF _ p [unfolded f(1)]]) (simp add: reading_def new_decoder_def partial.nothing)
  then have "one_value (events d)" by (simp add: finished_def)
  moreover have "at d = length bs" using parse_loop_ends [OF p [unfolded f(1)]] f(2) by (simp add: new_decoder_def)
  moreover have "msgpack_skip (ecode (hd v)) ((msgpack_parse bs)\<lparr>nread := length pre + 1\<rparr>) =
        (True, (msgpack_parse bs)\<lparr>nread := length pre + length v\<rparr>)"
    if e: "events d = pre @ v @ post" and v: "one_value v" "ecode (hd v) \<in> {BEGIN_LIST, BEGIN_MAP}" for pre v post
  proof -
    obtain b w where b: "v = b # w" using v(1) by (cases v) (auto elim: one_value.cases)
    have "skip_loop 1 (w @ post) = (0, length w)"
    proof -
      have "\<exists>u e'. w = u @ [e'] \<and> skips u \<and> ecode e' \<in> {END_LIST, END_MAP}" using v
      proof cases
        case (list b' e' vs)
        then show ?thesis using b skips_concat [of vs] event_skips by auto
      next
        case (map b' e' kvs)
        have "skips ([k] @ u)" if "(k, u) \<in> set kvs" for k u
          using that map(4) event_skips [of u] by (intro skips_append skips_one) auto
        then have "skips (concat (map (\<lambda>(k, v). k # v) kvs))" by (intro skips_concat) auto
        then show ?thesis using b map by auto
      qed (use v in \<open>auto simp: scalar_codes_def\<close>)
      then obtain u e' where u: "w = u @ [e']" "skips u" "ecode e' \<in> {END_LIST, END_MAP}" by blast
      have "skip_loop 0 es = (0, 0)" for es by (cases es) auto
      then have "skip_loop 1 (e' # post) = (0, 1)" using u(3) by auto
      then show ?thesis using u(1,2) by (simp add: skips_def)
    qed
    then show ?thesis using e v(2) b f(3) by (auto simp: msgpack_skip_def)
  qed
  ultimately show ?thesis by (simp add: p f)
qed


definition sample_bytes :: "u8 list" where
  "sample_bytes = [0x81, 0xa1, 97, 0x92, 1, 0xc0]"

lemma sample_parses: "error (msgpack_parse sample_bytes) = None \<and>
  map ecode (revents (msgpack_parse sample_bytes)) = [BEGIN_MAP, KEY, BEGIN_LIST, INTEGER, NULL, END_LIST, END_MAP]"
  by code_simp

theorem events_form_a_value_witness:
  "one_value (revents (msgpack_parse sample_bytes)) \<and> length (revents (msgpack_parse sample_bytes)) = 7"
proof -
  have "length (revents (msgpack_parse sample_bytes)) = length [BEGIN_MAP, KEY, BEGIN_LIST, INTEGER, NULL, END_LIST, END_MAP]"
    by (metis length_map sample_parses)
  then show ?thesis using events_form_a_value [of sample_bytes] sample_parses by simp
qed

subsection \<open>Dates and times\<close>

lemma big_endian_append: "big_endian (a @ b) = push_bit (8 * length b) (big_endian a) OR big_endian b"
proof -
  let ?f = "\<lambda>b v. push_bit 8 v OR ucast (b :: u8) :: u64"
  have f: "fold ?f b v = push_bit (8 * length b) v OR fold ?f b 0" for v
  proof (induction b arbitrary: v)
    case (Cons x b)
    have "fold ?f (x # b) v = push_bit (8 * length b) (push_bit 8 v OR ucast x) OR fold ?f b 0"
      using Cons [of "push_bit 8 v OR ucast x"] by simp
    moreover have "fold ?f (x # b) 0 = push_bit (8 * length b) (ucast x) OR fold ?f b 0"
      using Cons [of "ucast x"] by simp
    moreover have "push_bit (8 * length b) (push_bit 8 v) = push_bit (8 * length (x # b)) v" by (simp add: add.commute)
    ultimately show ?case by (simp only: push_bit_or or.assoc)
  qed simp
  show ?thesis using f [of "big_endian a"] unfolding big_endian_def fold_append comp_def .
qed

lemma which_byte: 
  obtains "n < 8" | k where "k < 8" "n = 8 + k" | k where "k < 8" "n = 16 + k" | k where "k < 8" "n = 24 + k" | "32 \<le> (n :: nat)"
proof -
  consider "n < 8" | "8 \<le> n \<and> n < 16" | "16 \<le> n \<and> n < 24" | "24 \<le> n \<and> n < 32" | "32 \<le> n" by linarith
  then show thesis
  proof cases
    case 2 then show thesis using that(2) [of "n - 8"] by simp
  next
    case 3 then show thesis using that(3) [of "n - 16"] by simp
  next
    case 4 then show thesis using that(4) [of "n - 24"] by simp
  qed (use that in blast)+
qed

lemma big_endian_be32: "big_endian (be32 w) = ucast w"
proof (rule bit_word_eqI)
  fix n
  show "bit (big_endian (be32 w)) n = bit (ucast w :: u64) n"
    unfolding be32_def big_endian_def
    by (rule which_byte [of n]) (auto simp: bit_simps dest: bit_imp_le_length)
qed

lemma big_endian_be64: "big_endian (be64 w) = w"
  unfolding be64_def big_endian_append big_endian_be32
proof (rule bit_word_eqI)
  fix n :: nat
  have "32 + (n - 32) = n" if "\<not> n < 32" using that by (simp add: not_less)
  then show "bit (push_bit (8 * length (be32 (ucast w))) (ucast (ucast (drop_bit 32 w) :: u32)) OR ucast (ucast w :: u32) :: u64) n = bit w n"
    by (cases "n < 32") (auto simp: bit_simps be32_def dest: bit_imp_le_length)
qed

text \<open>The timestamps of the three lengths read back.\<close>

lemma sint_small:
  assumes "uint (x :: u64) < 2 ^ 63" shows "sint x = uint x"
proof -
  have "- (2 ^ 63 :: int) \<le> 0" by simp
  also have "0 \<le> uint x" by simp
  finally show ?thesis using signed_take_bit_int_eq_self [of 63 "uint x"] assms by (simp add: sint_uint)
qed

lemma mp_small_bits: "0 \<le> s \<Longrightarrow> s < 2 ^ 34 \<Longrightarrow> bit (s :: int) k \<Longrightarrow> k < 34" "n < 2 ^ 30 \<Longrightarrow> bit (n :: nat) k \<Longrightarrow> k < 30"
  by (metis bit_take_bit_iff take_bit_int_eq_self) (metis bit_take_bit_iff take_bit_nat_eq_self)

lemma timestamp32:
  assumes "0 \<le> s" "s < 2 ^ 32" shows "timestamp (be32 (word_of_int s)) = Some (s, 0)"
proof -
  have "uint (ucast (word_of_int s :: u32) :: u64) = s"
    using assms by (simp add: unsigned_ucast_eq unsigned_of_int take_bit_int_eq_self)
  then have "sint (ucast (word_of_int s :: u32) :: u64) = s" using assms by (subst sint_small) simp_all
  then show ?thesis unfolding timestamp_def big_endian_be32 by (simp add: be32_def)
qed

lemma timestamp64:
  assumes "0 \<le> s" "s < 2 ^ 34" "n < 10 ^ 9"
  shows "timestamp (be64 (push_bit 34 (of_nat n) OR word_of_int s)) = Some (s, n)"
proof -
  let ?w = "push_bit 34 (of_nat n) OR word_of_int s :: u64"
  have n: "n < 2 ^ 30" using assms(3) by simp
  have m: "(0x3ffffffff :: u64) = mask 34" by (simp add: mask_eq_exp_minus_1)
  have "?w AND 0x3ffffffff = word_of_int s"
    unfolding m by (rule bit_word_eqI) (auto simp: bit_simps dest: mp_small_bits(1) [OF assms(1,2)])
  moreover have "uint (word_of_int s :: u64) = s" using assms by (simp add: unsigned_of_int take_bit_int_eq_self)
  ultimately have "sint (?w AND 0x3ffffffff) = s" using assms sint_small [of "word_of_int s"] by simp
  moreover have "drop_bit 34 ?w = of_nat n"
    by (rule bit_word_eqI) (auto simp: bit_simps dest: mp_small_bits(1) [OF assms(1,2)] mp_small_bits(2) [OF n])
  then have "unat (ucast (drop_bit 34 ?w) :: u32) = n"
    using n by (simp add: unsigned_ucast_eq unsigned_of_nat unsigned_take_bit_eq take_bit_nat_eq_self)
  moreover have "length (be64 ?w) = 8" by (simp add: be64_def be32_def)
  ultimately show ?thesis unfolding timestamp_def big_endian_be64 by simp
qed

lemma timestamp96:
  assumes "- (2 ^ 63) \<le> s" "s < 2 ^ 63" "n < 10 ^ 9"
  shows "timestamp (be32 (of_nat n) @ be64 (word_of_int s)) = Some (s, n)"
proof -
  have l: "length (be32 x) = 4" "length (be64 y) = 8" for x y by (simp_all add: be32_def be64_def)
  have "unat (ucast (ucast (of_nat n :: u32) :: u64) :: u32) = n"
    using assms(3) by (simp add: unsigned_ucast_eq unsigned_of_nat unsigned_take_bit_eq take_bit_nat_eq_self)
  moreover have "sint (word_of_int s :: u64) = s"
    using assms signed_take_bit_int_eq_self [of 63 s] by (simp add: signed_of_int)
  ultimately show ?thesis by (simp add: timestamp_def l big_endian_be64 big_endian_be32)
qed


lemma extension_reads:
  assumes "input d = pre @ 0xff # x" "at d = length pre" "timestamp x = Some (s, n)"
  shows "read_extension st (length x) d =
    Inr (push DATETIME (\<lambda>e. e\<lparr>etext := format_time s n\<rparr>) (d\<lparr>at := length (pre @ 0xff # x)\<rparr>))"
  using assms by (simp add: read_extension_def take_bytes_def fail_def Let_def)

lemma done_alone: "frames d = [] \<Longrightarrow> value_done d = d"
  by (simp add: value_done_def count_item_def close_simps)

definition datetime_event :: "string \<Rightarrow> event" where
  "datetime_event s = \<lparr>ecode = DATETIME, etext = s, eint = 0, efloat = Bits64 0, ebytes = [], epath = ''$''\<rparr>"

text \<open>A document of one timestamp, after its first bytes.\<close>

lemma one_timestamp:
  assumes x: "timestamp x = Some (s, n)"
    and m: "(m = 0xd6 \<and> length x = 4 \<or> m = 0xd7 \<and> length x = 8) \<and> pre = [m] \<or> m = (0xc7 :: u8) \<and> length x = 12 \<and> pre = [m, 12]"
  shows "msgpack_parse (pre @ 0xff # x) = \<lparr>revents = [datetime_event (format_time s n)], nread = 0, error = None\<rparr>"
proof -
  let ?bs = "pre @ 0xff # x" let ?d = "new_decoder ?bs"
  let ?e = "push DATETIME (\<lambda>e. e\<lparr>etext := format_time s n\<rparr>) (?d\<lparr>at := length ?bs\<rparr>)"
  have e: "read_extension 0 (length x) (?d\<lparr>at := length pre\<rparr>) = Inr ?e"
    using extension_reads [of "?d\<lparr>at := length pre\<rparr>" pre x s n 0] x by (simp add: new_decoder_def)
  have u: "read_uint 1 (?d\<lparr>at := 1\<rparr>) = Inr (12, ?d\<lparr>at := 2\<rparr>)" if "pre = [m, 12]"
    by (simp add: that read_uint_def take_bytes_def new_decoder_def big_endian_def)
  consider "m = 0xd6" "length x = 4" "pre = [m]" | "m = 0xd7" "length x = 8" "pre = [m]" | "m = 0xc7" "length x = 12" "pre = [m, 12]"
    using m by blast
  then have r: "read_scalar 0 (unat m) (?d\<lparr>at := 1\<rparr>) = Inr ?e"
  proof cases
    case 1 then show ?thesis using e by (simp add: read_scalar_def)
  next
    case 2 then show ?thesis using e by (simp add: read_scalar_def)
  next
    case 3
    have "length pre = 2" using 3 by simp
    with e have e2: "read_extension 0 12 (?d\<lparr>at := 2\<rparr>) = Inr ?e" unfolding 3(2) by simp
    have "read_scalar 0 0xc7 (?d\<lparr>at := 1\<rparr>) = Inr ?e"
      unfolding read_scalar_def by (simp add: u [OF 3(3)] e2 del: One_nat_def)
    moreover have "unat m = 0xc7" by (simp add: 3(1))
    ultimately show ?thesis by (simp only:)
  qed
  have t: "take_bytes 1 ?d = Inr ([m], ?d\<lparr>at := 1\<rparr>)" using m by (auto simp: take_bytes_def new_decoder_def)
  have k: "at_key (?d\<lparr>at := 1\<rparr>) = False" "at ?d = 0" by (simp_all add: at_key_def new_decoder_def)
  have d: "value_done (push DATETIME f (new_decoder bs\<lparr>at := k\<rparr>)) = push DATETIME f (new_decoder bs\<lparr>at := k\<rparr>)" for f bs k
    by (rule done_alone) (simp add: push_def new_decoder_def)
  have "unat m \<in> {0xd6, 0xd7, 0xc7}" using m by auto
  then have "read_value ?d = Inr ?e" unfolding read_value_def t
    by (auto simp: k r d Let_def simp del: One_nat_def)
  moreover have "frames ?e = []" by (simp add: push_def new_decoder_def)
  ultimately have "parse_loop ?d = (None, ?e)" by (subst parse_loop.simps) simp
  then show ?thesis
    by (simp add: msgpack_parse_def push_def new_decoder_def new_event_def path_of_def datetime_event_def)
qed

text \<open>C28: A date and time that is written, in the shortest form of timestamp that has it, reads back as one event with the
  same seconds and nanoseconds, for all the seconds of 64 bits.\<close>

theorem datetime_reads_back:
  assumes "parse_time t = Some (s, n)" "n < 10 ^ 9" "- (2 ^ 63) \<le> s" "s < 2 ^ 63"
  shows "map_option msgpack_parse (write_datetime t) =
    Some \<lparr>revents = [datetime_event (format_time s n)], nread = 0, error = None\<rparr>"
proof -
  have l: "length (be32 x) = 4" "length (be64 y) = 8" for x y by (simp_all add: be32_def be64_def)
  consider (a) "n = 0 \<and> 0 \<le> s \<and> s < 2 ^ 32" | (b) "\<not> (n = 0 \<and> 0 \<le> s \<and> s < 2 ^ 32)" "0 \<le> s \<and> s < 2 ^ 34"
    | (c) "\<not> (n = 0 \<and> 0 \<le> s \<and> s < 2 ^ 32)" "\<not> (0 \<le> s \<and> s < 2 ^ 34)" by blast
  then show ?thesis
  proof cases
    case a
    then have "write_datetime t = Some ([0xd6] @ 0xff # be32 (word_of_int s))" using assms(1) by (simp add: write_datetime_def)
    moreover have "timestamp (be32 (word_of_int s)) = Some (s, n)" using a timestamp32 by simp
    ultimately show ?thesis using one_timestamp [where x = "be32 (word_of_int s)" and s = s and n = n and m = "0xd6" and pre = "[0xd6]"] by (simp add: l)
  next
    case b
    then have "write_datetime t = Some ([0xd7] @ 0xff # be64 (push_bit 34 (of_nat n) OR word_of_int s))"
      using assms(1) by (simp add: write_datetime_def)
    moreover have "timestamp (be64 (push_bit 34 (of_nat n) OR word_of_int s)) = Some (s, n)"
      using b(2) assms(2) by (intro timestamp64) simp_all
    ultimately show ?thesis using one_timestamp [where s = s and n = n and m = "0xd7" and pre = "[0xd7]"] by (simp add: l)
  next
    case c
    then have "write_datetime t = Some ([0xc7, 12] @ 0xff # be32 (of_nat n) @ be64 (word_of_int s))"
      using assms(1) by (simp add: write_datetime_def)
    moreover have "timestamp (be32 (of_nat n) @ be64 (word_of_int s)) = Some (s, n)"
      by (rule timestamp96 [OF assms(3,4,2)])
    ultimately show ?thesis using one_timestamp [where s = s and n = n and m = "0xc7" and pre = "[0xc7, 12]"] by (simp add: l)
  qed
qed

theorem datetime_reads_back_witness:
  "map_option msgpack_parse (write_datetime (format_time 1 500000000)) =
    Some \<lparr>revents = [datetime_event (format_time 1 500000000)], nread = 0, error = None\<rparr>"
  by (rule datetime_reads_back, rule parse_time_format_time) (simp_all add: first_second_def last_second_def)




end
