(* ===== verification/Epochs.thy ===== *)
theory Epochs
  imports Prelude "HOL-Library.Multiset"
begin

text \<open>
  The reclamation by epochs of the shared collections, \<^verbatim>\<open>crates/tondo-runtime/src/shared.rs\<close> (\<open>pin\<close>, \<open>Pin::retire\<close>,
  \<open>Drop for Pin\<close>, \<open>try_advance\<close>, \<open>collect\<close>, \<open>flush\<close>): the steps of the threads, one for each access to what they share, in
  the order of a sequentially consistent memory; that what is retired is kept for the threads pinned at that moment; and
  the interface by which a collection is safe, as the locale \<open>reclaimed\<close>. An epoch is a number that does not wrap.
\<close>

subsection \<open>Participants and their steps\<close>

text \<open>Where a thread stands: between the load of the epoch and the store of a pin, pinned, between the load and the push of
  something retired, and in the collection after its last pin, with the epoch \<open>try_advance\<close> loaded and the next
  participant it looks at.\<close>

datatype 'g stage = Outside | Pinning nat | Pinned | Retiring 'g nat
  | Leaving | Advancing nat | Looking nat nat | Swapping nat | Collecting

text \<open>\<open>since\<close> is history: the epoch at the moment the pin was stored.\<close>

record 'g participant =
  state :: nat
  garbage :: "(nat \<times> 'g) list"
  depth :: nat
  stage :: "'g stage"
  since :: nat

text \<open>\<open>held_list\<close> is the lock of the list of participants. \<open>retired\<close> and \<open>freed\<close> list what was retired and freed so far, and
  \<open>guards\<close> is history: what was retired while a thread was pinned, as long as it stays pinned.\<close>

record 'g epochs =
  epoch :: nat
  participants :: "'g participant list"
  held_list :: bool
  retired :: "'g list"
  freed :: "'g list"
  guards :: "('g \<times> nat) set"

definition new_epochs :: "'g epochs" where
  "new_epochs = \<lparr>epoch = 0, participants = [], held_list = False, retired = [], freed = [], guards = {}\<rparr>"

definition new_participant :: "'g participant" where
  "new_participant = \<lparr>state = 0, garbage = [], depth = 0, stage = Outside, since = 0\<rparr>"

abbreviation part :: "'g epochs \<Rightarrow> nat \<Rightarrow> 'g participant" where
  "part s t \<equiv> participants s ! t"

definition set_part :: "nat \<Rightarrow> 'g participant \<Rightarrow> 'g epochs \<Rightarrow> 'g epochs" where
  "set_part t p s = s\<lparr>participants := (participants s)[t := p]\<rparr>"

definition is_pinned :: "'g participant \<Rightarrow> bool" where
  "is_pinned p \<longleftrightarrow> state p mod 2 = 1"

definition pinned_threads :: "'g epochs \<Rightarrow> nat set" where
  "pinned_threads s = {t \<in> set [0..<length (participants s)]. is_pinned (part s t)}"

text \<open>The first use of \<open>LOCAL\<close> by a thread.\<close>

definition register :: "'g epochs \<Rightarrow> 'g epochs option" where
  "register s = (if held_list s then None else Some (s\<lparr>participants := participants s @ [new_participant]\<rparr>))"

definition pin_load :: "nat \<Rightarrow> 'g epochs \<Rightarrow> 'g epochs option" where
  "pin_load t s = (let p = part s t in
     if depth p = 0 then (case stage p of Outside \<Rightarrow> Some (set_part t (p\<lparr>stage := Pinning (epoch s)\<rparr>) s) | _ \<Rightarrow> None)
     else None)"

definition pin_store :: "nat \<Rightarrow> 'g epochs \<Rightarrow> 'g epochs option" where
  "pin_store t s = (let p = part s t in
     case stage p of
       Pinning e \<Rightarrow> Some (set_part t (p\<lparr>state := 2 * e + 1, depth := 1, stage := Pinned, since := epoch s\<rparr>) s)
     | _ \<Rightarrow> None)"

text \<open>A pin within a pin only counts.\<close>

definition pin_again :: "nat \<Rightarrow> 'g epochs \<Rightarrow> 'g epochs option" where
  "pin_again t s = (let p = part s t in
     case stage p of Pinned \<Rightarrow> Some (set_part t (p\<lparr>depth := depth p + 1\<rparr>) s) | _ \<Rightarrow> None)"

text \<open>What is retired has been taken out of its collection before the epoch is loaded.\<close>

definition retire_load :: "'g \<Rightarrow> nat \<Rightarrow> 'g epochs \<Rightarrow> 'g epochs option" where
  "retire_load x t s = (let p = part s t in
     case stage p of
       Pinned \<Rightarrow> if x \<in> set (retired s) then None
         else Some (set_part t (p\<lparr>stage := Retiring x (epoch s)\<rparr>) s
           \<lparr>retired := x # retired s, guards := guards s \<union> Pair x ` pinned_threads s\<rparr>)
     | _ \<Rightarrow> None)"

definition retire_push :: "nat \<Rightarrow> 'g epochs \<Rightarrow> 'g epochs option" where
  "retire_push t s = (let p = part s t in
     case stage p of
       Retiring x e \<Rightarrow> Some (set_part t (p\<lparr>stage := Pinned, garbage := garbage p @ [(e, x)]\<rparr>) s)
     | _ \<Rightarrow> None)"

text \<open>The pin is dropped; the last one stores 0 and goes on to collect.\<close>

definition unpin :: "nat \<Rightarrow> 'g epochs \<Rightarrow> 'g epochs option" where
  "unpin t s = (let p = part s t in
     case stage p of
       Pinned \<Rightarrow> if depth p > 1 then Some (set_part t (p\<lparr>depth := depth p - 1\<rparr>) s)
         else Some (set_part t (p\<lparr>depth := 0, state := 0, stage := Leaving\<rparr>) s\<lparr>guards := Set.filter (\<lambda>g. snd g \<noteq> t) (guards s)\<rparr>)
     | _ \<Rightarrow> None)"

definition GARBAGE :: nat where "GARBAGE = 64"

definition collect_begin :: "nat \<Rightarrow> 'g epochs \<Rightarrow> 'g epochs option" where
  "collect_begin t s = (let p = part s t in
     case stage p of
       Leaving \<Rightarrow> Some (set_part t (p\<lparr>stage := if length (garbage p) < GARBAGE then Outside else Advancing (epoch s)\<rparr>) s)
     | _ \<Rightarrow> None)"

definition advance_lock :: "nat \<Rightarrow> 'g epochs \<Rightarrow> 'g epochs option" where
  "advance_lock t s = (let p = part s t in
     case stage p of
       Advancing e \<Rightarrow> if held_list s then None else Some (set_part t (p\<lparr>stage := Looking e 0\<rparr>) s\<lparr>held_list := True\<rparr>)
     | _ \<Rightarrow> None)"

text \<open>One participant of the loop, or its end: a participant pinned at another epoch ends it without advancing.\<close>

definition advance_look :: "nat \<Rightarrow> 'g epochs \<Rightarrow> 'g epochs option" where
  "advance_look t s = (let p = part s t in
     case stage p of
       Looking e i \<Rightarrow> if i < length (participants s)
         then (let state = state (part s i) in
               if state mod 2 = 1 \<and> state div 2 \<noteq> e then Some (set_part t (p\<lparr>stage := Collecting\<rparr>) s\<lparr>held_list := False\<rparr>)
               else Some (set_part t (p\<lparr>stage := Looking e (i + 1)\<rparr>) s))
         else Some (set_part t (p\<lparr>stage := Swapping e\<rparr>) s\<lparr>held_list := False\<rparr>)
     | _ \<Rightarrow> None)"

definition advance_swap :: "nat \<Rightarrow> 'g epochs \<Rightarrow> 'g epochs option" where
  "advance_swap t s = (let p = part s t in
     case stage p of
       Swapping e \<Rightarrow> Some (set_part t (p\<lparr>stage := Collecting\<rparr>) s\<lparr>epoch := if epoch s = e then e + 1 else epoch s\<rparr>)
     | _ \<Rightarrow> None)"

definition ready :: "bool \<Rightarrow> nat \<Rightarrow> (nat \<times> 'g) list \<Rightarrow> (nat \<times> 'g) list \<times> (nat \<times> 'g) list" where
  "ready everything global items = partition (\<lambda>(e, x). everything \<or> e + 2 \<le> global) items"

definition collect_free :: "nat \<Rightarrow> 'g epochs \<Rightarrow> 'g epochs option" where
  "collect_free t s = (let p = part s t in
     case stage p of
       Collecting \<Rightarrow> (case ready False (epoch s) (garbage p) of
         (out, keep) \<Rightarrow> Some (set_part t (p\<lparr>stage := Outside, garbage := keep\<rparr>) s\<lparr>freed := freed s @ map snd out\<rparr>))
     | _ \<Rightarrow> None)"

text \<open>A step of thread \<open>t\<close>, and a run of them.\<close>

datatype 'g action = Register | PinLoad | PinStore | PinAgain | RetireLoad 'g | RetirePush | Unpin
  | CollectBegin | AdvanceLock | AdvanceLook | AdvanceSwap | CollectFree

fun act :: "'g action \<Rightarrow> nat \<Rightarrow> 'g epochs \<Rightarrow> 'g epochs option" where
  "act Register t s = (if t = length (participants s) then register s else None)"
| "act a t s = (if t < length (participants s) then
     (case a of PinLoad \<Rightarrow> pin_load t s | PinStore \<Rightarrow> pin_store t s | PinAgain \<Rightarrow> pin_again t s
      | RetireLoad x \<Rightarrow> retire_load x t s | RetirePush \<Rightarrow> retire_push t s | Unpin \<Rightarrow> unpin t s
      | CollectBegin \<Rightarrow> collect_begin t s | AdvanceLock \<Rightarrow> advance_lock t s | AdvanceLook \<Rightarrow> advance_look t s
      | AdvanceSwap \<Rightarrow> advance_swap t s | CollectFree \<Rightarrow> collect_free t s | Register \<Rightarrow> None) else None)"

fun acts :: "('g action \<times> nat) list \<Rightarrow> 'g epochs \<Rightarrow> 'g epochs option" where
  "acts [] s = Some s"
| "acts ((a, t) # as) s = (case act a t s of None \<Rightarrow> None | Some s' \<Rightarrow> acts as s')"

text \<open>At the end of the program, with everything.\<close>

definition flush :: "'g epochs \<Rightarrow> 'g epochs" where
  "flush s = s\<lparr>participants := map (\<lambda>p. p\<lparr>garbage := snd (ready True (epoch s) (garbage p))\<rparr>) (participants s),
     freed := freed s @ concat (map (\<lambda>p. map snd (fst (ready True (epoch s) (garbage p)))) (participants s))\<rparr>"

lemmas act_defs = register_def pin_load_def pin_store_def pin_again_def retire_load_def retire_push_def unpin_def
  collect_begin_def advance_lock_def advance_look_def advance_swap_def collect_free_def

subsection \<open>The invariant\<close>

fun on_the_way :: "'g stage \<Rightarrow> (nat \<times> 'g) list" where
  "on_the_way (Retiring x e) = [(e, x)]"
| "on_the_way _ = []"

definition items :: "'g participant \<Rightarrow> (nat \<times> 'g) list" where
  "items p = on_the_way (stage p) @ garbage p"

text \<open>The epoch an advance started from, and the participants it has passed.\<close>

fun passed :: "'g stage \<Rightarrow> nat \<Rightarrow> (nat \<times> nat) option" where
  "passed (Looking e i) n = Some (e, i)"
| "passed (Swapping e) n = Some (e, n)"
| "passed (Advancing e) n = Some (e, 0)"
| "passed _ n = None"

definition pin_fits :: "nat \<Rightarrow> 'g participant \<Rightarrow> bool" where
  "pin_fits now p \<longleftrightarrow>
     (case stage p of
        Pinned \<Rightarrow> is_pinned p \<and> depth p > 0
      | Retiring x e \<Rightarrow> is_pinned p \<and> depth p > 0
      | Pinning e \<Rightarrow> e \<le> now \<and> state p = 0 \<and> depth p = 0
      | _ \<Rightarrow> state p = 0 \<and> depth p = 0) \<and>
     (is_pinned p \<longrightarrow> state p div 2 \<le> since p \<and> since p \<le> now \<and> now \<le> since p + 1)"

definition advance_fits :: "'g epochs \<Rightarrow> 'g stage \<Rightarrow> bool" where
  "advance_fits s g \<longleftrightarrow> (case passed g (length (participants s)) of
     None \<Rightarrow> True
   | Some (e, i) \<Rightarrow> e \<le> epoch s \<and> (\<forall>t<length (participants s). t < i \<longrightarrow> is_pinned (part s t) \<longrightarrow> e \<le> since (part s t)))"

definition guard_fits :: "'g epochs \<Rightarrow> 'g \<times> nat \<Rightarrow> bool" where
  "guard_fits s g \<longleftrightarrow> (case g of (x, t) \<Rightarrow> t < length (participants s) \<and> is_pinned (part s t) \<and> x \<in> set (retired s) \<and> x \<notin> set (freed s) \<and>
     (\<forall>p\<in>set (participants s). \<forall>(e, y)\<in>set (items p). y = x \<longrightarrow> since (part s t) \<le> e))"

definition epochs_ok :: "'g epochs \<Rightarrow> bool" where
  "epochs_ok s \<longleftrightarrow>
     (\<forall>p\<in>set (participants s). pin_fits (epoch s) p \<and> advance_fits s (stage p)) \<and>
     (\<forall>g\<in>guards s. guard_fits s g) \<and>
     distinct (retired s) \<and>
     mset (retired s) = mset (freed s) + (\<Sum>p\<leftarrow>participants s. mset (map snd (items p)))"


lemma items_update:
  "t < length ps \<Longrightarrow> (\<Sum>p\<leftarrow>ps[t := p']. mset (map snd (items p))) + mset (map snd (items (ps ! t)))
    = (\<Sum>p\<leftarrow>ps. mset (map snd (items p))) + mset (map snd (items p'))"
  by (induction ps arbitrary: t) (auto simp: nth_Cons split: nat.splits)

lemma update_members: "p \<in> set (ps[t := p']) \<Longrightarrow> p = p' \<or> p \<in> set ps"
  using set_update_subset_insert [of ps t p'] by auto

lemma advance_mono:
  assumes "advance_fits s g" "epoch s \<le> epoch s'" "length (participants s) \<le> length (participants s')"
    and "\<And>t. t < length (participants s') \<Longrightarrow> is_pinned (part s' t) \<Longrightarrow>
      t < length (participants s) \<and> is_pinned (part s t) \<and> since (part s' t) = since (part s t) \<or> epoch s \<le> since (part s' t)"
  shows "advance_fits s' g"
  using assms(1-3) by (cases g) (auto simp: advance_fits_def dest: assms(4) intro: order_trans)

lemma guard_mono:
  assumes "guard_fits s g" "snd g < length (participants s')" "is_pinned (part s' (snd g))" "set (retired s) \<subseteq> set (retired s')"
    "set (freed s') = set (freed s)" "since (part s' (snd g)) = since (part s (snd g))"
    and "\<And>p e. p \<in> set (participants s') \<Longrightarrow> (e, fst g) \<in> set (items p) \<Longrightarrow> \<exists>q\<in>set (participants s). (e, fst g) \<in> set (items q)"
  shows "guard_fits s' g"
  using assms by (cases g) (fastforce simp: guard_fits_def)

text \<open>Steps of one thread that retire, free and advance nothing.\<close>

lemma own_step:
  assumes ok: "epochs_ok s" and t: "t < length (participants s)"
    and parts: "participants s' = (participants s)[t := p']"
    and rest: "epoch s' = epoch s" "retired s' = retired s" "freed s' = freed s" "guards s' \<subseteq> guards s"
    and pin: "is_pinned p' \<Longrightarrow> is_pinned (part s t) \<and> since p' = since (part s t) \<or> epoch s \<le> since p'"
    and kept: "t \<in> snd ` guards s' \<Longrightarrow> is_pinned p' \<and> since p' = since (part s t)"
    and its: "mset (items p') = mset (items (part s t))"
    and fits: "pin_fits (epoch s) p'" "advance_fits s (stage p')"
  shows "epochs_ok s'"
proof -
  have len: "length (participants s') = length (participants s)" by (simp add: parts)
  have sets: "set (items p') = set (items (part s t))" using its by (metis set_mset_mset)
  have adv: "advance_fits s' g" if "advance_fits s g" for g
    using that
  proof (rule advance_mono)
    fix u assume "u < length (participants s')" "is_pinned (part s' u)"
    then show "u < length (participants s) \<and> is_pinned (part s u) \<and> since (part s' u) = since (part s u) \<or> epoch s \<le> since (part s' u)"
      using pin t by (cases "u = t") (auto simp: parts)
  qed (simp_all add: rest len)
  have "pin_fits (epoch s') p \<and> advance_fits s' (stage p)" if "p \<in> set (participants s')" for p
    using that ok fits adv unfolding parts rest epochs_ok_def by (auto dest: update_members)
  moreover have "guard_fits s' g" if m: "g \<in> guards s'" for g
  proof -
    have g: "guard_fits s g" using m ok rest(4) by (auto simp: epochs_ok_def)
    then have l: "snd g < length (participants s)" "is_pinned (part s (snd g))" by (auto simp: guard_fits_def split: prod.splits)
    have k: "is_pinned (part s' (snd g)) \<and> since (part s' (snd g)) = since (part s (snd g))"
      using kept m l t by (cases "snd g = t") (force simp: parts)+
    show ?thesis
    proof (rule guard_mono [OF g])
      fix p e assume "p \<in> set (participants s')" "(e, fst g) \<in> set (items p)"
      then show "\<exists>q\<in>set (participants s). (e, fst g) \<in> set (items q)"
        using sets t unfolding parts by (auto dest!: update_members)
    qed (use l k rest len in auto)
  qed
  moreover have "mset (retired s') = mset (freed s') + (\<Sum>p\<leftarrow>participants s'. mset (map snd (items p)))"
  proof -
    have "mset (map snd (items p')) = mset (map snd (items (part s t)))" using its by (metis mset_map)
    then show ?thesis using ok items_update [OF t, of p'] by (simp add: rest parts epochs_ok_def)
  qed
  ultimately show ?thesis using ok by (simp add: rest epochs_ok_def)
qed

lemma ok_parts:
  assumes "epochs_ok s" "t < length (participants s)"
  shows "pin_fits (epoch s) (part s t)" "advance_fits s (stage (part s t))"
    "\<not> is_pinned (part s t) \<Longrightarrow> t \<notin> snd ` guards s"
  using assms by (auto simp: epochs_ok_def guard_fits_def)

lemma set_part_sel [simp]:
  "participants (set_part t p s) = (participants s)[t := p]" "epoch (set_part t p s) = epoch s"
  "retired (set_part t p s) = retired s" "freed (set_part t p s) = freed s" "guards (set_part t p s) = guards s"
  by (simp_all add: set_part_def)

lemmas fits_defs = pin_fits_def advance_fits_def is_pinned_def items_def

lemma pin_load_ok: "epochs_ok s \<Longrightarrow> t < length (participants s) \<Longrightarrow> pin_load t s = Some s' \<Longrightarrow> epochs_ok s'"
  using ok_parts [of s t]
  by (intro own_step [of s t s' "(part s t)\<lparr>stage := Pinning (epoch s)\<rparr>"])
    (auto simp: pin_load_def Let_def fits_defs split: if_splits stage.splits)

lemma pin_store_ok: "epochs_ok s \<Longrightarrow> t < length (participants s) \<Longrightarrow> pin_store t s = Some s' \<Longrightarrow> epochs_ok s'"
  using ok_parts [of s t]
  by (intro own_step [of s t s' "(part s t)\<lparr>state := 2 * (case stage (part s t) of Pinning e \<Rightarrow> e) + 1, depth := 1, stage := Pinned, since := epoch s\<rparr>"])
    (auto simp: pin_store_def Let_def fits_defs split: if_splits stage.splits)

lemma pin_again_ok: "epochs_ok s \<Longrightarrow> t < length (participants s) \<Longrightarrow> pin_again t s = Some s' \<Longrightarrow> epochs_ok s'"
  using ok_parts [of s t]
  by (intro own_step [of s t s' "(part s t)\<lparr>depth := depth (part s t) + 1\<rparr>"])
    (auto simp: pin_again_def Let_def fits_defs split: if_splits stage.splits)

lemma retire_push_ok: "epochs_ok s \<Longrightarrow> t < length (participants s) \<Longrightarrow> retire_push t s = Some s' \<Longrightarrow> epochs_ok s'"
  using ok_parts [of s t]
  by (intro own_step [of s t s' "(part s t)\<lparr>stage := Pinned, garbage := garbage (part s t) @ on_the_way (stage (part s t))\<rparr>"])
    (auto simp: retire_push_def Let_def fits_defs split: if_splits stage.splits)

lemma unpin_ok:
  assumes ok: "epochs_ok s" and t: "t < length (participants s)" and s': "unpin t s = Some s'"
  shows "epochs_ok s'"
proof (cases "depth (part s t) > 1")
  case True
  then show ?thesis using s' ok_parts [OF ok t]
    by (intro own_step [OF ok t, of s' "(part s t)\<lparr>depth := depth (part s t) - 1\<rparr>"])
      (auto simp: unpin_def Let_def fits_defs split: if_splits stage.splits)
next
  case False
  then show ?thesis using s' ok_parts [OF ok t]
    by (intro own_step [OF ok t, of s' "(part s t)\<lparr>depth := 0, state := 0, stage := Leaving\<rparr>"])
      (auto simp: unpin_def Let_def fits_defs split: if_splits stage.splits)
qed

lemma collect_begin_ok: "epochs_ok s \<Longrightarrow> t < length (participants s) \<Longrightarrow> collect_begin t s = Some s' \<Longrightarrow> epochs_ok s'"
  using ok_parts [of s t]
  by (intro own_step [of s t s' "(part s t)\<lparr>stage := if length (garbage (part s t)) < GARBAGE then Outside else Advancing (epoch s)\<rparr>"])
    (auto simp: collect_begin_def Let_def fits_defs split: if_splits stage.splits)

lemma advance_lock_ok: "epochs_ok s \<Longrightarrow> t < length (participants s) \<Longrightarrow> advance_lock t s = Some s' \<Longrightarrow> epochs_ok s'"
  using ok_parts [of s t]
  by (intro own_step [of s t s' "(part s t)\<lparr>stage := Looking (case stage (part s t) of Advancing e \<Rightarrow> e) 0\<rparr>"])
    (auto simp: advance_lock_def Let_def fits_defs split: if_splits stage.splits)

lemma advance_look_ok:
  assumes ok: "epochs_ok s" and t: "t < length (participants s)" and s': "advance_look t s = Some s'"
  shows "epochs_ok s'"
proof -
  obtain e i where g: "stage (part s t) = Looking e i" using s' by (auto simp: advance_look_def Let_def split: stage.splits)
  let ?p = "\<lambda>g. (part s t)\<lparr>stage := g\<rparr>"
  have own: "epochs_ok s'" if "s' = set_part t (?p g) s\<lparr>held_list := h\<rparr>" "passed g 0 = None \<or> advance_fits s g" "g \<noteq> Pinned"
      "\<forall>x e. g \<noteq> Retiring x e" "\<forall>e. g \<noteq> Pinning e" for g h
    using that g ok_parts [OF ok t]
    by (intro own_step [OF ok t, of s' "?p g"]) (cases g; auto simp: fits_defs split: stage.splits)+
  have e: "e \<le> epoch s" "\<And>u. u < length (participants s) \<Longrightarrow> u < i \<Longrightarrow> is_pinned (part s u) \<Longrightarrow> e \<le> since (part s u)"
    using ok_parts(2) [OF ok t] by (auto simp: g advance_fits_def)
  show ?thesis
  proof (cases "i < length (participants s)")
    case False
    then show ?thesis using s' g e by (intro own [where g = "Swapping e" and h = "False"]) (auto simp: advance_look_def advance_fits_def)
  next
    case i: True
    show ?thesis
    proof (cases "state (part s i) mod 2 = 1 \<and> state (part s i) div 2 \<noteq> e")
      case True
      then show ?thesis using s' g i by (intro own [where g = "Collecting" and h = "False"]) (auto simp: advance_look_def)
    next
      case False
      have "e \<le> since (part s i)" if "is_pinned (part s i)"
        using ok_parts(1) [OF ok i] False that by (auto simp: pin_fits_def is_pinned_def)
      then have "advance_fits s (Looking e (i + 1))"
        using e by (auto simp: advance_fits_def less_Suc_eq)
      then show ?thesis using s' g i False by (intro own [where g = "Looking e (i + 1)" and h = "held_list s"]) (auto simp: advance_look_def set_part_def)
    qed
  qed
qed


lemma items_sum: "p \<in> set ps \<Longrightarrow> (e, x) \<in> set (items p) \<Longrightarrow> x \<in># (\<Sum>p\<leftarrow>ps. mset (map snd (items p)))"
  by (induction ps) (auto simp: image_iff; force)+

lemma items_known:
  assumes "epochs_ok s" "p \<in> set (participants s)" "(e, x) \<in> set (items p)"
  shows "x \<in> set (retired s)" "x \<notin> set (freed s)"
proof -
  let ?m = "\<Sum>p\<leftarrow>participants s. mset (map snd (items p))"
  have i: "x \<in># ?m" by (rule items_sum [OF assms(2,3)])
  have m: "mset (retired s) = mset (freed s) + ?m" "distinct (retired s)" using assms(1) by (auto simp: epochs_ok_def)
  then show r: "x \<in> set (retired s)" using i by (metis in_multiset_in_set union_iff)
  have "count (mset (retired s)) x = 1" using r m(2) by (simp add: distinct_count_atmost_1)
  moreover have "count ?m x \<ge> 1" using i by (simp add: Suc_le_eq)
  ultimately have "count (mset (freed s)) x = 0" unfolding m(1) count_union by linarith
  then show "x \<notin> set (freed s)" by (simp add: count_eq_zero_iff)
qed

lemma retire_load_ok:
  assumes ok: "epochs_ok s" and t: "t < length (participants s)" and s': "retire_load x t s = Some s'"
  shows "epochs_ok s'"
proof -
  let ?p = "(part s t)\<lparr>stage := Retiring x (epoch s)\<rparr>"
  have x: "x \<notin> set (retired s)" "stage (part s t) = Pinned"
    and e: "s' = set_part t ?p s\<lparr>retired := x # retired s, guards := guards s \<union> Pair x ` pinned_threads s\<rparr>"
    using s' by (auto simp: retire_load_def Let_def split: stage.splits if_splits)
  have p: "is_pinned ?p = is_pinned (part s t)" "since ?p = since (part s t)" by (simp_all add: is_pinned_def)
  have its: "items ?p = (epoch s, x) # items (part s t)" by (simp add: items_def x)
  have same: "is_pinned (part s' u) = is_pinned (part s u)" "since (part s' u) = since (part s u)" if "u < length (participants s)" for u
    using t p that by (cases "u = t"; simp add: e)+
  have sel: "length (participants s') = length (participants s)" "epoch s' = epoch s" by (simp_all add: e)
  have adv: "advance_fits s' g" if "advance_fits s g" for g
    using that by (rule advance_mono) (auto simp: same sel)
  have "pin_fits (epoch s') p \<and> advance_fits s' (stage p)" if "p \<in> set (participants s')" for p
  proof -
    have "pin_fits (epoch s) ?p" "advance_fits s (stage ?p)"
      using ok_parts [OF ok t] x(2) by (auto simp: fits_defs)
    then show ?thesis using that ok adv by (auto simp: e epochs_ok_def dest!: update_members)
  qed
  moreover have "guard_fits s' g" if m: "g \<in> guards s'" for g
  proof (cases "g \<in> guards s")
    case True
    then have g: "guard_fits s g" using ok by (simp add: epochs_ok_def)
    then have l: "snd g < length (participants s)" "is_pinned (part s (snd g))" "fst g \<noteq> x"
      using x(1) by (auto simp: guard_fits_def split: prod.splits)
    show ?thesis
    proof (rule guard_mono [OF g])
      fix p e' assume "p \<in> set (participants s')" "(e', fst g) \<in> set (items p)"
      then show "\<exists>q\<in>set (participants s). (e', fst g) \<in> set (items q)"
        using its l(3) t unfolding e by (auto dest!: update_members)
    qed (use l same e in auto)
  next
    case False
    then obtain u where u: "g = (x, u)" "u < length (participants s)" "is_pinned (part s u)"
      using m by (auto simp: e pinned_threads_def)
    have f: "x \<notin> set (freed s)"
    proof
      assume "x \<in> set (freed s)"
      then have "x \<in># mset (retired s)" using ok by (simp add: epochs_ok_def)
      then show False using x(1) by simp
    qed
    have "since (part s u) \<le> e'" if "p \<in> set (participants s')" "(e', x) \<in> set (items p)" for p e'
    proof -
      have "(e', x) \<notin> set (items q)" if "q \<in> set (participants s)" for q using items_known(1) [OF ok that] x(1) by blast
      then have "e' = epoch s" using that its t unfolding e by (auto dest!: update_members)
      then show ?thesis using ok_parts(1) [OF ok u(2)] u(3) by (simp add: pin_fits_def)
    qed
    then show ?thesis using u same f by (auto simp: guard_fits_def e)
  qed
  moreover have "mset (retired s') = mset (freed s') + (\<Sum>p\<leftarrow>participants s'. mset (map snd (items p)))"
    using ok items_update [OF t, of ?p] by (simp add: e its epochs_ok_def)
  ultimately show ?thesis using ok x(1) by (simp add: e epochs_ok_def)
qed

lemma advance_swap_ok:
  assumes ok: "epochs_ok s" and t: "t < length (participants s)" and s': "advance_swap t s = Some s'"
  shows "epochs_ok s'"
proof -
  obtain e where g: "stage (part s t) = Swapping e" using s' by (auto simp: advance_swap_def Let_def split: stage.splits)
  let ?p = "(part s t)\<lparr>stage := Collecting\<rparr>"
  define s1 where "s1 = set_part t ?p s"
  have ok1: "epochs_ok s1"
    using ok_parts [OF ok t] by (intro own_step [OF ok t, of s1 ?p]) (auto simp: s1_def g fits_defs)
  have e: "s' = s1\<lparr>epoch := if epoch s = e then e + 1 else epoch s\<rparr>" using s' g by (simp add: advance_swap_def s1_def)
  show ?thesis
  proof (cases "epoch s = e")
    case False
    then have "s' = s1" by (simp add: e s1_def)
    then show ?thesis using ok1 by simp
  next
    case True
    have late: "e \<le> since (part s1 u)" if "u < length (participants s1)" "is_pinned (part s1 u)" for u
      using ok_parts(2) [OF ok t] that by (cases "u = t") (auto simp: g advance_fits_def s1_def is_pinned_def)
    have "pin_fits (epoch s') p \<and> advance_fits s' (stage p)" if m: "p \<in> set (participants s')" for p
    proof -
      obtain u where u: "u < length (participants s1)" "p = part s1 u" using m by (auto simp: e in_set_conv_nth)
      have f: "pin_fits (epoch s1) p" "advance_fits s1 (stage p)" using ok_parts [OF ok1 u(1)] by (simp_all add: u)
      have "advance_fits s' (stage p)" using f(2) by (rule advance_mono) (auto simp: e True s1_def)
      then show ?thesis using f(1) late [OF u(1)] by (auto simp: u e s1_def True pin_fits_def split: stage.splits)
    qed
    moreover have "guard_fits s' g" if "g \<in> guards s'" for g
      using that ok1 by (auto simp: e epochs_ok_def guard_fits_def)
    ultimately show ?thesis using ok1 by (simp add: e epochs_ok_def)
  qed
qed

lemma register_ok: "epochs_ok s \<Longrightarrow> register s = Some s' \<Longrightarrow> epochs_ok s'"
proof -
  assume ok: "epochs_ok s" and r: "register s = Some s'"
  have e: "s' = s\<lparr>participants := participants s @ [new_participant]\<rparr>" using r by (simp add: register_def split: if_splits)
  have n: "\<not> is_pinned new_participant" "items new_participant = []" "stage new_participant = Outside"
    by (simp_all add: new_participant_def is_pinned_def items_def)
  have adv: "advance_fits s' g" if "advance_fits s g" for g
    using that by (rule advance_mono) (auto simp: e nth_append n split: if_splits)
  have "pin_fits (epoch s') p \<and> advance_fits s' (stage p)" if "p \<in> set (participants s')" for p
    using that ok adv by (auto simp: e epochs_ok_def fits_defs new_participant_def)
  moreover have "guard_fits s' g" if "g \<in> guards s'" for g
    using that ok by (fastforce simp: e epochs_ok_def guard_fits_def nth_append n)
  ultimately show ?thesis using ok by (simp add: e epochs_ok_def n)
qed


lemma collect_free_ok:
  assumes ok: "epochs_ok s" and t: "t < length (participants s)" and s': "collect_free t s = Some s'"
  shows "epochs_ok s'"
proof -
  have g: "stage (part s t) = Collecting" using s' by (auto simp: collect_free_def Let_def split: stage.splits)
  define q where "q = (part s t)\<lparr>stage := Outside\<rparr>"
  define s1 where "s1 = set_part t q s"
  have ok1: "epochs_ok s1" using ok_parts [OF ok t] by (intro own_step [OF ok t, of s1 q]) (auto simp: s1_def q_def g fits_defs)
  have t1: "t < length (participants s1)" and p1: "part s1 t = q" and i1: "items q = garbage q" using t by (simp_all add: s1_def items_def q_def)
  define out where "out = filter (\<lambda>(e, x). e + 2 \<le> epoch s) (garbage q)"
  define keep where "keep = filter (\<lambda>(e, x). \<not> e + 2 \<le> epoch s) (garbage q)"
  let ?p = "q\<lparr>garbage := keep\<rparr>"
  have e: "s' = set_part t ?p s1\<lparr>freed := freed s @ map snd out\<rparr>"
    using s' g by (auto simp: collect_free_def Let_def ready_def s1_def q_def out_def keep_def set_part_def comp_def prod.case_distrib split_def)
  have ip: "items ?p = keep" by (simp add: items_def q_def)
  have same: "is_pinned (part s' u) = is_pinned (part s1 u)" "since (part s' u) = since (part s1 u)" if "u < length (participants s1)" for u
    using p1 that t1 by (cases "u = t"; simp add: e is_pinned_def)+
  have sel: "length (participants s') = length (participants s1)" "epoch s' = epoch s1" "retired s' = retired s1" "guards s' = guards s1"
    by (simp_all add: e)
  have adv: "advance_fits s' g" if "advance_fits s1 g" for g
    using that by (rule advance_mono) (auto simp: same sel)
  have "pin_fits (epoch s') p \<and> advance_fits s' (stage p)" if m: "p \<in> set (participants s')" for p
  proof -
    have "p = ?p \<or> p \<in> set (participants s1)" using m by (auto simp: e dest!: update_members)
    moreover have "pin_fits (epoch s1) ?p" "advance_fits s1 (stage ?p)"
      using ok_parts [OF ok1 t1] unfolding p1 by (auto simp: fits_defs q_def)
    ultimately show ?thesis using ok1 adv unfolding sel epochs_ok_def by blast
  qed
  moreover have "guard_fits s' g" if m: "g \<in> guards s'" for g
  proof -
    obtain x u where gx: "g = (x, u)" by fastforce
    have gf: "guard_fits s1 (x, u)" using m ok1 by (auto simp: sel gx epochs_ok_def)
    then have u: "u < length (participants s1)" "is_pinned (part s1 u)"
      and late: "\<And>p e. p \<in> set (participants s1) \<Longrightarrow> (e, x) \<in> set (items p) \<Longrightarrow> since (part s1 u) \<le> e"
      by (fastforce simp: guard_fits_def)+
    have now: "epoch s \<le> since (part s1 u) + 1" using ok_parts(1) [OF ok1 u(1)] u(2) by (simp add: pin_fits_def s1_def)
    have mem: "q \<in> set (participants s1)" using nth_mem [OF t1] by (simp add: p1)
    have "x \<notin> snd ` set out"
    proof
      assume "x \<in> snd ` set out"
      then obtain e where "(e, x) \<in> set (garbage q)" "e + 2 \<le> epoch s" by (auto simp: out_def)
      then show False using late [OF mem, of e] now i1 by simp
    qed
    moreover have "since (part s1 u) \<le> e'" if "p \<in> set (participants s')" "(e', x) \<in> set (items p)" for p e'
    proof -
      have "p = ?p \<or> p \<in> set (participants s1)" using that(1) by (auto simp: e dest!: update_members)
      moreover have "set (items ?p) \<subseteq> set (items q)" by (simp only: ip i1) (auto simp: keep_def)
      ultimately show ?thesis using that(2) late [of p e'] late [OF mem] by blast
    qed
    ultimately show ?thesis using gf same [OF u(1)] by (auto simp: guard_fits_def gx sel) (auto simp: e s1_def)
  qed
  moreover have "mset (retired s') = mset (freed s') + (\<Sum>p\<leftarrow>participants s'. mset (map snd (items p)))"
  proof -
    have "mset (garbage q) = mset out + mset keep" unfolding out_def keep_def split_def by (simp only: mset_filter multiset_partition [symmetric])
    then have "mset (map snd (items q)) = mset (map snd out) + mset (map snd keep)" by (simp add: i1 flip: image_mset_union)
    moreover have "(\<Sum>p\<leftarrow>participants s'. mset (map snd (items p))) + mset (map snd (items q)) =
        (\<Sum>p\<leftarrow>participants s1. mset (map snd (items p))) + mset (map snd keep)"
      using items_update [OF t1, of ?p] by (simp add: p1 e ip)
    ultimately show ?thesis using ok1 by (simp add: e epochs_ok_def s1_def ac_simps)
  qed
  ultimately show ?thesis using ok1 by (simp add: sel epochs_ok_def)
qed

lemma act_ok: "epochs_ok s \<Longrightarrow> act a t s = Some s' \<Longrightarrow> epochs_ok s'"
  by (cases a) (auto split: if_splits intro: register_ok pin_load_ok pin_store_ok pin_again_ok retire_load_ok retire_push_ok
      unpin_ok collect_begin_ok advance_lock_ok advance_look_ok advance_swap_ok collect_free_ok)

lemma acts_ok: "epochs_ok s \<Longrightarrow> acts as s = Some s' \<Longrightarrow> epochs_ok s'"
proof (induction as arbitrary: s)
  case (Cons b as)
  then show ?case using act_ok [of s "fst b" "snd b"] by (cases b) (auto split: option.splits)
qed simp

lemma new_epochs_ok: "epochs_ok new_epochs"
  by (simp add: epochs_ok_def new_epochs_def)


subsection \<open>What is retired stays while it can be seen\<close>

lemma acts_append: "acts (as @ bs) s = (case acts as s of None \<Rightarrow> None | Some s' \<Rightarrow> acts bs s')"
  by (induction as arbitrary: s) (auto split: option.splits)

lemma guards_stay:
  assumes "act a u s = Some s'" "(x, t) \<in> guards s" "(a, u) \<noteq> (Unpin, t)"
  shows "(x, t) \<in> guards s'"
  using assms by (cases a) (auto simp: act_defs Let_def split: if_splits stage.splits prod.splits)

lemma guards_along: "acts bs s = Some s' \<Longrightarrow> (x, t) \<in> guards s \<Longrightarrow> (Unpin, t) \<notin> set bs \<Longrightarrow> (x, t) \<in> guards s'"
proof (induction bs arbitrary: s)
  case (Cons b bs)
  then show ?case using guards_stay [of "fst b" "snd b" s] by (cases b) (auto split: option.splits)
qed simp

text \<open>C18: What a thread retires is not freed while a thread that was pinned at that moment stays pinned, whatever the
  threads do meanwhile: pin, retire, advance the epoch and collect, in any order of their steps.\<close>

theorem retired_is_kept_for_the_pinned:
  assumes "acts as new_epochs = Some s0" "t < length (participants s0)" "is_pinned (part s0 t)"
    and "acts ((RetireLoad x, u) # bs) s0 = Some s" "(Unpin, t) \<notin> set bs"
  shows "x \<in> set (retired s) \<and> x \<notin> set (freed s) \<and> is_pinned (part s t)"
proof -
  have ok0: "epochs_ok s0" using assms(1) new_epochs_ok by (rule acts_ok [rotated])
  obtain s1 where s1: "act (RetireLoad x) u s0 = Some s1" "acts bs s1 = Some s" using assms(4) by (auto split: option.splits)
  have "(x, t) \<in> guards s1"
    using s1(1) assms(2,3) by (auto simp: retire_load_def pinned_threads_def Let_def split: if_splits stage.splits)
  then have "(x, t) \<in> guards s" by (rule guards_along [OF s1(2) _ assms(5)])
  moreover have "epochs_ok s" by (rule acts_ok [OF act_ok [OF ok0 s1(1)] s1(2)])
  ultimately show ?thesis by (auto simp: epochs_ok_def guard_fits_def)
qed

text \<open>C19: Nothing is freed twice and nothing is lost: what was retired is what was freed and what is still kept, and at
  the end of the program, with no thread in the middle of retiring, all of it has been freed, once.\<close>

theorem everything_retired_is_freed_once:
  assumes "acts as new_epochs = Some s" "\<forall>p\<in>set (participants s). on_the_way (stage p) = []"
  shows "distinct (freed (flush s)) \<and> set (freed (flush s)) = set (retired s) \<and> set (freed s) \<subseteq> set (retired s)"
proof -
  have ok: "epochs_ok s" using assms(1) new_epochs_ok by (rule acts_ok [rotated])
  have "mset (concat (map (\<lambda>p. map snd (fst (ready True (epoch s) (garbage p)))) ps)) = (\<Sum>p\<leftarrow>ps. mset (map snd (items p)))"
    if "\<forall>p\<in>set ps. on_the_way (stage p) = []" for ps
    using that by (induction ps) (auto simp: items_def ready_def split_def partition_filter1)
  then have m: "mset (freed (flush s)) = mset (retired s)"
    using ok assms(2) by (simp add: flush_def epochs_ok_def)
  then have "distinct (freed (flush s))" using ok mset_eq_imp_distinct_iff [OF m] by (simp add: epochs_ok_def)
  moreover have "set (freed (flush s)) = set (retired s)" using m by (metis set_mset_mset)
  ultimately show ?thesis by (auto simp: flush_def)
qed


text \<open>One pin of a thread with 64 things retired, up to its collection; the collection of a thread, with the participants
  it looks at; and a run in which thread 0 is pinned throughout while thread 1 retires and collects.\<close>

definition pin_acts :: "nat \<Rightarrow> ('g action \<times> nat) list" where
  "pin_acts t = [(PinLoad, t), (PinStore, t)]"

definition collect_acts :: "nat \<Rightarrow> nat \<Rightarrow> ('g action \<times> nat) list" where
  "collect_acts n t = [(CollectBegin, t), (AdvanceLock, t)] @ replicate (n + 1) (AdvanceLook, t) @ [(AdvanceSwap, t), (CollectFree, t)]"

definition retire_acts :: "nat \<Rightarrow> 'g list \<Rightarrow> ('g action \<times> nat) list" where
  "retire_acts t xs = concat (map (\<lambda>x. [(RetireLoad x, t), (RetirePush, t)]) xs)"

definition two_threads :: "(nat action \<times> nat) list" where
  "two_threads = [(Register, 0), (Register, 1)]"

definition busy_run :: "(nat action \<times> nat) list" where
  "busy_run = retire_acts 1 [1..<64] @ [(Unpin, 1)] @ collect_acts 2 1 @ pin_acts 1 @ [(Unpin, 1)] @ [(CollectBegin, 1), (AdvanceLock, 1), (AdvanceLook, 1), (CollectFree, 1)]"


lemma retire_run: 
  assumes "t < length (participants s)" "stage (part s t) = Pinned" "distinct xs" "set xs \<inter> set (retired s) = {}"
  shows "acts (retire_acts t xs) s = Some (set_part t ((part s t)\<lparr>garbage := garbage (part s t) @ map (Pair (epoch s)) xs\<rparr>) s
    \<lparr>retired := rev xs @ retired s, guards := guards s \<union> set xs \<times> pinned_threads s\<rparr>)"
  using assms
proof (induction xs arbitrary: s)
  case Nil
  then show ?case by (simp add: retire_acts_def set_part_def)
next
  case (Cons x xs)
  define s1 where "s1 = set_part t ((part s t)\<lparr>garbage := garbage (part s t) @ [(epoch s, x)]\<rparr>) s
    \<lparr>retired := x # retired s, guards := guards s \<union> Pair x ` pinned_threads s\<rparr>"
  have "is_pinned ((participants s)[t := (part s t)\<lparr>garbage := g\<rparr>] ! u) = is_pinned (part s u)" for u g
    by (cases "u = t"; cases "t < length (participants s)") (simp_all add: is_pinned_def list_update_beyond)
  then have p: "pinned_threads s1 = pinned_threads s" by (simp add: pinned_threads_def s1_def)
  have 1: "acts [(RetireLoad x, t), (RetirePush, t)] s = Some s1"
    using Cons.prems by (cases s; cases "part s t") (simp add: retire_load_def retire_push_def s1_def set_part_def)
  have 2: "acts (retire_acts t xs) s1 = Some (set_part t ((part s1 t)\<lparr>garbage := garbage (part s1 t) @ map (Pair (epoch s1)) xs\<rparr>) s1
    \<lparr>retired := rev xs @ retired s1, guards := guards s1 \<union> set xs \<times> pinned_threads s1\<rparr>)"
    using Cons.prems by (intro Cons.IH) (auto simp: s1_def)
  have a: "retire_acts t (x # xs) = [(RetireLoad x, t), (RetirePush, t)] @ retire_acts t xs" by (simp add: retire_acts_def)
  show ?case unfolding a acts_append 1 option.case 2 p using Cons.prems(1)
    by (cases s) (auto simp: s1_def set_part_def)
qed

lemma looking_run:
  assumes "t < length (participants s)" "stage (part s t) = Looking e i" "i + k = length (participants s)"
    and "\<forall>u<length (participants s). is_pinned (part s u) \<longrightarrow> state (part s u) div 2 = e"
  shows "acts (replicate (k + 1) (AdvanceLook, t)) s = Some (set_part t ((part s t)\<lparr>stage := Swapping e\<rparr>) s\<lparr>held_list := False\<rparr>)"
  using assms
proof (induction k arbitrary: s i)
  case 0
  then show ?case by (simp add: advance_look_def)
next
  case (Suc k)
  define s1 where "s1 = set_part t ((part s t)\<lparr>stage := Looking e (i + 1)\<rparr>) s"
  have "i < length (participants s)" using Suc.prems(3) by simp
  then have "act AdvanceLook t s = Some s1"
    using Suc.prems(1,2,4) by (auto simp: advance_look_def s1_def is_pinned_def)
  moreover have "acts (replicate (k + 1) (AdvanceLook, t)) s1 = Some (set_part t ((part s1 t)\<lparr>stage := Swapping e\<rparr>) s1\<lparr>held_list := False\<rparr>)"
  proof (rule Suc.IH)
    show "\<forall>u<length (participants s1). is_pinned (part s1 u) \<longrightarrow> state (part s1 u) div 2 = e"
      using Suc.prems(1,4) by (auto simp: s1_def is_pinned_def nth_list_update)
  qed (use Suc.prems in \<open>auto simp: s1_def\<close>)
  ultimately show ?case using Suc.prems(1) by (simp add: s1_def set_part_def)
qed

text \<open>A collection with enough to free, while the threads that are pinned are at the current epoch.\<close>

lemma collect_run:
  assumes "t < length (participants s)" "stage (part s t) = Leaving" "GARBAGE \<le> length (garbage (part s t))" "\<not> held_list s"
    and "\<forall>u<length (participants s). is_pinned (part s u) \<longrightarrow> state (part s u) div 2 = epoch s"
  shows "acts (collect_acts (length (participants s)) t) s = Some (set_part t
      ((part s t)\<lparr>stage := Outside, garbage := filter (\<lambda>(e, x). epoch s \<le> e) (garbage (part s t))\<rparr>) s
    \<lparr>epoch := epoch s + 1, freed := freed s @ map snd (filter (\<lambda>(e, x). e < epoch s) (garbage (part s t)))\<rparr>)"
proof -
  define s1 where "s1 = set_part t ((part s t)\<lparr>stage := Looking (epoch s) 0\<rparr>) s\<lparr>held_list := True\<rparr>"
  have 1: "acts [(CollectBegin, t), (AdvanceLock, t)] s = Some s1"
    using assms(1-4) by (simp add: collect_begin_def advance_lock_def s1_def set_part_def)
  have 2: "acts (replicate (length (participants s) + 1) (AdvanceLook, t)) s1 = Some (set_part t ((part s1 t)\<lparr>stage := Swapping (epoch s)\<rparr>) s1\<lparr>held_list := False\<rparr>)"
  proof (rule looking_run)
    show "\<forall>u<length (participants s1). is_pinned (part s1 u) \<longrightarrow> state (part s1 u) div 2 = epoch s"
      using assms(1,5) by (auto simp: s1_def is_pinned_def nth_list_update)
  qed (use assms(1) in \<open>auto simp: s1_def\<close>)
  show ?thesis unfolding collect_acts_def acts_append 1 option.case 2
    using assms(1,4) by (cases s) (simp add: advance_swap_def collect_free_def ready_def s1_def set_part_def split_def comp_def not_less Suc_le_eq)
qed

text \<open>C23: The reclamation makes progress: a collection that finds enough to free, while every thread that is pinned has
  seen the current epoch, advances it and frees all that was retired in the epochs before.\<close>

theorem collections_make_progress:
  assumes "t < length (participants s)" "stage (part s t) = Leaving" "GARBAGE \<le> length (garbage (part s t))" "\<not> held_list s"
    and "\<forall>u<length (participants s). is_pinned (part s u) \<longrightarrow> state (part s u) div 2 = epoch s"
  shows "\<exists>s'. acts (collect_acts (length (participants s)) t) s = Some s' \<and> epoch s' = epoch s + 1 \<and> stage (part s' t) = Outside \<and>
    (\<forall>(e, x)\<in>set (garbage (part s t)). e < epoch s \<longrightarrow> x \<in> set (freed s'))"
  using collect_run [OF assms] assms(1) by force

lemma pinned_threads_code: "pinned_threads s = set (filter (\<lambda>t. is_pinned (part s t)) [0..<length (participants s)])"
  by (auto simp: pinned_threads_def)

lemmas run_simps = acts_append two_threads_def pin_acts_def act_defs Let_def new_epochs_def new_participant_def
  set_part_def GARBAGE_def is_pinned_def pinned_threads_code

text \<open>Two threads are pinned in the first epoch; thread 1 retires 64 things, unpins and collects, and the epoch advances:
  what it retired is kept for thread 0.\<close>

definition kept_acts :: "(nat action \<times> nat) list" where
  "kept_acts = (RetirePush, 1) # retire_acts 1 [1..<64] @ (Unpin, 1) # collect_acts 2 1"

definition both_pinned :: "nat epochs" where
  "both_pinned = the (acts (two_threads @ pin_acts 0 @ pin_acts 1) new_epochs)"

lemma kept_run: "\<exists>s. acts ((RetireLoad 0, 1) # kept_acts) both_pinned = Some s \<and> epoch s = 1"
  by (simp add: both_pinned_def kept_acts_def run_simps retire_run [simplified One_nat_def] collect_acts_def numeral_3_eq_3 ready_def split_def comp_def)

lemma both_pinned: "acts (two_threads @ pin_acts 0 @ pin_acts 1) new_epochs = Some both_pinned"
  "0 < length (participants both_pinned)" "is_pinned (part both_pinned 0)"
  by (simp_all add: both_pinned_def run_simps)

theorem retired_is_kept_for_the_pinned_witness:
  "\<exists>s. acts ((RetireLoad 0, 1) # kept_acts) both_pinned = Some s \<and> epoch s = 1 \<and> 0 \<notin> set (freed s)"
proof -
  obtain s where s: "acts ((RetireLoad 0, 1) # kept_acts) both_pinned = Some s" "epoch s = 1" using kept_run by blast
  have "(Unpin, 0) \<notin> set kept_acts" by (auto simp: kept_acts_def retire_acts_def collect_acts_def)
  then show ?thesis using retired_is_kept_for_the_pinned [OF both_pinned s(1)] s by blast
qed

lemma replicate_4: "replicate 4 x = [x, x, x, x]" by (simp add: eval_nat_numeral)

text \<open>What a thread has retired is kept only for those pinned when the epoch was loaded: were the load to come before
  the thread takes the object out of its collection, a thread that pins in between and still finds the object there
  could be pinned while it is freed.\<close>

definition early_load :: "(nat action \<times> nat) list" where
  "early_load = two_threads @ (Register, 2) # pin_acts 2 @ retire_acts 2 [1..<65] @ pin_acts 1 @
     (RetireLoad 0, 1) # (Unpin, 2) # collect_acts 3 2"

definition late_pin :: "(nat action \<times> nat) list" where
  "late_pin = pin_acts 0 @ (RetirePush, 1) # retire_acts 1 [65..<128] @ (Unpin, 1) # collect_acts 3 1"

lemma pins_after_the_load_do_not_guard:
  "\<exists>s. acts (early_load @ late_pin) new_epochs = Some s \<and> is_pinned (part s 0) \<and> 0 \<in> set (freed s)"
  by (simp add: early_load_def late_pin_def run_simps retire_run [simplified One_nat_def] collect_acts_def replicate_4 ready_def split_def comp_def)


definition one_retired :: "(nat action \<times> nat) list" where
  "one_retired = (Register, 0) # pin_acts 0 @ retire_acts 0 [7, 8] @ [(Unpin, 0), (CollectBegin, 0)]"

lemma one_retired: "\<exists>s. acts one_retired new_epochs = Some s \<and> retired s = [8, 7] \<and> (\<forall>p\<in>set (participants s). on_the_way (stage p) = [])"
  by (simp add: one_retired_def retire_acts_def run_simps)

theorem everything_retired_is_freed_once_witness:
  "\<exists>s. acts one_retired new_epochs = Some s \<and> distinct (freed (flush s)) \<and> set (freed (flush s)) = {7, 8}"
proof -
  obtain s where s: "acts one_retired new_epochs = Some s" "retired s = [8, 7]" "\<forall>p\<in>set (participants s). on_the_way (stage p) = []"
    using one_retired by blast
  have "set (retired s) = {7, 8}" using s(2) by auto
  then show ?thesis using everything_retired_is_freed_once [OF s(1,3)] s(1) by auto
qed

definition enough_garbage :: "nat epochs" where
  "enough_garbage = \<lparr>epoch = 1, participants = [\<lparr>state = 0, garbage = map (Pair 0) [0..<64], depth = 0, stage = Leaving, since = 0\<rparr>],
     held_list = False, retired = [0..<64], freed = [], guards = {}\<rparr>"

theorem collections_make_progress_witness:
  "\<exists>s. acts (collect_acts 1 0) enough_garbage = Some s \<and> epoch s = 2 \<and> (\<forall>x<64. x \<in> set (freed s))"
proof -
  have a: "0 < length (participants enough_garbage)" "stage (part enough_garbage 0) = Leaving" "GARBAGE \<le> length (garbage (part enough_garbage 0))"
    "\<not> held_list enough_garbage" "\<forall>u<length (participants enough_garbage). is_pinned (part enough_garbage u) \<longrightarrow> state (part enough_garbage u) div 2 = epoch enough_garbage"
    by (simp_all add: enough_garbage_def GARBAGE_def is_pinned_def)
  have "length (participants enough_garbage) = 1" "epoch enough_garbage = 1" "garbage (part enough_garbage 0) = map (Pair 0) [0..<64]"
    by (simp_all add: enough_garbage_def)
  then show ?thesis using collections_make_progress [OF a] by (fastforce simp del: upt_rec_numeral)
qed

subsection \<open>A collection that is reclaimed\<close>

text \<open>The steps of the threads in a collection, interleaved with those of the reclamation: a collection is used only by a
  thread that is pinned, which does not drop its last pin in the middle of an operation, and a step of the collection may
  retire an object, whose epoch is loaded with it. \<open>Elsewhere\<close> stands for what other collections retire.\<close>

datatype ('a, 'g) joint_action = Reclaim "('g + nat) action" | Client 'a | Elsewhere nat

fun in_pin :: "'g stage \<Rightarrow> bool" where
  "in_pin Pinned = True"
| "in_pin _ = False"

fun joint_act :: "('a \<Rightarrow> nat \<Rightarrow> 'c \<Rightarrow> ('g option \<times> 'c) option) \<Rightarrow> ('c \<Rightarrow> nat \<Rightarrow> bool) \<Rightarrow>
    ('a, 'g) joint_action \<Rightarrow> nat \<Rightarrow> 'c \<times> ('g + nat) epochs \<Rightarrow> ('c \<times> ('g + nat) epochs) option" where
  "joint_act step busy (Reclaim a) t (c, s) =
     (case a of
        RetireLoad x \<Rightarrow> None
      | Unpin \<Rightarrow> if depth (part s t) \<le> 1 \<and> busy c t then None else map_option (Pair c) (act a t s)
      | _ \<Rightarrow> map_option (Pair c) (act a t s))"
| "joint_act step busy (Elsewhere k) t (c, s) = (if busy c t then None else map_option (Pair c) (act (RetireLoad (Inr k)) t s))"
| "joint_act step busy (Client a) t (c, s) =
     (if t < length (participants s) \<and> in_pin (stage (part s t)) then
        (case step a t c of
           None \<Rightarrow> None
         | Some (None, c') \<Rightarrow> Some (c', s)
         | Some (Some x, c') \<Rightarrow> map_option (Pair c') (act (RetireLoad (Inl x)) t s))
      else None)"

fun joint_acts :: "('a \<Rightarrow> nat \<Rightarrow> 'c \<Rightarrow> ('g option \<times> 'c) option) \<Rightarrow> ('c \<Rightarrow> nat \<Rightarrow> bool) \<Rightarrow>
    (('a, 'g) joint_action \<times> nat) list \<Rightarrow> 'c \<times> ('g + nat) epochs \<Rightarrow> ('c \<times> ('g + nat) epochs) option" where
  "joint_acts step busy [] cs = Some cs"
| "joint_acts step busy ((a, t) # as) cs = (case joint_act step busy a t cs of None \<Rightarrow> None | Some cs' \<Rightarrow> joint_acts step busy as cs')"

lemma in_pin_pinned:
  assumes "epochs_ok s" "t < length (participants s)" "in_pin (stage (part s t))"
  shows "is_pinned (part s t)"
  using ok_parts(1) [OF assms(1,2)] assms(3) by (cases "stage (part s t)") (auto simp: pin_fits_def)

lemma retire_effect:
  assumes "act (RetireLoad y) t s = Some s'"
  shows "set (retired s') = insert y (set (retired s)) \<and> length (participants s') = length (participants s) \<and>
    (\<forall>u<length (participants s). is_pinned (part s u) \<longrightarrow> is_pinned (part s' u) \<and> (y, u) \<in> guards s') \<and> guards s \<subseteq> guards s'"
  using assms by (auto simp: retire_load_def Let_def pinned_threads_def is_pinned_def nth_list_update split: if_splits stage.splits)

lemma other_effect:
  assumes "act a u s = Some s'" "\<And>x. a \<noteq> RetireLoad x" "epochs_ok s" "t < length (participants s)" "is_pinned (part s t)"
    and "a = Unpin \<Longrightarrow> u = t \<Longrightarrow> 1 < depth (part s t)"
  shows "retired s' = retired s \<and> t < length (participants s') \<and> is_pinned (part s' t) \<and> ((x, t) \<in> guards s \<longrightarrow> (x, t) \<in> guards s')"
  using assms ok_parts(1) [OF assms(3,4)]
  by (cases a) (auto simp: act_defs Let_def is_pinned_def pin_fits_def nth_append nth_list_update split: if_splits stage.splits prod.splits)

lemma other_retired: "act a u s = Some s' \<Longrightarrow> (\<And>x. a \<noteq> RetireLoad x) \<Longrightarrow> retired s' = retired s"
  by (cases a) (auto simp: act_defs Let_def split: if_splits stage.splits prod.splits)

text \<open>What a collection promises of its steps: \<open>holds\<close> is what a thread may still read in the middle of an operation, and
  \<open>dead\<close> what was retired. A thread comes to hold only what is not dead, the dead stay so, and an object is retired once.\<close>

locale reclaimed =
  fixes step :: "'a \<Rightarrow> nat \<Rightarrow> 'c \<Rightarrow> ('g option \<times> 'c) option"
    and busy :: "'c \<Rightarrow> nat \<Rightarrow> bool"
    and holds :: "'c \<Rightarrow> nat \<Rightarrow> 'g set"
    and dead :: "'c \<Rightarrow> 'g set"
    and fine :: "'c \<Rightarrow> bool"
  assumes fine_step: "fine c \<Longrightarrow> step a t c = Some (r, c') \<Longrightarrow> fine c'"
    and dead_stays: "fine c \<Longrightarrow> step a t c = Some (r, c') \<Longrightarrow> dead c \<subseteq> dead c'"
    and dead_retired: "fine c \<Longrightarrow> step a t c = Some (Some x, c') \<Longrightarrow> x \<in> dead c' \<and> x \<notin> dead c"
    and held: "fine c \<Longrightarrow> step a t c = Some (r, c') \<Longrightarrow> x \<in> holds c' u \<Longrightarrow> x \<in> holds c u \<or> u = t \<and> x \<notin> dead c"
    and idle: "fine c \<Longrightarrow> \<not> busy c t \<Longrightarrow> holds c t = {}"
begin

definition joint_ok :: "'c \<times> ('g + nat) epochs \<Rightarrow> bool" where
  "joint_ok cs \<longleftrightarrow> (case cs of (c, s) \<Rightarrow> fine c \<and> epochs_ok s \<and> (\<forall>x. Inl x \<in> set (retired s) \<longrightarrow> x \<in> dead c) \<and>
     (\<forall>t x. x \<in> holds c t \<longrightarrow> t < length (participants s) \<and> is_pinned (part s t) \<and> (Inl x \<in> set (retired s) \<longrightarrow> (Inl x, t) \<in> guards s)))"

lemma joint_step:
  assumes ok: "joint_ok cs" and step: "joint_act step busy a t cs = Some cs'"
  shows "joint_ok cs'"
proof -
  obtain c s where cs: "cs = (c, s)" by fastforce
  have f: "fine c" "epochs_ok s" and dead: "\<And>x. Inl x \<in> set (retired s) \<Longrightarrow> x \<in> dead c"
    and h: "\<And>u x. x \<in> holds c u \<Longrightarrow> u < length (participants s) \<and> is_pinned (part s u) \<and> (Inl x \<in> set (retired s) \<longrightarrow> (Inl x, u) \<in> guards s)"
    using ok by (auto simp: joint_ok_def cs)
  have busy: "busy c u" if "x \<in> holds c u" for x u using that idle [OF f(1)] by blast
  show ?thesis
  proof (cases a)
    case (Reclaim b)
    then obtain s' where s': "cs' = (c, s')" "act b t s = Some s'" "\<And>x. b \<noteq> RetireLoad x"
      "b = Unpin \<Longrightarrow> busy c t \<Longrightarrow> 1 < depth (part s t)"
      using step by (auto simp: cs split: action.splits if_splits)
    have "retired s' = retired s" by (rule other_retired [OF s'(2,3)])
    moreover have "u < length (participants s') \<and> is_pinned (part s' u) \<and> (Inl x \<in> set (retired s) \<longrightarrow> (Inl x, u) \<in> guards s')"
      if "x \<in> holds c u" for x u
      using other_effect [OF s'(2,3) f(2), of u "Inl x"] h [OF that] s'(4) busy [OF that] by blast
    ultimately show ?thesis using f dead act_ok [OF f(2) s'(2)] by (simp add: joint_ok_def s'(1))
  next
    case (Elsewhere k)
    then obtain s' where s': "cs' = (c, s')" "act (RetireLoad (Inr k)) t s = Some s'" using step by (auto simp: cs split: if_splits)
    show ?thesis using f dead h act_ok [OF f(2) s'(2)] retire_effect [OF s'(2)] unfolding s'(1) joint_ok_def by (auto simp: subset_iff)
  next
    case (Client b)
    have t: "t < length (participants s)" "is_pinned (part s t)"
      using step in_pin_pinned [OF f(2)] by (auto simp: Client cs split: if_splits)
    obtain r c' where r: "step b t c = Some (r, c')" and c': "case r of None \<Rightarrow> cs' = (c', s) | Some x \<Rightarrow> \<exists>s'. act (RetireLoad (Inl x)) t s = Some s' \<and> cs' = (c', s')"
      using step by (auto simp: Client cs simp del: act.simps split: option.splits if_splits)
    have h': "u < length (participants s) \<and> is_pinned (part s u) \<and> (Inl x \<in> set (retired s) \<longrightarrow> (Inl x, u) \<in> guards s)"
      if "x \<in> holds c' u" for x u
      using held [OF f(1) r that] h t dead by blast
    have d: "x \<in> dead c'" if "Inl x \<in> set (retired s)" for x using dead [OF that] dead_stays [OF f(1) r] by blast
    show ?thesis
    proof (cases r)
      case None
      then show ?thesis using c' f h' d fine_step [OF f(1) r] by (simp add: joint_ok_def)
    next
      case (Some x)
      then obtain s' where s': "act (RetireLoad (Inl x)) t s = Some s'" "cs' = (c', s')" using c' by auto
      have "x \<in> dead c'" using dead_retired [OF f(1) r [unfolded Some]] by simp
      then show ?thesis using f h' d fine_step [OF f(1) r] act_ok [OF f(2) s'(1)] retire_effect [OF s'(1)]
        unfolding s'(2) joint_ok_def by (auto simp: subset_iff)
    qed
  qed
qed

lemma joint_run: "joint_ok cs \<Longrightarrow> joint_acts step busy as cs = Some cs' \<Longrightarrow> joint_ok cs'"
proof (induction as arbitrary: cs)
  case (Cons b as)
  then show ?case using joint_step [of cs "fst b" "snd b"] by (cases b) (auto split: option.splits)
qed simp

text \<open>What a thread holds is not freed, nor may what it holds be reused for another object.\<close>

lemma held_is_not_freed:
  assumes "fine c" "\<And>t. holds c t = {}" "joint_acts step busy as (c, new_epochs) = Some (c', s)" "x \<in> holds c' t"
  shows "Inl x \<notin> set (freed s) \<and> is_pinned (part s t)"
proof -
  have "joint_ok (c, new_epochs)" using assms(1,2) new_epochs_ok by (simp add: joint_ok_def) (simp add: new_epochs_def)
  then have ok: "joint_ok (c', s)" using assms(3) by (rule joint_run)
  have "Inl x \<notin> set (freed s)"
  proof (cases "Inl x \<in> set (retired s)")
    case True
    then have "(Inl x, t) \<in> guards s" using ok assms(4) by (auto simp: joint_ok_def)
    then show ?thesis using ok by (auto simp: joint_ok_def epochs_ok_def guard_fits_def)
  next
    case False
    have "mset (retired s) = mset (freed s) + (\<Sum>p\<leftarrow>participants s. mset (map snd (items p)))" using ok by (simp add: joint_ok_def epochs_ok_def)
    then have "set (freed s) \<subseteq> set (retired s)" by (metis mset_subset_eq_add_left set_mset_mono set_mset_mset)
    then show ?thesis using False by blast
  qed
  then show ?thesis using ok assms(4) by (auto simp: joint_ok_def)
qed

text \<open>Nothing is retired that was retired before, so no step that retires is refused to a thread within its pin.\<close>

lemma retiring_is_enabled:
  assumes "joint_ok (c, s)" "t < length (participants s)" "in_pin (stage (part s t))" "step a t c = Some (r, c')"
  shows "\<exists>s'. joint_act step busy (Client a) t (c, s) = Some (c', s')"
proof (cases r)
  case (Some x)
  then have "Inl x \<notin> set (retired s)" using assms(1,4) dead_retired [of c a t x c'] by (auto simp: joint_ok_def)
  moreover have "stage (part s t) = Pinned" using assms(3) by (cases "stage (part s t)") simp_all
  ultimately show ?thesis using assms Some by (simp add: retire_load_def Let_def)
qed (use assms in simp)

end

end
