(* ===== verification/Linearizable.thy ===== *)
theory Linearizable
  imports Prelude
begin

text \<open>
  What the models of the shared collections of \<^verbatim>\<open>crates/tondo-runtime/src/shared.rs\<close> have in common: the operations of the
  stack and the queue with their outcomes, the helper \<open>position\<close>, and a log of operations in the order in which they took
  effect, replayed on a specification.
\<close>

datatype 'v op = Push 'v | Pop | Get int | Size | Snapshot

text \<open>\<open>Nothing\<close> is a pop that finds no value, \<open>Absent\<close> a get outside the values.\<close>

datatype 'v outcome = Pushed | Nothing | Popped 'v | Absent | Got 'v | Count nat | Values "'v list"

text \<open>An index from the start, or from the end when negative.\<close>

definition position :: "int \<Rightarrow> nat \<Rightarrow> nat option" where
  "position index n = (let i = (if index < 0 then int n + index else index) in if 0 \<le> i \<and> i < int n then Some (nat i) else None)"

text \<open>Operations with their outcomes, one after the other.\<close>

fun replay :: "('op \<Rightarrow> 's \<Rightarrow> 'r \<times> 's) \<Rightarrow> (nat \<times> 'op \<times> 'r) list \<Rightarrow> 's \<Rightarrow> 's option" where
  "replay spec [] vs = Some vs"
| "replay spec ((t, op, r) # es) vs = (if fst (spec op vs) = r then replay spec es (snd (spec op vs)) else None)"

lemma replay_append: "replay spec (es @ fs) vs = (case replay spec es vs of None \<Rightarrow> None | Some ws \<Rightarrow> replay spec fs ws)"
  by (induction spec es vs rule: replay.induct) auto

text \<open>The operations of one thread.\<close>

definition own_log :: "nat \<Rightarrow> (nat \<times> 'op \<times> 'r) list \<Rightarrow> ('op \<times> 'r) list" where
  "own_log t es = map snd (filter (\<lambda>e. fst e = t) es)"

lemma own_log_append [simp]: "own_log t (es @ fs) = own_log t es @ own_log t fs"
  by (simp add: own_log_def)

lemma own_log_one [simp]: "own_log t [(u, op, r)] = (if u = t then [(op, r)] else [])" "own_log t [] = []"
  by (simp_all add: own_log_def)

end
