(* ===== verification/SharedStack.thy ===== *)
theory SharedStack
  imports Epochs Linearizable
begin

text \<open>
  The lock-free stack of \<^verbatim>\<open>std.sync\<close>, \<open>SharedStack\<close> in \<^verbatim>\<open>crates/tondo-runtime/src/shared.rs\<close>: its operations as steps of
  the threads, one for each access to what they share, in the order of a sequentially consistent memory. A node keeps its
  number for good: that a pointer is not reused while a thread compares it with the top is what the reclamation of Epochs
  ensures, proved here by an interpretation of its interface. References counted by the values are left out.
\<close>

subsection \<open>The stack and its operations\<close>

text \<open>The operations on the values from the top.\<close>

fun spec :: "'v op \<Rightarrow> 'v list \<Rightarrow> 'v outcome \<times> 'v list" where
  "spec (Push v) vs = (Pushed, v # vs)"
| "spec Pop [] = (Nothing, [])"
| "spec Pop (v # vs) = (Popped v, vs)"
| "spec (Get i) vs = (case position i (length vs) of None \<Rightarrow> Absent | Some k \<Rightarrow> Got (rev vs ! k), vs)"
| "spec Size vs = (Count (length vs), vs)"
| "spec Snapshot vs = (Values (rev vs), vs)"

record 'v node =
  value_of :: 'v
  next_node :: "nat option"
  node_depth :: nat

text \<open>Where a thread stands in its operation: what it has loaded.\<close>

datatype 'v task = Done "'v outcome"
  | PushLoad nat | PushWrite nat "nat option" | PushSwap nat "nat option"
  | PopLoad | PopNext nat | PopSwap nat "nat option" | PopCopy nat | PopRetire nat 'v
  | GetLoad int | GetDepth int nat | GetWalk nat nat
  | SizeLoad | SizeDepth nat
  | SnapLoad | SnapWalk "nat option" "nat list" | SnapCopy "nat list" "'v list"

text \<open>Nodes are numbered as they are allocated. \<open>dropped\<close> lists the nodes that were retired, \<open>begun\<close> the operations each thread
  began and \<open>log\<close> the operations in the order in which they took effect, each with its thread and the outcome that \<open>spec\<close> has
  for it: these three are history.\<close>

record 'v stack =
  top :: "nat option"
  nodes :: "'v node list"
  tasks :: "nat \<Rightarrow> 'v task"
  dropped :: "nat list"
  begun :: "nat \<Rightarrow> 'v op list"
  log :: "(nat \<times> 'v op \<times> 'v outcome) list"

definition new_stack :: "'v stack" where
  "new_stack = \<lparr>top = None, nodes = [], tasks = (\<lambda>_. Done Nothing), dropped = [], begun = (\<lambda>_. []), log = []\<rparr>"

fun walk :: "nat \<Rightarrow> 'v node list \<Rightarrow> nat option \<Rightarrow> nat list" where
  "walk (Suc k) ns (Some a) = a # walk k ns (next_node (ns ! a))"
| "walk _ _ _ = []"

definition chain :: "'v node list \<Rightarrow> nat option \<Rightarrow> nat list" where
  "chain ns p = (case p of None \<Rightarrow> [] | Some a \<Rightarrow> walk (node_depth (ns ! a)) ns p)"

definition contents :: "'v stack \<Rightarrow> 'v list" where
  "contents s = map (\<lambda>a. value_of (nodes s ! a)) (chain (nodes s) (top s))"

definition goto :: "nat \<Rightarrow> 'v task \<Rightarrow> 'v stack \<Rightarrow> 'v stack" where
  "goto t k s = s\<lparr>tasks := (tasks s)(t := k)\<rparr>"

text \<open>The operation of a thread takes effect.\<close>

definition effect :: "nat \<Rightarrow> 'v op \<Rightarrow> 'v stack \<Rightarrow> 'v stack" where
  "effect t op s = s\<lparr>log := log s @ [(t, op, fst (spec op (contents s)))]\<rparr>"

definition depth_at :: "'v node list \<Rightarrow> nat option \<Rightarrow> nat" where
  "depth_at ns p = (case p of None \<Rightarrow> 0 | Some a \<Rightarrow> node_depth (ns ! a))"

fun begin_op :: "'v op \<Rightarrow> nat \<Rightarrow> 'v stack \<Rightarrow> 'v stack" where
  "begin_op (Push v) t s = goto t (PushLoad (length (nodes s))) (s\<lparr>nodes := nodes s @ [\<lparr>value_of = v, next_node = None, node_depth = 0\<rparr>]\<rparr>)"
| "begin_op Pop t s = goto t PopLoad s"
| "begin_op (Get i) t s = goto t (GetLoad i) s"
| "begin_op Size t s = goto t SizeLoad s"
| "begin_op Snapshot t s = goto t SnapLoad s"

definition push_step :: "nat \<Rightarrow> 'v stack \<Rightarrow> 'v stack option" where
  "push_step t s =
     (case tasks s t of
        PushLoad n \<Rightarrow> Some (goto t (PushWrite n (top s)) s)
      | PushWrite n p \<Rightarrow> Some (goto t (PushSwap n p)
          (s\<lparr>nodes := (nodes s)[n := (nodes s ! n)\<lparr>next_node := p, node_depth := depth_at (nodes s) p + 1\<rparr>]\<rparr>))
      | PushSwap n p \<Rightarrow>
          if top s = p then Some (goto t (Done Pushed) (effect t (Push (value_of (nodes s ! n))) s\<lparr>top := Some n\<rparr>))
          else Some (goto t (PushLoad n) s)
      | _ \<Rightarrow> None)"

definition pop_step :: "nat \<Rightarrow> 'v stack \<Rightarrow> 'v stack option" where
  "pop_step t s =
     (case tasks s t of
        PopLoad \<Rightarrow> (case top s of None \<Rightarrow> Some (goto t (Done Nothing) (effect t Pop s)) | Some a \<Rightarrow> Some (goto t (PopNext a) s))
      | PopNext a \<Rightarrow> Some (goto t (PopSwap a (next_node (nodes s ! a))) s)
      | PopSwap a p \<Rightarrow>
          if top s = Some a then Some (goto t (PopCopy a) (effect t Pop s\<lparr>top := p\<rparr>)) else Some (goto t PopLoad s)
      | PopCopy a \<Rightarrow> Some (goto t (PopRetire a (value_of (nodes s ! a))) s)
      | _ \<Rightarrow> None)"

text \<open>The last step of \<open>pop\<close> retires the node.\<close>

definition pop_retire :: "nat \<Rightarrow> 'v stack \<Rightarrow> (nat \<times> 'v stack) option" where
  "pop_retire t s = (case tasks s t of PopRetire a v \<Rightarrow> Some (a, goto t (Done (Popped v)) s\<lparr>dropped := a # dropped s\<rparr>) | _ \<Rightarrow> None)"

definition get_step :: "nat \<Rightarrow> 'v stack \<Rightarrow> 'v stack option" where
  "get_step t s =
     (case tasks s t of
        GetLoad i \<Rightarrow> (case top s of
            None \<Rightarrow> Some (goto t (Done Absent) (effect t (Get i) s))
          | Some a \<Rightarrow> Some (goto t (GetDepth i a) (effect t (Get i) s)))
      | GetDepth i a \<Rightarrow> (case position i (node_depth (nodes s ! a)) of
            None \<Rightarrow> Some (goto t (Done Absent) s)
          | Some k \<Rightarrow> Some (goto t (GetWalk a (node_depth (nodes s ! a) - 1 - k)) s))
      | GetWalk a 0 \<Rightarrow> Some (goto t (Done (Got (value_of (nodes s ! a)))) s)
      | GetWalk a (Suc k) \<Rightarrow> (case next_node (nodes s ! a) of None \<Rightarrow> None | Some b \<Rightarrow> Some (goto t (GetWalk b k) s))
      | _ \<Rightarrow> None)"

definition size_step :: "nat \<Rightarrow> 'v stack \<Rightarrow> 'v stack option" where
  "size_step t s =
     (case tasks s t of
        SizeLoad \<Rightarrow> (case top s of
            None \<Rightarrow> Some (goto t (Done (Count 0)) (effect t Size s))
          | Some a \<Rightarrow> Some (goto t (SizeDepth a) (effect t Size s)))
      | SizeDepth a \<Rightarrow> Some (goto t (Done (Count (node_depth (nodes s ! a)))) s)
      | _ \<Rightarrow> None)"

text \<open>\<open>snapshot\<close> collects the nodes, then copies their values from the last.\<close>

definition snapshot_step :: "nat \<Rightarrow> 'v stack \<Rightarrow> 'v stack option" where
  "snapshot_step t s =
     (case tasks s t of
        SnapLoad \<Rightarrow> Some (goto t (SnapWalk (top s) []) (effect t Snapshot s))
      | SnapWalk (Some a) as \<Rightarrow> Some (goto t (SnapWalk (next_node (nodes s ! a)) (a # as)) s)
      | SnapWalk None as \<Rightarrow> Some (goto t (SnapCopy as []) s)
      | SnapCopy (a # as) vs \<Rightarrow> Some (goto t (SnapCopy as (vs @ [value_of (nodes s ! a)])) s)
      | SnapCopy [] vs \<Rightarrow> Some (goto t (Done (Values vs)) s)
      | _ \<Rightarrow> None)"

text \<open>\<open>compare_exchange_weak\<close> may fail although it finds what it expects.\<close>

definition weak_failure :: "nat \<Rightarrow> 'v stack \<Rightarrow> 'v stack option" where
  "weak_failure t s =
     (case tasks s t of
        PushSwap n p \<Rightarrow> Some (goto t (PushLoad n) s)
      | PopSwap a p \<Rightarrow> Some (goto t PopLoad s)
      | _ \<Rightarrow> None)"

datatype 'v stack_action = Begin "'v op" | PushStep | PopStep | RetireStep | GetStep | SizeStep | SnapshotStep | WeakFailure

fun busy :: "'v stack \<Rightarrow> nat \<Rightarrow> bool" where
  "busy s t = (case tasks s t of Done r \<Rightarrow> False | _ \<Rightarrow> True)"

definition plain :: "'v stack option \<Rightarrow> (nat option \<times> 'v stack) option" where
  "plain = map_option (Pair None)"

fun stack_step :: "'v stack_action \<Rightarrow> nat \<Rightarrow> 'v stack \<Rightarrow> (nat option \<times> 'v stack) option" where
  "stack_step (Begin op) t s =
     (if busy s t then None else Some (None, begin_op op t (s\<lparr>begun := (begun s)(t := begun s t @ [op])\<rparr>)))"
| "stack_step PushStep t s = plain (push_step t s)"
| "stack_step PopStep t s = plain (pop_step t s)"
| "stack_step RetireStep t s = map_option (apfst Some) (pop_retire t s)"
| "stack_step GetStep t s = plain (get_step t s)"
| "stack_step SizeStep t s = plain (size_step t s)"
| "stack_step SnapshotStep t s = plain (snapshot_step t s)"
| "stack_step WeakFailure t s = plain (weak_failure t s)"

fun stack_run :: "('v stack_action \<times> nat) list \<Rightarrow> 'v stack \<Rightarrow> 'v stack option" where
  "stack_run [] s = Some s"
| "stack_run ((a, t) # as) s = (case stack_step a t s of None \<Rightarrow> None | Some (r, s') \<Rightarrow> stack_run as s')"

lemmas stack_defs = push_step_def pop_step_def pop_retire_def get_step_def size_step_def snapshot_step_def weak_failure_def plain_def goto_def effect_def

subsection \<open>Chains of nodes\<close>

fun is_chain :: "'v node list \<Rightarrow> nat option \<Rightarrow> nat list \<Rightarrow> bool" where
  "is_chain ns p [] \<longleftrightarrow> p = None"
| "is_chain ns p (a # as) \<longleftrightarrow> p = Some a \<and> a < length ns \<and> node_depth (ns ! a) = length as + 1 \<and> is_chain ns (next_node (ns ! a)) as"

lemma walk_chain: "is_chain ns p as \<Longrightarrow> walk (length as) ns p = as"
  by (induction as arbitrary: p) auto

lemma chain_eq: "is_chain ns p as \<Longrightarrow> chain ns p = as"
  by (cases as) (auto simp: chain_def walk_chain)

lemma chain_cong: "is_chain ns p as \<Longrightarrow> length ns \<le> length ns' \<Longrightarrow> (\<forall>a\<in>set as. ns' ! a = ns ! a) \<Longrightarrow> is_chain ns' p as"
  by (induction as arbitrary: p) auto

lemma chain_below: "is_chain ns p as \<Longrightarrow> a \<in> set as \<Longrightarrow> node_depth (ns ! a) \<le> length as"
  by (induction as arbitrary: p) (auto intro: le_SucI)

lemma chain_distinct: "is_chain ns p as \<Longrightarrow> distinct as"
  by (induction as arbitrary: p) (auto dest: chain_below)

definition good_chain :: "'v node list \<Rightarrow> nat set \<Rightarrow> nat option \<Rightarrow> bool" where
  "good_chain ns P p \<longleftrightarrow> is_chain ns p (chain ns p) \<and> set (chain ns p) \<subseteq> P"

lemma good_chainI: "is_chain ns p as \<Longrightarrow> set as \<subseteq> P \<Longrightarrow> good_chain ns P p"
  by (simp add: good_chain_def chain_eq)

lemma good_chain_Some:
  "good_chain ns P (Some a) \<longleftrightarrow> a \<in> P \<and> a < length ns \<and> good_chain ns P (next_node (ns ! a)) \<and>
     node_depth (ns ! a) = length (chain ns (next_node (ns ! a))) + 1"
  (is "?l \<longleftrightarrow> ?r")
proof
  assume ?l
  then obtain as where "is_chain ns (Some a) as" "set as \<subseteq> P" by (auto simp: good_chain_def)
  then show ?r by (cases as) (auto intro: good_chainI simp: chain_eq)
next
  assume r: ?r
  then have c: "is_chain ns (Some a) (a # chain ns (next_node (ns ! a)))" by (simp add: good_chain_def)
  show ?l by (rule good_chainI [OF c]) (use r in \<open>auto simp: good_chain_def\<close>)
qed

lemma chain_Some: "good_chain ns P (Some a) \<Longrightarrow> chain ns (Some a) = a # chain ns (next_node (ns ! a))"
proof (rule chain_eq)
  assume "good_chain ns P (Some a)"
  then show "is_chain ns (Some a) (a # chain ns (next_node (ns ! a)))"
    unfolding good_chain_Some by (simp add: good_chain_def)
qed

lemma good_chain_None [simp]: "good_chain ns P None" "chain ns None = []"
  by (simp_all add: good_chain_def chain_def)

lemma good_chain_depth: "good_chain ns P p \<Longrightarrow> depth_at ns p = length (chain ns p)"
  by (cases p) (auto simp: depth_at_def good_chain_Some chain_Some)

lemma good_chain_cong:
  assumes "good_chain ns P p" "length ns \<le> length ns'" "\<And>a. a \<in> P \<Longrightarrow> ns' ! a = ns ! a" "P \<subseteq> P'"
  shows "good_chain ns' P' p \<and> chain ns' p = chain ns p"
proof -
  have g: "is_chain ns p (chain ns p)" "set (chain ns p) \<subseteq> P" using assms(1) by (simp_all add: good_chain_def)
  have "is_chain ns' p (chain ns p)" by (rule chain_cong [OF g(1) assms(2)]) (use assms(3) g(2) in blast)
  then show ?thesis using g(2) assms(4) good_chainI chain_eq by blast
qed


subsection \<open>What holds of the nodes\<close>

fun fresh_of :: "'v task \<Rightarrow> nat option" where
  "fresh_of (PushLoad n) = Some n"
| "fresh_of (PushWrite n p) = Some n"
| "fresh_of (PushSwap n p) = Some n"
| "fresh_of _ = None"

fun owned_by :: "'v task \<Rightarrow> nat option" where
  "owned_by (PopCopy a) = Some a"
| "owned_by (PopRetire a v) = Some a"
| "owned_by _ = None"

text \<open>The pointers of a thread to nodes of the stack.\<close>

fun pointers :: "'v task \<Rightarrow> nat option set" where
  "pointers (PushWrite n p) = {p}"
| "pointers (PushSwap n p) = {p}"
| "pointers (PopNext a) = {Some a}"
| "pointers (PopSwap a p) = {Some a}"
| "pointers (PopCopy a) = {Some a}"
| "pointers (PopRetire a v) = {Some a}"
| "pointers (GetDepth i a) = {Some a}"
| "pointers (GetWalk a k) = {Some a}"
| "pointers (SizeDepth a) = {Some a}"
| "pointers (SnapWalk p as) = insert p (Some ` set as)"
| "pointers (SnapCopy as vs) = Some ` set as"
| "pointers _ = {}"

definition published :: "'v stack \<Rightarrow> nat set" where
  "published s = {a. a < length (nodes s) \<and> (\<forall>t. fresh_of (tasks s t) \<noteq> Some a)}"

text \<open>What a thread may still read.\<close>

definition holds :: "'v stack \<Rightarrow> nat \<Rightarrow> nat set" where
  "holds s t = (\<Union>p\<in>pointers (tasks s t). set (chain (nodes s) p))"

definition dead :: "'v stack \<Rightarrow> nat set" where
  "dead s = set (dropped s)"

definition task_fits :: "'v stack \<Rightarrow> 'v task \<Rightarrow> bool" where
  "task_fits s k \<longleftrightarrow> (\<forall>p\<in>pointers k. good_chain (nodes s) (published s) p) \<and>
     (\<forall>n. fresh_of k = Some n \<longrightarrow> n < length (nodes s)) \<and>
     (\<forall>a. owned_by k = Some a \<longrightarrow> a \<notin> set (chain (nodes s) (top s)) \<and> a \<notin> set (dropped s)) \<and>
     (case k of
        PushSwap n p \<Rightarrow> next_node (nodes s ! n) = p \<and> node_depth (nodes s ! n) = depth_at (nodes s) p + 1
      | PopSwap a p \<Rightarrow> p = next_node (nodes s ! a)
      | PopRetire a v \<Rightarrow> v = value_of (nodes s ! a)
      | GetWalk a k \<Rightarrow> k < length (chain (nodes s) (Some a))
      | _ \<Rightarrow> True)"

definition stack_ok :: "'v stack \<Rightarrow> bool" where
  "stack_ok s \<longleftrightarrow> good_chain (nodes s) (published s) (top s) \<and>
     (\<forall>a\<in>published s. good_chain (nodes s) (published s) (Some a)) \<and>
     (\<forall>t. task_fits s (tasks s t)) \<and>
     (\<forall>t u n. fresh_of (tasks s t) = Some n \<longrightarrow> fresh_of (tasks s u) = Some n \<longrightarrow> t = u) \<and>
     (\<forall>t u a. owned_by (tasks s t) = Some a \<longrightarrow> owned_by (tasks s u) = Some a \<longrightarrow> t = u) \<and>
     set (dropped s) \<subseteq> published s - set (chain (nodes s) (top s))"

lemma stack_okD:
  assumes "stack_ok s"
  shows "good_chain (nodes s) (published s) (top s)" "a \<in> published s \<Longrightarrow> good_chain (nodes s) (published s) (Some a)"
    "task_fits s (tasks s t)" "fresh_of (tasks s t) = Some n \<Longrightarrow> fresh_of (tasks s u) = Some n \<Longrightarrow> t = u"
    "owned_by (tasks s t) = Some n \<Longrightarrow> owned_by (tasks s u) = Some n \<Longrightarrow> t = u"
    "set (dropped s) \<subseteq> published s - set (chain (nodes s) (top s))"
  using assms unfolding stack_ok_def by blast+

text \<open>Steps that change the task of one thread and nothing of the nodes.\<close>

lemma own_task:
  assumes ok: "stack_ok s" and s': "tasks s' = (tasks s)(t := k)" "nodes s' = nodes s" "top s' = top s" "dropped s' = dropped s"
    and k: "fresh_of k = fresh_of (tasks s t)" "owned_by k = owned_by (tasks s t)"
    and fits: "task_fits s k"
  shows "stack_ok s'"
proof -
  have f: "fresh_of (tasks s' u) = fresh_of (tasks s u)" "owned_by (tasks s' u) = owned_by (tasks s u)" for u
    by (simp_all add: s' k)
  have p: "published s' = published s" by (simp add: published_def f s'(2))
  have t: "task_fits s' l = task_fits s l" for l by (cases l) (simp_all add: task_fits_def p s')
  show ?thesis using ok fits by (simp add: stack_ok_def p t s'(2-4) f) (simp add: s'(1))
qed

lemma fits_frame:
  assumes l: "task_fits s l" and len: "length (nodes s) \<le> length (nodes s')" and P: "published s \<subseteq> published s'"
    and same: "\<And>a. a \<in> published s \<Longrightarrow> nodes s' ! a = nodes s ! a" "\<And>n. fresh_of l = Some n \<Longrightarrow> nodes s' ! n = nodes s ! n"
    and owned: "\<And>a. owned_by l = Some a \<Longrightarrow> a \<in> published s \<Longrightarrow> a \<notin> set (chain (nodes s) (top s)) \<Longrightarrow> a \<notin> set (dropped s) \<Longrightarrow>
      a \<notin> set (chain (nodes s') (top s')) \<and> a \<notin> set (dropped s')"
  shows "task_fits s' l"
proof -
  have g: "good_chain (nodes s') (published s') q \<and> chain (nodes s') q = chain (nodes s) q" if "good_chain (nodes s) (published s) q" for q
    using that len same(1) P by (rule good_chain_cong)
  have gp: "good_chain (nodes s) (published s) q" if "q \<in> pointers l" for q using l that by (simp add: task_fits_def)
  have d: "depth_at (nodes s') q = depth_at (nodes s) q" if "q \<in> pointers l" for q
    using good_chain_depth [OF gp [OF that]] good_chain_depth [of "nodes s'" "published s'" q] g [OF gp [OF that]] by simp
  have "\<forall>p\<in>pointers l. good_chain (nodes s') (published s') p" using g gp by blast
  moreover have "\<forall>n. fresh_of l = Some n \<longrightarrow> n < length (nodes s')" using l len by (auto simp: task_fits_def)
  moreover have "\<forall>a. owned_by l = Some a \<longrightarrow> a \<notin> set (chain (nodes s') (top s')) \<and> a \<notin> set (dropped s')"
  proof (intro allI impI)
    fix a assume a: "owned_by l = Some a"
    then have "Some a \<in> pointers l" by (cases l) simp_all
    from gp [OF this] have "a \<in> published s" by (simp add: good_chain_Some)
    then show "a \<notin> set (chain (nodes s') (top s')) \<and> a \<notin> set (dropped s')" using owned [OF a] l a by (auto simp: task_fits_def)
  qed
  moreover have "case l of
        PushSwap n p \<Rightarrow> next_node (nodes s' ! n) = p \<and> node_depth (nodes s' ! n) = depth_at (nodes s') p + 1
      | PopSwap a p \<Rightarrow> p = next_node (nodes s' ! a)
      | PopRetire a v \<Rightarrow> v = value_of (nodes s' ! a)
      | GetWalk a k \<Rightarrow> k < length (chain (nodes s') (Some a))
      | _ \<Rightarrow> True"
    using l gp d g same by (cases l) (auto simp: task_fits_def good_chain_Some)
  ultimately show ?thesis by (simp add: task_fits_def)
qed

lemma begin_push_ok:
  assumes ok: "stack_ok s" and idle: "\<not> busy s t"
    and s': "tasks s' = (tasks s)(t := PushLoad (length (nodes s)))" "nodes s' = nodes s @ [x]" "top s' = top s" "dropped s' = dropped s"
  shows "stack_ok s'"
proof -
  have d: "fresh_of (tasks s t) = None" "owned_by (tasks s t) = None" using idle by (cases "tasks s t"; simp)+
  have n: "fresh_of (tasks s u) \<noteq> Some (length (nodes s))" for u using stack_okD(3) [OF ok, of u] by (auto simp: task_fits_def)
  have p: "published s' = published s" using d n by (auto simp: published_def s')
  have g: "good_chain (nodes s') (published s) q \<and> chain (nodes s') q = chain (nodes s) q" if "good_chain (nodes s) (published s) q" for q
    using that by (rule good_chain_cong) (auto simp: s' published_def nth_append)
  have "task_fits s' l" if l: "task_fits s l" for l
    by (rule fits_frame [OF l]) (use l g stack_okD(1) [OF ok] in \<open>auto simp: s' p published_def nth_append task_fits_def\<close>)
  moreover have "task_fits s' (PushLoad (length (nodes s)))" by (simp add: task_fits_def s')
  ultimately show ?thesis using ok g d n unfolding stack_ok_def p s'(3,4) by (auto simp: s'(1))
qed

lemma push_write_ok:
  assumes ok: "stack_ok s" and t: "tasks s t = PushWrite n p"
    and s': "tasks s' = (tasks s)(t := PushSwap n p)" "top s' = top s" "dropped s' = dropped s"
      "nodes s' = (nodes s)[n := (nodes s ! n)\<lparr>next_node := p, node_depth := depth_at (nodes s) p + 1\<rparr>]"
  shows "stack_ok s'"
proof -
  have "fresh_of (tasks s t) = Some n" by (simp add: t)
  then have "n \<notin> published s" unfolding published_def by blast
  then have n: "n < length (nodes s)" "n \<notin> published s" "good_chain (nodes s) (published s) p"
    using stack_okD(3) [OF ok, of t] t by (simp_all add: task_fits_def)
  have f: "fresh_of (tasks s' u) = fresh_of (tasks s u)" "owned_by (tasks s' u) = owned_by (tasks s u)" for u
    by (simp_all add: s' t)
  have P: "published s' = published s" by (simp add: published_def f s'(4))
  have g: "good_chain (nodes s') (published s) q \<and> chain (nodes s') q = chain (nodes s) q" if "good_chain (nodes s) (published s) q" for q
    using that
  proof (rule good_chain_cong)
    fix a assume "a \<in> published s"
    then have "n \<noteq> a" using n(2) by blast
    then show "nodes s' ! a = nodes s ! a" by (simp add: s')
  qed (simp_all add: s')
  have other: "task_fits s' (tasks s u)" if "u \<noteq> t" for u
  proof (rule fits_frame [OF stack_okD(3) [OF ok]])
    fix m assume "fresh_of (tasks s u) = Some m"
    then have "m \<noteq> n" using stack_okD(4) [OF ok, of u m t] t that by auto
    then show "nodes s' ! m = nodes s ! m" by (simp add: s')
  next
    fix a assume "a \<in> published s"
    then have "n \<noteq> a" using n(2) by blast
    then show "nodes s' ! a = nodes s ! a" by (simp add: s')
  qed (use g [OF stack_okD(1) [OF ok]] in \<open>simp_all add: P s'(2,3), simp_all add: s'\<close>)
  have "depth_at (nodes s') p = depth_at (nodes s) p"
    using good_chain_depth [OF n(3)] good_chain_depth [of "nodes s'" "published s" p] g [OF n(3)] by simp
  then have "task_fits s' (PushSwap n p)" using n g [OF n(3)] by (simp add: task_fits_def P) (simp add: s')
  then have "\<forall>u. task_fits s' (tasks s' u)" using other by (simp add: s'(1))
  then show ?thesis using ok g unfolding stack_ok_def P f s'(2,3) by auto
qed

lemma push_swap_ok:
  assumes ok: "stack_ok s" and t: "tasks s t = PushSwap n (top s)"
    and s': "tasks s' = (tasks s)(t := Done Pushed)" "top s' = Some n" "dropped s' = dropped s" "nodes s' = nodes s"
  shows "stack_ok s' \<and> chain (nodes s') (top s') = n # chain (nodes s) (top s)"
proof -
  have "fresh_of (tasks s t) = Some n" by (simp add: t)
  then have "n \<notin> published s" unfolding published_def by blast
  then have n: "n < length (nodes s)" "n \<notin> published s" "next_node (nodes s ! n) = top s" "node_depth (nodes s ! n) = depth_at (nodes s) (top s) + 1"
    using stack_okD(3) [OF ok, of t] t by (auto simp: task_fits_def)
  have f: "fresh_of (tasks s' u) = (if u = t then None else fresh_of (tasks s u))" for u by (simp add: s'(1))
  have "fresh_of (tasks s u) = Some n \<longleftrightarrow> u = t" for u using t stack_okD(4) [OF ok, of t n u] by auto
  then have "(\<forall>u. fresh_of (tasks s' u) \<noteq> Some x) \<longleftrightarrow> x = n \<or> (\<forall>u. fresh_of (tasks s u) \<noteq> Some x)" for x
    unfolding f by (metis option.inject option.distinct(1))
  then have P: "published s' = insert n (published s)" using n(1) unfolding published_def s'(4) by auto
  have g: "good_chain (nodes s') (published s') q" if "good_chain (nodes s) (published s) q" for q
    using that by (auto simp: good_chain_def s' P)
  have c: "good_chain (nodes s') (published s') (Some n)"
    unfolding good_chain_Some using n g [OF stack_okD(1) [OF ok]] good_chain_depth [OF stack_okD(1) [OF ok]] by (simp add: s' P)
  then have ch: "chain (nodes s') (top s') = n # chain (nodes s) (top s)" using chain_Some [OF c] n by (simp add: s')
  have "task_fits s' (tasks s u)" if "u \<noteq> t" for u
    by (rule fits_frame [OF stack_okD(3) [OF ok]]) (use n ch in \<open>auto simp: s' P\<close>)
  then have "\<forall>u. task_fits s' (tasks s' u)" by (simp add: s'(1)) (simp add: task_fits_def)
  moreover have "n \<notin> set (dropped s)" using stack_okD(6) [OF ok] n(2) by blast
  ultimately show ?thesis using ok g c ch unfolding stack_ok_def by (auto simp: s' P split: if_splits)
qed

lemma pop_swap_ok:
  assumes ok: "stack_ok s" and t: "tasks s t = PopSwap a p" "top s = Some a"
    and s': "tasks s' = (tasks s)(t := PopCopy a)" "top s' = p" "dropped s' = dropped s" "nodes s' = nodes s"
  shows "stack_ok s' \<and> chain (nodes s) (top s) = a # chain (nodes s') (top s')"
proof -
  have p: "p = next_node (nodes s ! a)" using stack_okD(3) [OF ok, of t] t by (simp add: task_fits_def)
  have ga: "good_chain (nodes s) (published s) (Some a)" using stack_okD(1) [OF ok] t by simp
  then have ch: "chain (nodes s) (top s) = a # chain (nodes s) p" "good_chain (nodes s) (published s) p" "a \<in> published s"
    by (simp_all add: t(2) p chain_Some) (simp_all add: good_chain_Some)
  have "is_chain (nodes s) (Some a) (a # chain (nodes s) p)" using ga ch(1) t(2) by (simp add: good_chain_def)
  then have dist: "a \<notin> set (chain (nodes s) p)" using chain_distinct by fastforce
  have "fresh_of (tasks s' u) = fresh_of (tasks s u)" for u using t by (simp add: s')
  then have P: "published s' = published s" by (simp add: published_def s'(4))
  have drop: "a \<notin> set (dropped s)" "set (dropped s) \<subseteq> published s - set (chain (nodes s) p)" using stack_okD(6) [OF ok] ch(1) by auto
  have "task_fits s' (tasks s u)" if "u \<noteq> t" for u
    by (rule fits_frame [OF stack_okD(3) [OF ok]]) (use ch in \<open>auto simp: s' P\<close>)
  moreover have "task_fits s' (PopCopy a)" using ga dist drop(1) by (simp add: task_fits_def P) (simp add: s')
  ultimately have "\<forall>u. task_fits s' (tasks s' u)" by (simp add: s'(1))
  moreover have "owned_by (tasks s u) \<noteq> Some a" for u
    using stack_okD(3) [OF ok, of u] ch(1) by (auto simp: task_fits_def)
  ultimately show ?thesis using ok ch drop t unfolding stack_ok_def by (auto simp: s' P)
qed

lemma pop_retire_ok:
  assumes ok: "stack_ok s" and t: "tasks s t = PopRetire a v"
    and s': "tasks s' = (tasks s)(t := Done (Popped v))" "top s' = top s" "dropped s' = a # dropped s" "nodes s' = nodes s"
  shows "stack_ok s' \<and> a \<notin> set (dropped s)"
proof -
  have a: "a \<in> published s" "a \<notin> set (chain (nodes s) (top s))" "a \<notin> set (dropped s)"
    using stack_okD(3) [OF ok, of t] t by (auto simp: task_fits_def good_chain_Some)
  have "fresh_of (tasks s' u) = fresh_of (tasks s u)" for u using t by (simp add: s')
  then have P: "published s' = published s" by (simp add: published_def s'(4))
  have "task_fits s' (tasks s u)" if "u \<noteq> t" for u
    by (rule fits_frame [OF stack_okD(3) [OF ok]]) (use stack_okD(5) [OF ok, of u _ t] t that in \<open>auto simp: s' P\<close>)
  then have "\<forall>u. task_fits s' (tasks s' u)" by (simp add: s'(1)) (simp add: task_fits_def)
  then show ?thesis using ok a t unfolding stack_ok_def by (auto simp: s' P)
qed


lemma goto_sel [simp]:
  "tasks (goto t k s) = (tasks s)(t := k)" "nodes (goto t k s) = nodes s" "top (goto t k s) = top s"
  "dropped (goto t k s) = dropped s" "log (goto t k s) = log s" "begun (goto t k s) = begun s"
  "tasks (effect t op s) = tasks s" "nodes (effect t op s) = nodes s" "top (effect t op s) = top s"
  "dropped (effect t op s) = dropped s" "begun (effect t op s) = begun s"
  by (simp_all add: goto_def effect_def)

lemma step_cases:
  assumes step: "stack_step a t s = Some (r, s')" and ok: "stack_ok s"
  obtains
    (own) k where "tasks s' = (tasks s)(t := k)" "nodes s' = nodes s" "top s' = top s" "dropped s' = dropped s" "r = None"
      "fresh_of k = fresh_of (tasks s t)" "owned_by k = owned_by (tasks s t)" "task_fits s k"
      "\<And>p. p \<in> pointers k \<Longrightarrow> p = top s \<or> (\<exists>q\<in>pointers (tasks s t). set (chain (nodes s) p) \<subseteq> set (chain (nodes s) q))"
  | (begin_push) v where "\<not> busy s t" "a = Begin (Push v)" "r = None"
  | (wrote) n p where "a = PushStep" "tasks s t = PushWrite n p" "r = None"
  | (push) n where "a = PushStep" "tasks s t = PushSwap n (top s)" "r = None"
  | (pop) x p where "a = PopStep" "tasks s t = PopSwap x p" "top s = Some x" "r = None"
  | (retire) x v where "a = RetireStep" "tasks s t = PopRetire x v" "r = Some x"
proof -
  note f = stack_okD(3) [OF ok, of t] and g = stack_okD(1) [OF ok]
  show thesis
  proof (cases a)
    case (Begin op)
    show thesis
    proof (cases op)
      case (Push v)
      then show thesis using that(2) step Begin by (auto split: if_splits)
    next
      case Pop then show thesis using step Begin by (intro own [of PopLoad]) (auto simp: task_fits_def split: if_splits task.splits)
    next
      case (Get i) then show thesis using step Begin by (intro own [of "GetLoad i"]) (auto simp: task_fits_def split: if_splits task.splits)
    next
      case Size then show thesis using step Begin by (intro own [of SizeLoad]) (auto simp: task_fits_def split: if_splits task.splits)
    next
      case Snapshot then show thesis using step Begin by (intro own [of SnapLoad]) (auto simp: task_fits_def split: if_splits task.splits)
    qed
  next
    case PushStep
    show thesis
    proof (cases "tasks s t")
      case (PushLoad n)
      then show thesis using step PushStep f g by (intro own [of "PushWrite n (top s)"]) (auto simp: push_step_def plain_def task_fits_def)
    next
      case (PushWrite n p)
      then show thesis using step PushStep by (intro wrote [of n p]) (auto simp: push_step_def plain_def)
    next
      case (PushSwap n p)
      then show thesis using step PushStep f push [of n] by (cases "top s = p")
        (auto simp: push_step_def plain_def task_fits_def intro: own [of "PushLoad n"])
    qed (use step PushStep in \<open>auto simp: push_step_def plain_def\<close>)
  next
    case PopStep
    show thesis
    proof (cases "tasks s t")
      case PopLoad
      show thesis
      proof (cases "top s")
        case None
        then show thesis using PopLoad step PopStep by (intro own [of "Done Nothing"]) (auto simp: pop_step_def plain_def task_fits_def)
      next
        case (Some x)
        then show thesis using PopLoad step PopStep g by (intro own [of "PopNext x"]) (auto simp: pop_step_def plain_def task_fits_def)
      qed
    next
      case (PopNext x)
      then show thesis using step PopStep f by (intro own [of "PopSwap x (next_node (nodes s ! x))"]) (auto simp: pop_step_def plain_def task_fits_def)
    next
      case (PopSwap x p)
      then show thesis using step PopStep pop [of x p] by (cases "top s = Some x")
        (auto simp: pop_step_def plain_def task_fits_def intro: own [of PopLoad])
    next
      case (PopCopy x)
      then show thesis using step PopStep f by (intro own [of "PopRetire x (value_of (nodes s ! x))"]) (auto simp: pop_step_def plain_def task_fits_def)
    qed (use step PopStep in \<open>auto simp: pop_step_def plain_def\<close>)
  next
    case RetireStep
    then show thesis using step retire by (auto simp: pop_retire_def split: task.splits)
  next
    case GetStep
    show thesis
    proof (cases "tasks s t")
      case (GetLoad i)
      show thesis
      proof (cases "top s")
        case None
        then show thesis using GetLoad step GetStep by (intro own [of "Done Absent"]) (auto simp: get_step_def plain_def task_fits_def)
      next
        case (Some x)
        then show thesis using GetLoad step GetStep g by (intro own [of "GetDepth i x"]) (auto simp: get_step_def plain_def task_fits_def)
      qed
    next
      case (GetDepth i x)
      then have "good_chain (nodes s) (published s) (Some x)" using f by (simp add: task_fits_def)
      then have x: "node_depth (nodes s ! x) = length (chain (nodes s) (Some x))" using good_chain_depth by (fastforce simp: depth_at_def)
      show thesis
      proof (cases "position i (node_depth (nodes s ! x))")
        case None
        then show thesis using GetDepth step GetStep by (intro own [of "Done Absent"]) (auto simp: get_step_def plain_def task_fits_def)
      next
        case (Some k)
        then have "k < node_depth (nodes s ! x)" by (auto simp: position_def Let_def split: if_splits)
        then show thesis using GetDepth step GetStep f x Some
          by (intro own [of "GetWalk x (node_depth (nodes s ! x) - 1 - k)"]) (auto simp: get_step_def plain_def task_fits_def)
      qed
    next
      case (GetWalk x k)
      then have x: "good_chain (nodes s) (published s) (Some x)" "k < length (chain (nodes s) (Some x))" using f by (auto simp: task_fits_def)
      show thesis
      proof (cases k)
        case 0
        then show thesis using GetWalk step GetStep
          by (intro own [of "Done (Got (value_of (nodes s ! x)))"]) (auto simp: get_step_def plain_def task_fits_def)
      next
        case (Suc j)
        then obtain b where b: "next_node (nodes s ! x) = Some b" using GetWalk step GetStep by (auto simp: get_step_def plain_def split: option.splits)
        then show thesis using GetWalk step GetStep x Suc
          by (intro own [of "GetWalk b j"]) (auto simp: get_step_def plain_def task_fits_def good_chain_Some [of _ _ x] chain_Some [of _ _ x])
      qed
    qed (use step GetStep in \<open>auto simp: get_step_def plain_def\<close>)
  next
    case SizeStep
    show thesis
    proof (cases "tasks s t")
      case SizeLoad
      show thesis
      proof (cases "top s")
        case None
        then show thesis using SizeLoad step SizeStep by (intro own [of "Done (Count 0)"]) (auto simp: size_step_def plain_def task_fits_def)
      next
        case (Some x)
        then show thesis using SizeLoad step SizeStep g by (intro own [of "SizeDepth x"]) (auto simp: size_step_def plain_def task_fits_def)
      qed
    next
      case (SizeDepth x)
      then show thesis using step SizeStep by (intro own [of "Done (Count (node_depth (nodes s ! x)))"]) (auto simp: size_step_def plain_def task_fits_def)
    qed (use step SizeStep in \<open>auto simp: size_step_def plain_def\<close>)
  next
    case SnapshotStep
    show thesis
    proof (cases "tasks s t")
      case SnapLoad
      then show thesis using step SnapshotStep g by (intro own [of "SnapWalk (top s) []"]) (auto simp: snapshot_step_def plain_def task_fits_def)
    next
      case (SnapWalk p as)
      show thesis
      proof (cases p)
        case None
        then show thesis using SnapWalk step SnapshotStep f by (intro own [of "SnapCopy as []"]) (auto simp: snapshot_step_def plain_def task_fits_def)
      next
        case (Some x)
        then have "good_chain (nodes s) (published s) (Some x)" using f SnapWalk by (auto simp: task_fits_def)
        then show thesis using SnapWalk step SnapshotStep f Some
          by (intro own [of "SnapWalk (next_node (nodes s ! x)) (x # as)"])
            (auto simp: snapshot_step_def plain_def task_fits_def good_chain_Some [of _ _ x] chain_Some [of _ _ x])
      qed
    next
      case (SnapCopy as vs)
      show thesis
      proof (cases as)
        case Nil
        then show thesis using SnapCopy step SnapshotStep by (intro own [of "Done (Values vs)"]) (auto simp: snapshot_step_def plain_def task_fits_def)
      next
        case (Cons x xs)
        then show thesis using SnapCopy step SnapshotStep f
          by (intro own [of "SnapCopy xs (vs @ [value_of (nodes s ! x)])"]) (auto simp: snapshot_step_def plain_def task_fits_def)
      qed
    qed (use step SnapshotStep in \<open>auto simp: snapshot_step_def plain_def\<close>)
  next
    case WeakFailure
    show thesis
    proof (cases "tasks s t")
      case (PushSwap n p)
      then show thesis using step WeakFailure f by (intro own [of "PushLoad n"]) (auto simp: weak_failure_def plain_def task_fits_def)
    next
      case (PopSwap x p)
      then show thesis using step WeakFailure by (intro own [of PopLoad]) (auto simp: weak_failure_def plain_def task_fits_def)
    qed (use step WeakFailure in \<open>auto simp: weak_failure_def plain_def\<close>)
  qed
qed


lemma stack_step_ok:
  assumes ok: "stack_ok s" and step: "stack_step a t s = Some (r, s')"
  shows "stack_ok s'"
  using step ok
proof (cases rule: step_cases)
  case (own k)
  then show ?thesis by (intro own_task [OF ok own(1-4)])
next
  case (begin_push v)
  then show ?thesis using step by (intro begin_push_ok [OF ok]) auto
next
  case (wrote n p)
  then show ?thesis using step by (intro push_write_ok [OF ok]) (auto simp: push_step_def plain_def)
next
  case (push n)
  then show ?thesis using step push_swap_ok [OF ok push(2), of s'] by (auto simp: push_step_def plain_def)
next
  case (pop x p)
  then show ?thesis using step pop_swap_ok [OF ok pop(2,3), of s'] by (auto simp: pop_step_def plain_def)
next
  case (retire x v)
  then show ?thesis using step pop_retire_ok [OF ok retire(2), of s'] by (auto simp: pop_retire_def)
qed

lemma published_keeps:
  assumes ok: "stack_ok s" and step: "stack_step a t s = Some (r, s')" and p: "good_chain (nodes s) (published s) p"
  shows "chain (nodes s') p = chain (nodes s) p" "\<And>x. x \<in> published s \<Longrightarrow> nodes s' ! x = nodes s ! x"
proof -
  have "length (nodes s) \<le> length (nodes s') \<and> (\<forall>x\<in>published s. nodes s' ! x = nodes s ! x)"
    using step ok
  proof (cases rule: step_cases)
    case (wrote n q)
    then have "fresh_of (tasks s t) = Some n" by simp
    then have "n \<notin> published s" unfolding published_def by blast
    then have "n \<noteq> x" if "x \<in> published s" for x using that by blast
    then show ?thesis using wrote step by (auto simp: push_step_def plain_def)
  qed (use step in \<open>auto simp: push_step_def pop_step_def pop_retire_def plain_def published_def nth_append split: if_splits\<close>)
  then show "chain (nodes s') p = chain (nodes s) p" "\<And>x. x \<in> published s \<Longrightarrow> nodes s' ! x = nodes s ! x"
    using good_chain_cong [OF p, of "nodes s'"] by auto
qed

subsection \<open>The stack is reclaimed safely\<close>

interpretation reclaimed_stack: reclaimed stack_step busy holds dead stack_ok
proof
  fix s s' :: "'v stack" and a t r u x
  assume ok: "stack_ok s"
  { assume step: "stack_step a t s = Some (r, s')"
    show "stack_ok s'" by (rule stack_step_ok [OF ok step])
    show "dead s \<subseteq> dead s'" using step ok
      by (cases rule: step_cases) (use step in \<open>auto simp: dead_def push_step_def pop_step_def pop_retire_def plain_def split: if_splits\<close>)
  }
  { assume step: "stack_step a t s = Some (Some x, s')"
    then show "x \<in> dead s' \<and> x \<notin> dead s" using ok
    proof (cases rule: step_cases)
      case (retire y v)
      then show ?thesis using step pop_retire_ok [OF ok retire(2), of s'] by (auto simp: pop_retire_def dead_def)
    qed simp_all
  }
  { assume "\<not> busy s t"
    then show "holds s t = {}" by (cases "tasks s t") (simp_all add: holds_def)
  }
  assume step: "stack_step a t s = Some (r, s')" and h: "x \<in> holds s' u"
  note keeps = published_keeps(1) [OF ok step]
  have gu: "good_chain (nodes s) (published s) p" if "p \<in> pointers (tasks s u)" for p u
    using stack_okD(3) [OF ok, of u] that by (simp add: task_fits_def)
  have same: "holds s' u = holds s u" if "pointers (tasks s' u) = pointers (tasks s u)" for u
    unfolding holds_def that using keeps [OF gu] by auto
  show "x \<in> holds s u \<or> u = t \<and> x \<notin> dead s"
  proof (cases "u = t")
    case False
    have "tasks s' u = tasks s u" using step ok
      by (cases rule: step_cases) (use step False in \<open>auto simp: push_step_def pop_step_def pop_retire_def plain_def split: if_splits\<close>)
    then show ?thesis using same h by simp
  next
    case True
    show ?thesis using step ok
    proof (cases rule: step_cases)
      case (own k)
      then obtain p where p: "p \<in> pointers k" "x \<in> set (chain (nodes s) p)" using h True by (auto simp: holds_def)
      have top: "x \<notin> dead s" if "x \<in> set (chain (nodes s) (top s))" using that stack_okD(6) [OF ok] by (auto simp: dead_def)
      from own(9) [OF p(1)] show ?thesis using p(2) top True by (auto simp: holds_def)
    next
      case (begin_push v) then show ?thesis using step h True by (auto simp: holds_def)
    next
      case (wrote n p) then show ?thesis using step h True same [of t] by (auto simp: push_step_def plain_def)
    next
      case (push n) then show ?thesis using step h True by (auto simp: push_step_def plain_def holds_def)
    next
      case (pop y p) then show ?thesis using step h True same [of t] by (auto simp: pop_step_def plain_def)
    next
      case (retire y v) then show ?thesis using step h True by (auto simp: pop_retire_def holds_def)
    qed
  qed
qed


subsection \<open>The stack is linearizable\<close>

abbreviation vals :: "'v node list \<Rightarrow> nat list \<Rightarrow> 'v list" where
  "vals ns as \<equiv> map (\<lambda>a. value_of (ns ! a)) as"

text \<open>The outcome a thread will return whose operation has taken effect.\<close>

fun due :: "'v node list \<Rightarrow> 'v task \<Rightarrow> 'v outcome option" where
  "due ns (Done r) = Some r"
| "due ns (PopCopy a) = Some (Popped (value_of (ns ! a)))"
| "due ns (PopRetire a v) = Some (Popped v)"
| "due ns (GetDepth i a) = Some (fst (spec (Get i) (vals ns (chain ns (Some a)))))"
| "due ns (GetWalk a k) = Some (Got (value_of (ns ! (chain ns (Some a) ! k))))"
| "due ns (SizeDepth a) = Some (Count (node_depth (ns ! a)))"
| "due ns (SnapWalk p as) = Some (Values (vals ns (rev (chain ns p) @ as)))"
| "due ns (SnapCopy as vs) = Some (Values (vs @ vals ns as))"
| "due ns _ = None"

text \<open>The operation of a thread that has not taken effect.\<close>

fun yet :: "'v node list \<Rightarrow> 'v task \<Rightarrow> 'v op" where
  "yet ns (PushLoad n) = Push (value_of (ns ! n))"
| "yet ns (PushWrite n p) = Push (value_of (ns ! n))"
| "yet ns (PushSwap n p) = Push (value_of (ns ! n))"
| "yet ns (GetLoad i) = Get i"
| "yet ns SizeLoad = Size"
| "yet ns SnapLoad = Snapshot"
| "yet ns _ = Pop"

definition log_fits :: "'v node list \<Rightarrow> 'v task \<Rightarrow> 'v op list \<Rightarrow> ('v op \<times> 'v outcome) list \<Rightarrow> bool" where
  "log_fits ns k ops es \<longleftrightarrow> (case due ns k of
     None \<Rightarrow> ops = map fst es @ [yet ns k]
   | Some r \<Rightarrow> ops = map fst es \<and> (es \<noteq> [] \<longrightarrow> snd (last es) = r))"

definition log_ok :: "'v stack \<Rightarrow> bool" where
  "log_ok s \<longleftrightarrow> replay spec (log s) [] = Some (contents s) \<and> (\<forall>t. log_fits (nodes s) (tasks s t) (begun s t) (own_log t (log s)))"

lemma other_log_fits:
  assumes ok: "stack_ok s" and step: "stack_step a t s = Some (r, s')" and u: "u \<noteq> t"
  shows "log_fits (nodes s') (tasks s u) ops es = log_fits (nodes s) (tasks s u) ops es"
proof -
  note f = stack_okD(3) [OF ok, of u]
  have gp: "good_chain (nodes s) (published s) p" if "p \<in> pointers (tasks s u)" for p using f that by (simp add: task_fits_def)
  have g: "chain (nodes s') p = chain (nodes s) p" if "p \<in> pointers (tasks s u)" for p
    by (rule published_keeps(1) [OF ok step gp [OF that]])
  have n: "nodes s' ! x = nodes s ! x" if "x \<in> published s" for x
    by (rule published_keeps(2) [OF ok step good_chain_None(1) that])
  have c: "vals (nodes s') (chain (nodes s) p) = vals (nodes s) (chain (nodes s) p)" if "p \<in> pointers (tasks s u)" for p
    using gp [OF that] n by (auto simp: good_chain_def subset_iff)
  have w: "value_of (nodes s' ! n) = value_of (nodes s ! n)" if "n < length (nodes s)" for n
    using step ok
  proof (cases rule: step_cases)
    case (wrote m q)
    then show ?thesis using step by (cases "m = n") (auto simp: push_step_def plain_def that)
  qed (use step that in \<open>auto simp: push_step_def pop_step_def pop_retire_def plain_def nth_append split: if_splits\<close>)
  have d: "x \<in> published s" if "Some x \<in> pointers (tasks s u)" for x
    using gp [OF that] by (simp add: good_chain_Some)
  have "due (nodes s') (tasks s u) = due (nodes s) (tasks s u)"
  proof (cases "tasks s u")
    case (GetWalk x k)
    then have "chain (nodes s) (Some x) ! k \<in> published s" using f gp [of "Some x"] by (auto simp: task_fits_def good_chain_def)
    then show ?thesis using n g GetWalk by simp
  next
    case (SnapWalk p as)
    then have "vals (nodes s') as = vals (nodes s) as" using n d by auto
    then show ?thesis using SnapWalk g c [of p] by (simp add: rev_map [symmetric])
  next
    case (GetDepth i x)
    then have "vals (nodes s') (chain (nodes s') (Some x)) = vals (nodes s) (chain (nodes s) (Some x))"
      using c [of "Some x"] g [of "Some x"] by (simp only: pointers.simps singletonI)
    then show ?thesis by (simp only: due.simps GetDepth)
  next
    case (SnapCopy as vs)
    then show ?thesis using n d by auto
  qed (use f g n c d in \<open>simp_all\<close>)
  moreover have "yet (nodes s') (tasks s u) = yet (nodes s) (tasks s u)"
    using f w by (cases "tasks s u") (auto simp: task_fits_def)
  ultimately show ?thesis by (simp add: log_fits_def split: option.splits)
qed

lemma same_log:
  assumes "log_ok s" "stack_ok s" "stack_step a t s = Some (r, s')"
    and "log s' = log s" "contents s' = contents s" "\<And>u. u \<noteq> t \<Longrightarrow> tasks s' u = tasks s u \<and> begun s' u = begun s u"
    and "log_fits (nodes s') (tasks s' t) (begun s' t) (own_log t (log s))"
  shows "log_ok s'"
  unfolding log_ok_def assms(4,5)
proof (intro conjI allI)
  fix u
  show "log_fits (nodes s') (tasks s' u) (begun s' u) (own_log u (log s))"
    using assms(1,6,7) other_log_fits [OF assms(2,3)] by (cases "u = t") (auto simp: log_ok_def)
qed (use assms(1) in \<open>simp add: log_ok_def\<close>)

lemma new_effect:
  assumes "log_ok s" "stack_ok s" "stack_step a t s = Some (r, s')"
    and "log s' = log s @ [(t, op, fst (spec op (contents s)))]" "contents s' = snd (spec op (contents s))"
    and "\<And>u. u \<noteq> t \<Longrightarrow> tasks s' u = tasks s u" "begun s' = begun s"
    and "due (nodes s) (tasks s t) = None" "yet (nodes s) (tasks s t) = op" "due (nodes s') (tasks s' t) = Some (fst (spec op (contents s)))"
  shows "log_ok s'"
  unfolding log_ok_def assms(4,5)
proof (intro conjI allI)
  show "replay spec (log s @ [(t, op, fst (spec op (contents s)))]) [] = Some (snd (spec op (contents s)))"
    using assms(1) by (simp add: log_ok_def replay_append)
  fix u
  show "log_fits (nodes s') (tasks s' u) (begun s' u) (own_log u (log s @ [(t, op, fst (spec op (contents s)))]))"
  proof (cases "u = t")
    case True
    have "log_fits (nodes s) (tasks s t) (begun s t) (own_log t (log s))" using assms(1) by (simp add: log_ok_def)
    then have "begun s t = map fst (own_log t (log s)) @ [op]" using assms(8,9) by (simp add: log_fits_def)
    then show ?thesis using assms(7,10) True by (simp add: log_fits_def)
  next
    case False
    then show ?thesis using assms(1,6,7) other_log_fits [OF assms(2,3)] by (auto simp: log_ok_def)
  qed
qed


lemma same_contents:
  assumes ok: "stack_ok s" and step: "stack_step a t s = Some (r, s')" and "top s' = top s"
  shows "contents s' = contents s"
proof -
  note g = stack_okD(1) [OF ok]
  have "nodes s' ! x = nodes s ! x" if "x \<in> set (chain (nodes s) (top s))" for x
    using published_keeps(2) [OF ok step g] g that by (auto simp: good_chain_def)
  then show ?thesis using published_keeps(1) [OF ok step g] assms(3) by (simp add: contents_def)
qed

lemma quiet_log:
  assumes l: "log_ok s" and ok: "stack_ok s" and step: "stack_step a t s = Some (r, s')"
    and s': "log s' = log s" "top s' = top s" "tasks s' = (tasks s)(t := k)" "begun s' = begun s"
    and k: "due (nodes s') k = due (nodes s) (tasks s t)" "due (nodes s) (tasks s t) = None \<Longrightarrow> yet (nodes s') k = yet (nodes s) (tasks s t)"
  shows "log_ok s'"
proof (rule same_log [OF l ok step s'(1) same_contents [OF ok step s'(2)]])
  have "log_fits (nodes s) (tasks s t) (begun s t) (own_log t (log s))" using l by (simp add: log_ok_def)
  then show "log_fits (nodes s') (tasks s' t) (begun s' t) (own_log t (log s))"
    using k by (auto simp: log_fits_def s'(3,4) split: option.splits)
qed (simp_all add: s')

lemma logged: "log (effect t op s) = log s @ [(t, op, fst (spec op (contents s)))]"
  by (simp add: effect_def)

lemma contents_goto [simp]: "contents (goto t k s) = contents s" "contents (effect t op s) = contents s"
  by (simp_all add: contents_def)

lemma empty_contents: "top s = None \<Longrightarrow> contents s = []"
  by (simp add: contents_def)

lemma top_contents:
  assumes "stack_ok s" "top s = Some x"
  shows "contents s = value_of (nodes s ! x) # vals (nodes s) (chain (nodes s) (next_node (nodes s ! x)))"
    "vals (nodes s) (chain (nodes s) (Some x)) = contents s" "node_depth (nodes s ! x) = length (contents s)"
  using stack_okD(1) [OF assms(1)] assms(2) by (auto simp: contents_def good_chain_Some chain_Some)

lemma log_step_ok:
  assumes l: "log_ok s" and ok: "stack_ok s" and step: "stack_step a t s = Some (r, s')"
  shows "log_ok s'"
proof -
  note quiet = quiet_log [OF l ok step] and new = new_effect [OF l ok step]
  note f = stack_okD(3) [OF ok, of t] and g = stack_okD(1) [OF ok]
  have tr: "contents s' = contents s" if "top s' = top s" by (rule same_contents [OF ok step that])
  show ?thesis
  proof (cases a)
    case (Begin op)
    obtain x where x: "tasks s t = Done x" using step Begin by (auto split: if_splits task.splits)
    have lf: "log_fits (nodes s) (tasks s t) (begun s t) (own_log t (log s))" using l by (simp add: log_ok_def)
    show ?thesis
      by (rule same_log [OF l ok step]) (use step Begin x lf tr in \<open>cases op; auto simp: log_fits_def\<close>)+
  next
    case PushStep
    show ?thesis
    proof (cases "tasks s t")
      case (PushLoad n)
      then show ?thesis using step PushStep by (intro quiet [where k = "PushWrite n (top s)"]) (auto simp: push_step_def plain_def)
    next
      case (PushWrite n p)
      then show ?thesis using step PushStep f by (intro quiet [where k = "PushSwap n p"]) (auto simp: push_step_def plain_def task_fits_def)
    next
      case (PushSwap n p)
      show ?thesis
      proof (cases "top s = p")
        case True
        have s': "s' = goto t (Done Pushed) (effect t (Push (value_of (nodes s ! n))) s\<lparr>top := Some n\<rparr>)"
          using step PushStep PushSwap True by (simp add: push_step_def plain_def)
        have "chain (nodes s') (top s') = n # chain (nodes s) (top s)"
          using push_swap_ok [OF ok, of t n s'] PushSwap True by (simp add: s')
        then show ?thesis by (intro new [where op = "Push (value_of (nodes s ! n))"])
          (auto simp: s' logged contents_def PushSwap)
      next
        case False
        then show ?thesis using PushSwap step PushStep by (intro quiet [where k = "PushLoad n"]) (auto simp: push_step_def plain_def)
      qed
    qed (use step PushStep in \<open>auto simp: push_step_def plain_def\<close>)
  next
    case PopStep
    show ?thesis
    proof (cases "tasks s t")
      case PopLoad
      show ?thesis
      proof (cases "top s")
        case None
        then have s': "s' = goto t (Done Nothing) (effect t Pop s)" using step PopStep PopLoad by (simp add: pop_step_def plain_def)
        show ?thesis by (intro new [where op = Pop]) (auto simp: s' logged PopLoad empty_contents [OF None])
      next
        case (Some x)
        then show ?thesis using PopLoad step PopStep by (intro quiet [where k = "PopNext x"]) (auto simp: pop_step_def plain_def)
      qed
    next
      case (PopNext x)
      then show ?thesis using step PopStep by (intro quiet [where k = "PopSwap x (next_node (nodes s ! x))"]) (auto simp: pop_step_def plain_def)
    next
      case (PopSwap x p)
      show ?thesis
      proof (cases "top s = Some x")
        case True
        have s': "s' = goto t (PopCopy x) (effect t Pop s\<lparr>top := p\<rparr>)" using step PopStep PopSwap True by (simp add: pop_step_def plain_def)
        have p: "p = next_node (nodes s ! x)" using f PopSwap by (simp add: task_fits_def)
        have "contents (effect t Pop s\<lparr>top := p\<rparr>) = vals (nodes s) (chain (nodes s) (next_node (nodes s ! x)))" by (simp add: contents_def p)
        then show ?thesis by (intro new [where op = Pop]) (auto simp: s' logged PopSwap top_contents(1) [OF ok True])
      next
        case False
        then show ?thesis using PopSwap step PopStep by (intro quiet [where k = PopLoad]) (auto simp: pop_step_def plain_def)
      qed
    next
      case (PopCopy x)
      then show ?thesis using step PopStep by (intro quiet [where k = "PopRetire x (value_of (nodes s ! x))"]) (auto simp: pop_step_def plain_def)
    qed (use step PopStep in \<open>auto simp: pop_step_def plain_def\<close>)
  next
    case RetireStep
    then obtain x v where x: "tasks s t = PopRetire x v" "s' = goto t (Done (Popped v)) s\<lparr>dropped := x # dropped s\<rparr>"
      using step by (auto simp: pop_retire_def split: task.splits)
    then show ?thesis by (intro quiet [where k = "Done (Popped v)"]) auto
  next
    case GetStep
    show ?thesis
    proof (cases "tasks s t")
      case (GetLoad i)
      show ?thesis
      proof (cases "top s")
        case None
        then have s': "s' = goto t (Done Absent) (effect t (Get i) s)" using step GetStep GetLoad by (simp add: get_step_def plain_def)
        show ?thesis by (intro new [where op = "Get i"]) (auto simp: s' logged GetLoad empty_contents [OF None] position_def)
      next
        case (Some x)
        then have s': "s' = goto t (GetDepth i x) (effect t (Get i) s)" using step GetStep GetLoad by (simp add: get_step_def plain_def)
        have "vals (nodes s) (chain (nodes s) (Some x)) = contents s" by (rule top_contents(2) [OF ok Some])
        then show ?thesis by (intro new [where op = "Get i"]) (simp_all only: s' logged GetLoad due.simps yet.simps goto_sel fun_upd_same contents_goto, auto)
      qed
    next
      case (GetDepth i x)
      then have gx: "good_chain (nodes s) (published s) (Some x)" using f by (simp add: task_fits_def)
      then have d: "node_depth (nodes s ! x) = length (chain (nodes s) (Some x))" using good_chain_depth by (fastforce simp: depth_at_def)
      show ?thesis
      proof (cases "position i (node_depth (nodes s ! x))")
        case None
        then show ?thesis using GetDepth step GetStep d by (intro quiet [where k = "Done Absent"]) (auto simp: get_step_def plain_def)
      next
        case (Some k)
        then have k: "k < length (chain (nodes s) (Some x))" by (auto simp: d position_def Let_def split: if_splits)
        then have "rev (vals (nodes s) (chain (nodes s) (Some x))) ! k =
            value_of (nodes s ! (chain (nodes s) (Some x) ! (length (chain (nodes s) (Some x)) - Suc k)))"
          by (simp add: rev_nth)
        then show ?thesis using GetDepth step GetStep d Some
          by (intro quiet [where k = "GetWalk x (node_depth (nodes s ! x) - 1 - k)"]) (auto simp: get_step_def plain_def)
      qed
    next
      case (GetWalk x k)
      then have gx: "good_chain (nodes s) (published s) (Some x)" using f by (simp add: task_fits_def)
      show ?thesis
      proof (cases k)
        case 0
        then show ?thesis using GetWalk step GetStep chain_Some [OF gx]
          by (intro quiet [where k = "Done (Got (value_of (nodes s ! x)))"]) (auto simp: get_step_def plain_def)
      next
        case (Suc j)
        then obtain b where b: "next_node (nodes s ! x) = Some b" using GetWalk step GetStep by (auto simp: get_step_def plain_def split: option.splits)
        then show ?thesis using GetWalk step GetStep Suc chain_Some [OF gx]
          by (intro quiet [where k = "GetWalk b j"]) (auto simp: get_step_def plain_def)
      qed
    qed (use step GetStep in \<open>auto simp: get_step_def plain_def\<close>)
  next
    case SizeStep
    show ?thesis
    proof (cases "tasks s t")
      case SizeLoad
      show ?thesis
      proof (cases "top s")
        case None
        then have s': "s' = goto t (Done (Count 0)) (effect t Size s)" using step SizeStep SizeLoad by (simp add: size_step_def plain_def)
        show ?thesis by (intro new [where op = Size]) (auto simp: s' logged SizeLoad empty_contents [OF None])
      next
        case (Some x)
        then have s': "s' = goto t (SizeDepth x) (effect t Size s)" using step SizeStep SizeLoad by (simp add: size_step_def plain_def)
        show ?thesis by (intro new [where op = Size]) (auto simp: s' logged SizeLoad top_contents(3) [OF ok Some])
      qed
    next
      case (SizeDepth x)
      then show ?thesis using step SizeStep by (intro quiet [where k = "Done (Count (node_depth (nodes s ! x)))"]) (auto simp: size_step_def plain_def)
    qed (use step SizeStep in \<open>auto simp: size_step_def plain_def\<close>)
  next
    case SnapshotStep
    show ?thesis
    proof (cases "tasks s t")
      case SnapLoad
      then have s': "s' = goto t (SnapWalk (top s) []) (effect t Snapshot s)" using step SnapshotStep by (simp add: snapshot_step_def plain_def)
      show ?thesis by (intro new [where op = Snapshot]) (auto simp: s' logged SnapLoad contents_def rev_map)
    next
      case (SnapWalk p as)
      show ?thesis
      proof (cases p)
        case None
        then show ?thesis using SnapWalk step SnapshotStep by (intro quiet [where k = "SnapCopy as []"]) (auto simp: snapshot_step_def plain_def)
      next
        case (Some x)
        then have "good_chain (nodes s) (published s) (Some x)" using f SnapWalk by (auto simp: task_fits_def)
        from chain_Some [OF this] show ?thesis using SnapWalk step SnapshotStep Some
          by (intro quiet [where k = "SnapWalk (next_node (nodes s ! x)) (x # as)"]) (auto simp: snapshot_step_def plain_def)
      qed
    next
      case (SnapCopy as vs)
      show ?thesis
      proof (cases as)
        case Nil
        then show ?thesis using SnapCopy step SnapshotStep by (intro quiet [where k = "Done (Values vs)"]) (auto simp: snapshot_step_def plain_def)
      next
        case (Cons x xs)
        then show ?thesis using SnapCopy step SnapshotStep
          by (intro quiet [where k = "SnapCopy xs (vs @ [value_of (nodes s ! x)])"]) (auto simp: snapshot_step_def plain_def)
      qed
    qed (use step SnapshotStep in \<open>auto simp: snapshot_step_def plain_def\<close>)
  next
    case WeakFailure
    show ?thesis
    proof (cases "tasks s t")
      case (PushSwap n p)
      then show ?thesis using step WeakFailure by (intro quiet [where k = "PushLoad n"]) (auto simp: weak_failure_def plain_def)
    next
      case (PopSwap x p)
      then show ?thesis using step WeakFailure by (intro quiet [where k = PopLoad]) (auto simp: weak_failure_def plain_def)
    qed (use step WeakFailure in \<open>auto simp: weak_failure_def plain_def\<close>)
  qed
qed


lemma new_stack_ok: "stack_ok new_stack" "log_ok new_stack" "busy new_stack t = False"
  by (simp_all add: stack_ok_def log_ok_def new_stack_def published_def task_fits_def contents_def log_fits_def own_log_def)

lemma stack_run_ok: "stack_run as s = Some s' \<Longrightarrow> stack_ok s \<Longrightarrow> log_ok s \<Longrightarrow> stack_ok s' \<and> log_ok s'"
proof (induction as arbitrary: s)
  case (Cons b as)
  then show ?case using stack_step_ok [of s "fst b" "snd b"] log_step_ok [of s "fst b" "snd b"]
    by (cases b) (auto split: option.splits)
qed simp

text \<open>C16: The stack is linearizable: the operations of all the threads, in the order in which they took effect, have the
  outcomes they have on a list of values one after the other and leave the values that the nodes from the top hold; each
  operation a thread began took effect once, in the order of the thread, before it returned, and it returned that outcome.\<close>

theorem stack_is_linearizable:
  assumes "stack_run as new_stack = Some s"
  shows "replay spec (log s) [] = Some (contents s) \<and>
    (\<forall>t r. tasks s t = Done r \<longrightarrow> begun s t = map fst (own_log t (log s)) \<and> (begun s t \<noteq> [] \<longrightarrow> snd (last (own_log t (log s))) = r)) \<and>
    (\<forall>t. begun s t = map fst (own_log t (log s)) \<or> (\<exists>op. begun s t = map fst (own_log t (log s)) @ [op]))"
proof -
  have l: "log_ok s" using stack_run_ok [OF assms new_stack_ok(1,2)] by simp
  then have f: "log_fits (nodes s) (tasks s t) (begun s t) (own_log t (log s))" for t by (simp add: log_ok_def)
  have "begun s t = map fst (own_log t (log s)) \<and> (begun s t \<noteq> [] \<longrightarrow> snd (last (own_log t (log s))) = r)" if "tasks s t = Done r" for t r
    using f [of t] that by (auto simp: log_fits_def)
  moreover have "begun s t = map fst (own_log t (log s)) \<or> (\<exists>op. begun s t = map fst (own_log t (log s)) @ [op])" for t
    using f [of t] by (auto simp: log_fits_def split: option.splits)
  ultimately show ?thesis using l by (auto simp: log_ok_def)
qed

text \<open>A thread pushes while another pops: the pop that looked at the old top starts again.\<close>

definition sample_run :: "(nat stack_action \<times> nat) list" where
  "sample_run = [(Begin (Push 1), 0), (PushStep, 0), (PushStep, 0), (PushStep, 0), (Begin Pop, 1), (PopStep, 1), (PopStep, 1),
     (Begin (Push 2), 0), (PushStep, 0), (PushStep, 0), (PushStep, 0), (PopStep, 1), (PopStep, 1), (PopStep, 1), (PopStep, 1),
     (PopStep, 1), (RetireStep, 1)]"

lemma sample_runs: "\<exists>s. stack_run sample_run new_stack = Some s \<and> tasks s 1 = Done (Popped 2)"
  by (simp add: sample_run_def new_stack_def stack_defs depth_at_def)

theorem stack_is_linearizable_witness: "\<exists>s. stack_run sample_run new_stack = Some s \<and> replay spec (log s) [] = Some (contents s) \<and>
  snd (last (own_log 1 (log s))) = Popped 2"
proof -
  obtain s where s: "stack_run sample_run new_stack = Some s" "tasks s 1 = Done (Popped 2)" using sample_runs by blast
  have "begun s 1 \<noteq> []" using s(1) by (auto simp: sample_run_def new_stack_def stack_defs depth_at_def)
  then show ?thesis using stack_is_linearizable [OF s(1)] s by blast
qed

text \<open>C17: With the reclamation the stack frees nothing that is in use: in every run of the threads, a node that a thread in
  the middle of an operation may still read or compare with the top has not been freed, and the thread is pinned.\<close>

theorem stack_frees_nothing_in_use:
  assumes "joint_acts stack_step busy as (new_stack, new_epochs) = Some (s, e)" "x \<in> holds s t"
  shows "Inl x \<notin> set (freed e) \<and> is_pinned (part e t)"
  using reclaimed_stack.held_is_not_freed [OF new_stack_ok(1) _ assms] reclaimed_stack.idle [OF new_stack_ok(1)] new_stack_ok(3) by blast

text \<open>Thread 1 has loaded the top when thread 0 pops that node and retires it.\<close>

definition retired_under_a_reader :: "((nat stack_action, nat) joint_action \<times> nat) list" where
  "retired_under_a_reader = [(Reclaim Register, 0), (Reclaim Register, 1), (Reclaim PinLoad, 0), (Reclaim PinStore, 0),
     (Client (Begin (Push 7)), 0), (Client PushStep, 0), (Client PushStep, 0), (Client PushStep, 0), (Reclaim PinLoad, 1),
     (Reclaim PinStore, 1), (Client (Begin Pop), 1), (Client PopStep, 1), (Client (Begin Pop), 0), (Client PopStep, 0),
     (Client PopStep, 0), (Client PopStep, 0), (Client PopStep, 0), (Client RetireStep, 0), (Reclaim RetirePush, 0),
     (Reclaim Unpin, 0), (Reclaim CollectBegin, 0)]"

lemma retired_under_a_reader: "\<exists>s e. joint_acts stack_step busy retired_under_a_reader (new_stack, new_epochs) = Some (s, e) \<and>
    holds s 1 = {0} \<and> retired e = [Inl 0]"
  by (simp add: retired_under_a_reader_def new_stack_def stack_defs depth_at_def run_simps holds_def chain_def)

theorem stack_frees_nothing_in_use_witness:
  "\<exists>s e. joint_acts stack_step busy retired_under_a_reader (new_stack, new_epochs) = Some (s, e) \<and> retired e = [Inl 0] \<and>
    Inl 0 \<notin> set (freed e) \<and> is_pinned (part e 1)"
proof -
  obtain s e where r: "joint_acts stack_step busy retired_under_a_reader (new_stack, new_epochs) = Some (s, e)"
    "holds s 1 = {0}" "retired e = [Inl 0]" using retired_under_a_reader by blast
  have "Inl 0 \<notin> set (freed e) \<and> is_pinned (part e 1)" by (rule stack_frees_nothing_in_use [OF r(1)]) (simp add: r(2) del: One_nat_def)
  then show ?thesis using r by blast
qed

text \<open>C22: No operation gets stuck: a thread in the middle of one has a step, and the walks of \<open>get\<close> stay within the nodes.\<close>

theorem stack_never_stuck:
  assumes "stack_run as new_stack = Some s" "busy s t"
  shows "\<exists>a r s'. a \<noteq> WeakFailure \<and> stack_step a t s = Some (r, s')"
proof -
  have ok: "stack_ok s" using stack_run_ok [OF assms(1) new_stack_ok(1,2)] by simp
  note f = stack_okD(3) [OF ok, of t]
  have s: "a \<noteq> WeakFailure \<Longrightarrow> stack_step a t s \<noteq> None \<Longrightarrow> ?thesis" for a by (metis not_None_eq surj_pair)
  show ?thesis
  proof (cases "tasks s t")
    case (GetWalk x k)
    then have "good_chain (nodes s) (published s) (Some x)" "k < length (chain (nodes s) (Some x))" using f by (auto simp: task_fits_def)
    moreover have "next_node (nodes s ! x) \<noteq> None" if "1 < length (chain (nodes s) (Some x))"
      using that chain_Some [OF calculation(1)] by (cases "next_node (nodes s ! x)") auto
    ultimately show ?thesis using GetWalk by (intro s [of GetStep]) (cases k; auto simp: get_step_def plain_def split: option.splits)+
  next
    case (SnapWalk p as)
    then show ?thesis by (intro s [of SnapshotStep]) (cases p; auto simp: snapshot_step_def plain_def)+
  next
    case (SnapCopy as vs)
    then show ?thesis by (intro s [of SnapshotStep]) (cases as; auto simp: snapshot_step_def plain_def)+
  qed (use assms(2) in \<open>auto intro: s [of PushStep] s [of PopStep] s [of RetireStep] s [of GetStep] s [of SizeStep] s [of SnapshotStep]
      simp: push_step_def pop_step_def pop_retire_def get_step_def size_step_def snapshot_step_def plain_def split: option.splits\<close>)
qed

theorem stack_never_stuck_witness:
  "\<exists>s. stack_run (take 6 sample_run) new_stack = Some s \<and> (\<exists>a r s'. a \<noteq> WeakFailure \<and> stack_step a 1 s = Some (r, s'))"
proof -
  obtain s where s: "stack_run (take 6 sample_run) new_stack = Some s" "busy s 1"
    by (auto simp: sample_run_def new_stack_def stack_defs depth_at_def)
  then show ?thesis using stack_never_stuck [OF s] by blast
qed

end
