(* ===== verification/SharedQueue.thy ===== *)
theory SharedQueue
  imports Epochs Linearizable
begin

text \<open>
  The queue of \<^verbatim>\<open>std.sync\<close>, \<open>SharedQueue\<close> in \<^verbatim>\<open>crates/tondo-runtime/src/shared.rs\<close>, a list of segments: its operations as
  steps of the threads, one for each access to what they share, in the order of a sequentially consistent memory. Pushes
  and pops are linearizable as first in, first out; what the operations that look at the queue return is a run of it, not
  always of one instant; and the reclamation does not cover it, since a segment may be retired while the tail points to it.
  References counted by the values are left out.
\<close>

subsection \<open>The queue and its operations\<close>

text \<open>A slot is \<open>Some\<close> value once it is filled.\<close>

record 'v segment =
  head :: nat
  tail :: nat
  next_segment :: "nat option"
  capacity :: nat
  base :: nat
  slots :: "'v option list"

definition FIRST_SEGMENT :: nat where "FIRST_SEGMENT = 32"
definition LARGEST_SEGMENT :: nat where "LARGEST_SEGMENT = 1024"

definition new_segment :: "nat \<Rightarrow> nat \<Rightarrow> 'v segment" where
  "new_segment n b = \<lparr>head = 0, tail = 0, next_segment = None, capacity = n, base = b, slots = replicate n None\<rparr>"

text \<open>\<open>reserved\<close>, the positions reserved in a segment.\<close>

definition reserved :: "'v segment \<Rightarrow> nat" where
  "reserved g = min (tail g) (capacity g)"

text \<open>Where a thread stands: a push, a pop, and the operations that look at the queue, with what \<open>bounds\<close> has loaded.\<close>

datatype 'v task = Done "'v outcome"
  | PushStart 'v | PushReserve 'v nat | PushFill 'v nat nat | PushNext 'v nat | PushLink 'v nat | PushMove 'v nat nat
  | PopStart | PopHead nat | PopPos nat nat | PopWait nat nat | PopTake nat nat | PopCopy nat nat | PopMove nat nat | PopRetire nat
  | BoundsStart "'v op" | BoundsHead "'v op" nat | BoundsTail "'v op" nat nat | BoundsEnd "'v op" nat nat nat
  | BoundsCheck "'v op" nat nat nat nat | BoundsAgain "'v op" nat nat nat nat
  | GetAt nat nat | SnapAt nat nat nat nat "'v list"

text \<open>Segments are numbered as they are linked, which is the order of the queue. \<open>pushed\<close> lists the values in the order of
  their positions, \<open>begun\<close> and \<open>log\<close> the pushes and pops begun by each thread and those that took effect, and \<open>asked\<close> the
  positions of head and tail when a thread began its operation: these are history.\<close>

record 'v queue =
  qhead :: nat
  qtail :: nat
  segments :: "'v segment list"
  tasks :: "nat \<Rightarrow> 'v task"
  dropped :: "nat list"
  pushed :: "'v list"
  begun :: "nat \<Rightarrow> 'v op list"
  log :: "(nat \<times> 'v op \<times> 'v outcome) list"
  asked :: "nat \<Rightarrow> nat \<times> nat"

definition new_queue :: "'v queue" where
  "new_queue = \<lparr>qhead = 0, qtail = 0, segments = [new_segment FIRST_SEGMENT 0], tasks = (\<lambda>_. Done Absent), dropped = [],
     pushed = [], begun = (\<lambda>_. []), log = [], asked = (\<lambda>_. (0, 0))\<rparr>"

abbreviation seg :: "'v queue \<Rightarrow> nat \<Rightarrow> 'v segment" where
  "seg q p \<equiv> segments q ! p"

definition goto :: "nat \<Rightarrow> 'v task \<Rightarrow> 'v queue \<Rightarrow> 'v queue" where
  "goto t k q = q\<lparr>tasks := (tasks q)(t := k)\<rparr>"

definition set_seg :: "nat \<Rightarrow> 'v segment \<Rightarrow> 'v queue \<Rightarrow> 'v queue" where
  "set_seg p g q = q\<lparr>segments := (segments q)[p := g]\<rparr>"

definition effect :: "nat \<Rightarrow> 'v op \<Rightarrow> 'v outcome \<Rightarrow> 'v queue \<Rightarrow> 'v queue" where
  "effect t op r q = q\<lparr>log := log q @ [(t, op, r)]\<rparr>"

text \<open>The position at the head, and the values from there on.\<close>

definition front :: "'v queue \<Rightarrow> nat" where
  "front q = base (seg q (qhead q)) + head (seg q (qhead q))"

definition contents :: "'v queue \<Rightarrow> 'v list" where
  "contents q = drop (front q) (pushed q)"

fun begin_task :: "'v op \<Rightarrow> 'v task" where
  "begin_task (Push v) = PushStart v"
| "begin_task Pop = PopStart"
| "begin_task op = BoundsStart op"

fun changes :: "'v op \<Rightarrow> bool" where
  "changes (Push v) = True"
| "changes Pop = True"
| "changes _ = False"

definition begin_op :: "'v op \<Rightarrow> nat \<Rightarrow> 'v queue \<Rightarrow> 'v queue" where
  "begin_op op t q = goto t (begin_task op) (q\<lparr>asked := (asked q)(t := (front q, length (pushed q))),
     begun := (if changes op then (begun q)(t := begun q t @ [op]) else begun q)\<rparr>)"

text \<open>A segment that loses the race to be linked is freed before any other thread sees it.\<close>

definition push_step :: "nat \<Rightarrow> 'v queue \<Rightarrow> 'v queue option" where
  "push_step t q =
     (case tasks q t of
        PushStart v \<Rightarrow> Some (goto t (PushReserve v (qtail q)) q)
      | PushReserve v p \<Rightarrow>
          (let g = seg q p; q = set_seg p (g\<lparr>tail := tail g + 1\<rparr>) q in
           if tail g < capacity g then Some (goto t (PushFill v p (tail g)) (effect t (Push v) Pushed q\<lparr>pushed := pushed q @ [v]\<rparr>))
           else Some (goto t (PushNext v p) q))
      | PushFill v p i \<Rightarrow>
          (let g = seg q p in Some (goto t (Done Pushed) (set_seg p (g\<lparr>slots := (slots g)[i := Some v]\<rparr>) q)))
      | PushNext v p \<Rightarrow>
          (case next_segment (seg q p) of None \<Rightarrow> Some (goto t (PushLink v p) q) | Some n \<Rightarrow> Some (goto t (PushMove v p n) q))
      | PushLink v p \<Rightarrow>
          (let g = seg q p in
           case next_segment g of
             None \<Rightarrow>
               let n = length (segments q) in
               Some (goto t (PushMove v p n) (q\<lparr>segments := (segments q)[p := g\<lparr>next_segment := Some n\<rparr>]
                 @ [new_segment (min (capacity g * 2) LARGEST_SEGMENT) (base g + capacity g)]\<rparr>))
           | Some n \<Rightarrow> Some (goto t (PushMove v p n) q))
      | PushMove v p n \<Rightarrow> Some (goto t (PushStart v) (if qtail q = p then q\<lparr>qtail := n\<rparr> else q))
      | _ \<Rightarrow> None)"

text \<open>A pop waits for the slot to be filled: until then it has no step.\<close>

definition pop_step :: "nat \<Rightarrow> 'v queue \<Rightarrow> 'v queue option" where
  "pop_step t q =
     (case tasks q t of
        PopStart \<Rightarrow> Some (goto t (PopHead (qhead q)) q)
      | PopHead p \<Rightarrow> Some (goto t (PopPos p (head (seg q p))) q)
      | PopPos p i \<Rightarrow>
          if i \<ge> capacity (seg q p) then
            (case next_segment (seg q p) of
               None \<Rightarrow> Some (goto t (Done Nothing) (effect t Pop Nothing q))
             | Some n \<Rightarrow> Some (goto t (PopMove p n) q))
          else if i \<ge> tail (seg q p) then Some (goto t (Done Nothing) (effect t Pop Nothing q))
          else Some (goto t (PopWait p i) q)
      | PopWait p i \<Rightarrow> (case slots (seg q p) ! i of None \<Rightarrow> None | Some v \<Rightarrow> Some (goto t (PopTake p i) q))
      | PopTake p i \<Rightarrow>
          (let g = seg q p in
           if head g = i then Some (goto t (PopCopy p i) (effect t Pop (Popped (pushed q ! front q)) (set_seg p (g\<lparr>head := i + 1\<rparr>) q)))
           else Some (goto t PopStart q))
      | PopCopy p i \<Rightarrow> (case slots (seg q p) ! i of None \<Rightarrow> None | Some v \<Rightarrow> Some (goto t (Done (Popped v)) q))
      | PopMove p n \<Rightarrow> if qhead q = p then Some (goto t (PopRetire p) (q\<lparr>qhead := n\<rparr>)) else Some (goto t PopStart q)
      | _ \<Rightarrow> None)"

definition pop_retire :: "nat \<Rightarrow> 'v queue \<Rightarrow> (nat \<times> 'v queue) option" where
  "pop_retire t q = (case tasks q t of PopRetire p \<Rightarrow> Some (p, goto t PopStart q\<lparr>dropped := p # dropped q\<rparr>) | _ \<Rightarrow> None)"

text \<open>What an operation does with the bounds.\<close>

fun with_bounds :: "'v op \<Rightarrow> nat \<Rightarrow> nat \<Rightarrow> nat \<Rightarrow> 'v task" where
  "with_bounds (Get i) p start stop = (case position i (stop - start) of None \<Rightarrow> Done Absent | Some k \<Rightarrow> GetAt p (start + k))"
| "with_bounds Snapshot p start stop = SnapAt p start start stop []"
| "with_bounds _ p start stop = Done (Count (stop - start))"

definition bounds_step :: "nat \<Rightarrow> 'v queue \<Rightarrow> 'v queue option" where
  "bounds_step t q =
     (case tasks q t of
        BoundsStart op \<Rightarrow> Some (goto t (BoundsHead op (qhead q)) q)
      | BoundsHead op h \<Rightarrow> Some (goto t (BoundsTail op h (qtail q)) q)
      | BoundsTail op h l \<Rightarrow> Some (goto t (BoundsEnd op h l (base (seg q h) + min (head (seg q h)) (capacity (seg q h)))) q)
      | BoundsEnd op h l start \<Rightarrow> Some (goto t (BoundsCheck op h l start (base (seg q l) + reserved (seg q l))) q)
      | BoundsCheck op h l start stop \<Rightarrow>
          if qhead q = h then Some (goto t (BoundsAgain op h l start stop) q) else Some (goto t (BoundsStart op) q)
      | BoundsAgain op h l start stop \<Rightarrow>
          if qtail q = l then Some (goto t (with_bounds op h start (max stop start)) q) else Some (goto t (BoundsStart op) q)
      | _ \<Rightarrow> None)"

text \<open>The steps of \<open>locate\<close> and the copies.\<close>

definition look_step :: "nat \<Rightarrow> 'v queue \<Rightarrow> 'v queue option" where
  "look_step t q =
     (case tasks q t of
        GetAt p i \<Rightarrow>
          if i < base (seg q p) + capacity (seg q p)
          then (case slots (seg q p) ! (i - base (seg q p)) of None \<Rightarrow> None | Some v \<Rightarrow> Some (goto t (Done (Got v)) q))
          else (case next_segment (seg q p) of None \<Rightarrow> None | Some n \<Rightarrow> Some (goto t (GetAt n i) q))
      | SnapAt p start i stop vs \<Rightarrow>
          if i \<ge> stop then Some (goto t (Done (Values vs)) q)
          else if i < base (seg q p) + capacity (seg q p)
          then (case slots (seg q p) ! (i - base (seg q p)) of None \<Rightarrow> None | Some v \<Rightarrow> Some (goto t (SnapAt p start (i + 1) stop (vs @ [v])) q))
          else (case next_segment (seg q p) of None \<Rightarrow> None | Some n \<Rightarrow> Some (goto t (SnapAt n start i stop vs) q))
      | _ \<Rightarrow> None)"

datatype 'v queue_action = Begin "'v op" | PushStep | PopStep | RetireStep | BoundsStep | LookStep

fun busy :: "'v queue \<Rightarrow> nat \<Rightarrow> bool" where
  "busy q t = (case tasks q t of Done r \<Rightarrow> False | _ \<Rightarrow> True)"

definition plain :: "'v queue option \<Rightarrow> (nat option \<times> 'v queue) option" where
  "plain = map_option (Pair None)"

fun queue_step :: "'v queue_action \<Rightarrow> nat \<Rightarrow> 'v queue \<Rightarrow> (nat option \<times> 'v queue) option" where
  "queue_step (Begin op) t q = (if busy q t then None else Some (None, begin_op op t q))"
| "queue_step PushStep t q = plain (push_step t q)"
| "queue_step PopStep t q = plain (pop_step t q)"
| "queue_step RetireStep t q = map_option (apfst Some) (pop_retire t q)"
| "queue_step BoundsStep t q = plain (bounds_step t q)"
| "queue_step LookStep t q = plain (look_step t q)"

fun queue_run :: "('v queue_action \<times> nat) list \<Rightarrow> 'v queue \<Rightarrow> 'v queue option" where
  "queue_run [] q = Some q"
| "queue_run ((a, t) # as) q = (case queue_step a t q of None \<Rightarrow> None | Some (r, q') \<Rightarrow> queue_run as q')"

lemmas queue_defs = push_step_def pop_step_def pop_retire_def bounds_step_def look_step_def plain_def goto_def set_seg_def effect_def begin_op_def

text \<open>The operations on the values from the head.\<close>

fun spec :: "'v op \<Rightarrow> 'v list \<Rightarrow> 'v outcome \<times> 'v list" where
  "spec (Push v) vs = (Pushed, vs @ [v])"
| "spec Pop [] = (Nothing, [])"
| "spec Pop (v # vs) = (Popped v, vs)"
| "spec (Get i) vs = (case position i (length vs) of None \<Rightarrow> Absent | Some k \<Rightarrow> Got (vs ! k), vs)"
| "spec Size vs = (Count (length vs), vs)"
| "spec Snapshot vs = (Values vs, vs)"

text \<open>The steps of a push and of a pop that nothing gets in the way of.\<close>

definition push_acts :: "'v \<Rightarrow> nat \<Rightarrow> ('v queue_action \<times> nat) list" where
  "push_acts v t = [(Begin (Push v), t), (PushStep, t), (PushStep, t), (PushStep, t)]"

definition pop_acts :: "nat \<Rightarrow> ('v queue_action \<times> nat) list" where
  "pop_acts t = (Begin Pop, t) # replicate 6 (PopStep, t)"

lemma replicate_6: "replicate 6 x = [x, x, x, x, x, x]" by (simp add: eval_nat_numeral)

subsection \<open>The invariant\<close>

text \<open>The segments before the head are used up, and those after the tail are new.\<close>

definition seg_fits :: "'v queue \<Rightarrow> nat \<Rightarrow> bool" where
  "seg_fits q i \<longleftrightarrow> (let g = seg q i in
     0 < capacity g \<and> length (slots g) = capacity g \<and>
     next_segment g = (if i + 1 < length (segments q) then Some (i + 1) else None) \<and>
     (i + 1 < length (segments q) \<longrightarrow> base (seg q (i + 1)) = base g + capacity g \<and> capacity g \<le> tail g) \<and>
     head g \<le> reserved g \<and> (qtail q < i \<longrightarrow> tail g = 0) \<and> (i < qhead q \<longrightarrow> head g = capacity g) \<and> (qhead q < i \<longrightarrow> head g = 0) \<and>
     (\<forall>j v. j < capacity g \<longrightarrow> slots g ! j = Some v \<longrightarrow> j < tail g \<and> v = pushed q ! (base g + j)))"

definition shared_ok :: "'v queue \<Rightarrow> bool" where
  "shared_ok q \<longleftrightarrow> qhead q < length (segments q) \<and> qtail q < length (segments q) \<and> length (segments q) \<le> qtail q + 2 \<and>
     base (seg q 0) = 0 \<and> length (pushed q) = base (seg q (qtail q)) + reserved (seg q (qtail q)) \<and>
     (\<forall>i<length (segments q). seg_fits q i)"

fun outcome_fits :: "'v queue \<Rightarrow> nat \<times> nat \<Rightarrow> 'v outcome \<Rightarrow> bool" where
  "outcome_fits q a (Values vs) = (\<exists>start stop. fst a \<le> start \<and> start \<le> front q \<and> snd a \<le> stop \<and> start \<le> stop \<and> stop \<le> length (pushed q) \<and>
     vs = map ((!) (pushed q)) [start..<stop])"
| "outcome_fits q a (Count n) = (\<exists>start stop. fst a \<le> start \<and> start \<le> front q \<and> snd a \<le> stop \<and> start \<le> stop \<and> stop \<le> length (pushed q) \<and>
     n = stop - start)"
| "outcome_fits q a (Got v) = (\<exists>i. fst a \<le> i \<and> i < length (pushed q) \<and> v = pushed q ! i)"
| "outcome_fits q a _ = True"

definition slot_full :: "'v queue \<Rightarrow> nat \<Rightarrow> nat \<Rightarrow> bool" where
  "slot_full q p i \<longleftrightarrow> i < capacity (seg q p) \<and> slots (seg q p) ! i \<noteq> None"

definition bounds_fit :: "'v queue \<Rightarrow> nat \<times> nat \<Rightarrow> nat \<Rightarrow> nat \<Rightarrow> bool" where
  "bounds_fit q a h start \<longleftrightarrow> h \<le> qhead q \<and> base (seg q h) \<le> start \<and> fst a \<le> start \<and> start \<le> front q"

fun task_fits :: "'v queue \<Rightarrow> nat \<times> nat \<Rightarrow> 'v task \<Rightarrow> bool" where
  "task_fits q a (Done r) = outcome_fits q a r"
| "task_fits q a (PushReserve v p) = (p \<le> qtail q)"
| "task_fits q a (PushFill v p i) = (p \<le> qtail q \<and> i < capacity (seg q p) \<and> i < tail (seg q p) \<and> slots (seg q p) ! i = None \<and>
     base (seg q p) + i < length (pushed q) \<and> v = pushed q ! (base (seg q p) + i))"
| "task_fits q a (PushNext v p) = (p \<le> qtail q \<and> capacity (seg q p) \<le> tail (seg q p))"
| "task_fits q a (PushLink v p) = (p \<le> qtail q \<and> capacity (seg q p) \<le> tail (seg q p))"
| "task_fits q a (PushMove v p n) = (p \<le> qtail q \<and> n = p + 1 \<and> n < length (segments q))"
| "task_fits q a (PopHead p) = (p \<le> qhead q)"
| "task_fits q a (PopPos p i) = (p \<le> qhead q \<and> i \<le> head (seg q p))"
| "task_fits q a (PopWait p i) = (p \<le> qhead q \<and> i < reserved (seg q p))"
| "task_fits q a (PopTake p i) = (p \<le> qhead q \<and> i < reserved (seg q p) \<and> slot_full q p i)"
| "task_fits q a (PopCopy p i) = (p \<le> qhead q \<and> slot_full q p i)"
| "task_fits q a (PopMove p n) = (p \<le> qhead q \<and> n = p + 1 \<and> n < length (segments q) \<and> head (seg q p) = capacity (seg q p))"
| "task_fits q a (PopRetire p) = (p < qhead q)"
| "task_fits q a (BoundsHead op h) = (h \<le> qhead q \<and> fst a \<le> base (seg q h) + head (seg q h))"
| "task_fits q a (BoundsTail op h l) = (h \<le> qhead q \<and> fst a \<le> base (seg q h) + head (seg q h) \<and> l \<le> qtail q \<and> snd a \<le> base (seg q l) + reserved (seg q l))"
| "task_fits q a (BoundsEnd op h l start) = (bounds_fit q a h start \<and> l \<le> qtail q \<and> snd a \<le> base (seg q l) + reserved (seg q l))"
| "task_fits q a (BoundsCheck op h l start stop) = (bounds_fit q a h start \<and> snd a \<le> stop \<and> stop \<le> length (pushed q))"
| "task_fits q a (BoundsAgain op h l start stop) = (bounds_fit q a h start \<and> snd a \<le> stop \<and> stop \<le> length (pushed q))"
| "task_fits q a (GetAt p i) = (p < length (segments q) \<and> base (seg q p) \<le> i \<and> fst a \<le> i \<and> i < length (pushed q))"
| "task_fits q a (SnapAt p start i stop vs) = (p < length (segments q) \<and> base (seg q p) \<le> i \<and> fst a \<le> start \<and> start \<le> front q \<and> start \<le> i \<and>
     i \<le> stop \<and> snd a \<le> stop \<and> stop \<le> length (pushed q) \<and> vs = map ((!) (pushed q)) [start..<i])"
| "task_fits q a _ = True"

definition queue_ok :: "'v queue \<Rightarrow> bool" where
  "queue_ok q \<longleftrightarrow> shared_ok q \<and> (\<forall>t. task_fits q (asked q t) (tasks q t)) \<and>
     (\<forall>t. fst (asked q t) \<le> front q \<and> snd (asked q t) \<le> length (pushed q)) \<and>
     (\<forall>t u v w p i. tasks q t = PushFill v p i \<longrightarrow> tasks q u = PushFill w p i \<longrightarrow> t = u)"

lemma seg_fitsD:
  assumes "shared_ok q" "i < length (segments q)"
  shows "0 < capacity (seg q i)" "length (slots (seg q i)) = capacity (seg q i)"
    "next_segment (seg q i) = (if i + 1 < length (segments q) then Some (i + 1) else None)"
    "i + 1 < length (segments q) \<Longrightarrow> base (seg q (i + 1)) = base (seg q i) + capacity (seg q i)"
    "i + 1 < length (segments q) \<Longrightarrow> capacity (seg q i) \<le> tail (seg q i)"
    "head (seg q i) \<le> reserved (seg q i)" "qtail q < i \<Longrightarrow> tail (seg q i) = 0" "i < qhead q \<Longrightarrow> head (seg q i) = capacity (seg q i)"
    "qhead q < i \<Longrightarrow> head (seg q i) = 0"
    "\<And>j v. j < capacity (seg q i) \<Longrightarrow> slots (seg q i) ! j = Some v \<Longrightarrow> j < tail (seg q i) \<and> v = pushed q ! (base (seg q i) + j)"
  using assms unfolding shared_ok_def seg_fits_def Let_def by blast+

lemma base_after:
  assumes "shared_ok q" "i < j" "j < length (segments q)"
  shows "base (seg q i) + capacity (seg q i) \<le> base (seg q j)"
  using assms(2,3)
proof (induction j)
  case (Suc j)
  have b: "base (seg q (Suc j)) = base (seg q j) + capacity (seg q j)" using seg_fitsD(4) [OF assms(1), of j] Suc.prems by simp
  show ?case
  proof (cases "i = j")
    case False
    then show ?thesis using Suc b by simp
  qed (use b in simp)
qed simp

lemma full_before: "shared_ok q \<Longrightarrow> i < j \<Longrightarrow> j < length (segments q) \<Longrightarrow> capacity (seg q i) \<le> tail (seg q i)"
  by (rule seg_fitsD(5)) auto

text \<open>The positions reserved are those pushed.\<close>

lemma reserved_pushed:
  assumes ok: "shared_ok q" and i: "i < length (segments q)" "j < reserved (seg q i)"
  shows "base (seg q i) + j < length (pushed q)" "i \<le> qtail q"
proof -
  show t: "i \<le> qtail q" using seg_fitsD(7) [OF ok i(1)] i(2) by (fastforce simp: reserved_def)
  have l: "length (pushed q) = base (seg q (qtail q)) + reserved (seg q (qtail q))" "qtail q < length (segments q)" using ok by (simp_all add: shared_ok_def)
  show "base (seg q i) + j < length (pushed q)"
  proof (cases "i = qtail q")
    case False
    then have "base (seg q i) + capacity (seg q i) \<le> base (seg q (qtail q))" using base_after [OF ok] t l by simp
    then show ?thesis using i l by (simp add: reserved_def)
  qed (use i l in simp)
qed

lemma within_pushed:
  assumes ok: "shared_ok q" and i: "i < length (segments q)"
  shows "i \<le> qtail q \<Longrightarrow> base (seg q i) + reserved (seg q i) \<le> length (pushed q)" "base (seg q i) + head (seg q i) \<le> length (pushed q)"
proof -
  have l: "length (pushed q) = base (seg q (qtail q)) + reserved (seg q (qtail q))" "qtail q < length (segments q)"
    "length (segments q) \<le> qtail q + 2" using ok by (simp_all add: shared_ok_def)
  show a: "i \<le> qtail q \<Longrightarrow> base (seg q i) + reserved (seg q i) \<le> length (pushed q)"
    using base_after [OF ok, of i "qtail q"] l by (cases "i = qtail q") (auto simp: reserved_def)
  show "base (seg q i) + head (seg q i) \<le> length (pushed q)"
  proof (cases "i \<le> qtail q")
    case True
    then show ?thesis using a seg_fitsD(6) [OF ok i] by simp
  next
    case False
    then have n: "i = qtail q + 1" using i l by simp
    have "base (seg q i) = base (seg q (qtail q)) + capacity (seg q (qtail q))" "capacity (seg q (qtail q)) \<le> tail (seg q (qtail q))"
      using seg_fitsD(4,5) [OF ok l(2)] i n by simp_all
    moreover have "head (seg q i) = 0" using seg_fitsD(6,7) [OF ok i] n by (simp add: reserved_def)
    ultimately show ?thesis using l by (simp add: reserved_def)
  qed
qed

lemma front_pushed: "shared_ok q \<Longrightarrow> front q \<le> length (pushed q)"
  using within_pushed(2) [of q "qhead q"] by (simp add: front_def shared_ok_def)

lemma before_front: "shared_ok q \<Longrightarrow> h \<le> qhead q \<Longrightarrow> base (seg q h) + head (seg q h) \<le> front q"
  using base_after [of q h "qhead q"] seg_fitsD(6) [of q h] seg_fitsD(8) [of q h]
  by (cases "h = qhead q") (auto simp: front_def shared_ok_def)

text \<open>What a pop sees of an empty queue.\<close>

lemma empty_at_tail:
  assumes ok: "shared_ok q" and p: "p \<le> qhead q" "i \<le> head (seg q p)" "i < capacity (seg q p)" "tail (seg q p) \<le> i"
  shows "contents q = []"
proof -
  have l: "length (pushed q) = base (seg q (qtail q)) + reserved (seg q (qtail q))" "qtail q < length (segments q)" "qhead q < length (segments q)"
    "length (segments q) \<le> qtail q + 2" using ok by (simp_all add: shared_ok_def)
  have pn: "p < length (segments q)" using p l by simp
  have h: "head (seg q p) = i" "tail (seg q p) = i" using seg_fitsD(6) [OF ok pn] p by (auto simp: reserved_def)
  have last: "\<not> p + 1 < length (segments q)" using seg_fitsD(5) [OF ok pn] h p(3) by fastforce
  then have e: "p = qhead q" "length (segments q) = p + 1" using p(1) pn l(3) by auto
  have f: "front q = base (seg q p) + i" by (simp add: front_def flip: e(1) add: h)
  have "length (pushed q) \<le> front q"
  proof (cases "qtail q = p")
    case True
    then show ?thesis using l h p(3) f by (simp add: reserved_def)
  next
    case False
    then have t: "qtail q + 1 = p" using l e by simp
    then have "base (seg q p) = base (seg q (qtail q)) + capacity (seg q (qtail q))" using seg_fitsD(4) [OF ok l(2)] pn by simp
    then show ?thesis using l f by (simp add: reserved_def)
  qed
  then show ?thesis by (simp add: contents_def)
qed

lemma empty_at_end:
  assumes ok: "shared_ok q" and p: "p \<le> qhead q" "i \<le> head (seg q p)" "capacity (seg q p) \<le> i" "next_segment (seg q p) = None"
  shows "contents q = []"
proof -
  have l: "length (pushed q) = base (seg q (qtail q)) + reserved (seg q (qtail q))" "qtail q < length (segments q)" "qhead q < length (segments q)"
    "length (segments q) \<le> qtail q + 2" using ok by (simp_all add: shared_ok_def)
  have pn: "p < length (segments q)" using p l by simp
  have h: "head (seg q p) = capacity (seg q p)" "capacity (seg q p) \<le> tail (seg q p)" "0 < capacity (seg q p)"
    using seg_fitsD(1,6) [OF ok pn] p by (auto simp: reserved_def)
  have e: "p = qhead q" "length (segments q) = p + 1" using seg_fitsD(3) [OF ok pn] p pn l(3) by (auto split: if_splits)
  have t: "qtail q = p" using seg_fitsD(7) [OF ok pn] h l(2) e(2) by (cases "qtail q < p") auto
  have "front q = base (seg q p) + capacity (seg q p)" by (simp add: front_def flip: e(1) add: h)
  then show ?thesis using l t h by (simp add: contents_def reserved_def)
qed

subsection \<open>Steps keep the invariant\<close>

text \<open>How the queue changes for the threads that do not move.\<close>

definition grows :: "'v queue \<Rightarrow> 'v queue \<Rightarrow> bool" where
  "grows q q' \<longleftrightarrow> length (segments q) \<le> length (segments q') \<and> qhead q \<le> qhead q' \<and> qtail q \<le> qtail q' \<and>
     (\<exists>vs. pushed q' = pushed q @ vs) \<and>
     (\<forall>i<length (segments q). base (seg q' i) = base (seg q i) \<and> capacity (seg q' i) = capacity (seg q i) \<and>
        head (seg q i) \<le> head (seg q' i) \<and> tail (seg q i) \<le> tail (seg q' i) \<and>
        (\<forall>j. slots (seg q i) ! j \<noteq> None \<longrightarrow> slots (seg q' i) ! j = slots (seg q i) ! j))"

lemma growsD:
  assumes "grows q q'" "i < length (segments q)"
  shows "base (seg q' i) = base (seg q i)" "capacity (seg q' i) = capacity (seg q i)" "head (seg q i) \<le> head (seg q' i)"
    "tail (seg q i) \<le> tail (seg q' i)" "reserved (seg q i) \<le> reserved (seg q' i)"
    "\<And>j. slots (seg q i) ! j \<noteq> None \<Longrightarrow> slots (seg q' i) ! j = slots (seg q i) ! j" "\<And>j. slot_full q i j \<Longrightarrow> slot_full q' i j"
  using assms by (auto simp: grows_def reserved_def slot_full_def)

lemma grows_front:
  assumes g: "grows q q'" and ok: "shared_ok q" "shared_ok q'"
  shows "front q \<le> front q'"
proof -
  have h: "qhead q < length (segments q)" "qhead q \<le> qhead q'" using g ok(1) by (auto simp: grows_def shared_ok_def)
  have "front q \<le> base (seg q' (qhead q)) + head (seg q' (qhead q))" using growsD [OF g h(1)] by (simp add: front_def)
  also have "\<dots> \<le> front q'" by (rule before_front [OF ok(2) h(2)])
  finally show ?thesis .
qed

lemma prefix_values: "stop \<le> length xs \<Longrightarrow> map ((!) (xs @ ys)) [start..<stop] = map ((!) xs) [start..<stop]"
  by (auto simp: nth_append)

lemma fits_grows:
  assumes g: "grows q q'" and ok: "shared_ok q" "shared_ok q'" and f: "task_fits q a k"
    and fill: "\<And>v p i. k = PushFill v p i \<Longrightarrow> slots (seg q' p) ! i = None"
  shows "task_fits q' a k"
proof -
  obtain vs where p: "pushed q' = pushed q @ vs" using g by (auto simp: grows_def)
  have c: "length (segments q) \<le> length (segments q')" "qhead q \<le> qhead q'" "qtail q \<le> qtail q'" "front q \<le> front q'"
    using g grows_front [OF g ok] by (auto simp: grows_def)
  have b: "qhead q < length (segments q)" "qtail q < length (segments q)" using ok(1) by (auto simp: shared_ok_def)
  note d = growsD [OF g]
  have o: "outcome_fits q' a r" if r: "outcome_fits q a r" for r
  proof (cases r)
    case (Values ws)
    then obtain start stop where "fst a \<le> start" "start \<le> front q" "snd a \<le> stop" "start \<le> stop" "stop \<le> length (pushed q)"
      "ws = map ((!) (pushed q)) [start..<stop]" using r by auto
    then show ?thesis unfolding Values outcome_fits.simps
      by (intro exI [of _ start] exI [of _ stop]) (use c p prefix_values [of stop "pushed q" vs start] in auto)
  next
    case (Count n)
    then show ?thesis using r c p by (force simp: p)
  next
    case (Got v)
    then show ?thesis using r p by (auto simp: nth_append)
  qed simp_all
  have bf: "bounds_fit q' a h start" if "bounds_fit q a h start" for h start
    using that c b d(1) [of h] by (auto simp: bounds_fit_def)
  show ?thesis
  proof (cases k)
    case (Done r) then show ?thesis using f o by simp
  next
    case (PushFill v p' i) then show ?thesis using f c b d [of p'] fill p by (auto simp: nth_append)
  next
    case (PushNext v p') then show ?thesis using f c b d [of p'] by auto
  next
    case (PushLink v p') then show ?thesis using f c b d [of p'] by auto
  next
    case (PopPos p' i) then show ?thesis using f c b d [of p'] by auto
  next
    case (PopWait p' i) then show ?thesis using f c b d [of p'] by auto
  next
    case (PopTake p' i) then show ?thesis using f c b d [of p'] by auto
  next
    case (PopCopy p' i) then show ?thesis using f c b d [of p'] by auto
  next
    case (PopMove p' n)
    then have n: "p' < length (segments q)" "head (seg q p') = capacity (seg q p')" "p' < length (segments q')" using f b c by auto
    have "head (seg q' p') \<le> capacity (seg q' p')" using seg_fitsD(6) [OF ok(2) n(3)] by (simp add: reserved_def)
    then show ?thesis using PopMove f c d [OF n(1)] n(2) by auto
  next
    case (BoundsHead op h) then show ?thesis using f c b d [of h] by auto
  next
    case (BoundsTail op h l) then show ?thesis using f c b d(1,3) [of h] d(1,5) [of l] by auto
  next
    case (BoundsEnd op h l start) then show ?thesis using f c b bf d(1,5) [of l] by auto
  next
    case (BoundsCheck op h l start stop) then show ?thesis using f bf p by auto
  next
    case (BoundsAgain op h l start stop) then show ?thesis using f bf p by auto
  next
    case (GetAt p' i) then show ?thesis using f c d [of p'] p by auto
  next
    case (SnapAt p' start i stop ws)
    then show ?thesis using f c d [of p'] p prefix_values [of i "pushed q" vs start] by auto
  qed (use f c in auto)
qed

text \<open>A step of thread \<open>t\<close> to task \<open>k\<close>.\<close>

lemma queue_keeps:
  assumes ok: "queue_ok q" and sh: "shared_ok q'" and g: "grows q q'"
    and t: "tasks q' = (tasks q)(t := k)" "\<And>u. u \<noteq> t \<Longrightarrow> asked q' u = asked q u"
    and a: "asked q' t = asked q t \<or> asked q' t = (front q', length (pushed q'))"
    and fits: "task_fits q' (asked q' t) k"
    and fill: "\<And>u v p i. u \<noteq> t \<Longrightarrow> tasks q u = PushFill v p i \<Longrightarrow> slots (seg q' p) ! i = None"
    and one: "\<And>u v w p i. k = PushFill v p i \<Longrightarrow> u \<noteq> t \<Longrightarrow> tasks q u \<noteq> PushFill w p i"
  shows "queue_ok q'"
  unfolding queue_ok_def
proof (intro conjI allI impI)
  have sq: "shared_ok q" using ok by (simp add: queue_ok_def)
  show "task_fits q' (asked q' u) (tasks q' u)" for u
  proof (cases "u = t")
    case False
    then have "task_fits q (asked q u) (tasks q u)" "tasks q' u = tasks q u" using ok t by (simp_all add: queue_ok_def)
    then show ?thesis using fits_grows [OF g sq sh] fill [OF False] t(2) [OF False] by auto
  qed (use fits t in simp)
  have "front q \<le> front q'" "length (pushed q) \<le> length (pushed q')" using grows_front [OF g sq sh] g by (auto simp: grows_def)
  moreover have "fst (asked q u) \<le> front q \<and> snd (asked q u) \<le> length (pushed q)" for u using ok by (simp add: queue_ok_def)
  ultimately show "fst (asked q' u) \<le> front q'" "snd (asked q' u) \<le> length (pushed q')" for u
    using a t(2) [of u] by (cases "u = t"; fastforce dest: order_trans)+
  show "x = u" if "tasks q' x = PushFill v p i" "tasks q' u = PushFill w p i" for x u v w p i
    using that ok one t(1) unfolding queue_ok_def by (metis fun_upd_apply)
qed (rule sh)

lemma queue_grows_refl [simp]: "grows q q" "segments q' = segments q \<Longrightarrow> qhead q' = qhead q \<Longrightarrow> qtail q' = qtail q \<Longrightarrow> pushed q' = pushed q \<Longrightarrow> grows q q'"
  by (simp_all add: grows_def)

lemma shared_cong: "segments q' = segments q \<Longrightarrow> qhead q' = qhead q \<Longrightarrow> qtail q' = qtail q \<Longrightarrow> pushed q' = pushed q \<Longrightarrow> shared_ok q' = shared_ok q"
  by (simp add: shared_ok_def seg_fits_def)

lemma fits_cong: "segments q' = segments q \<Longrightarrow> qhead q' = qhead q \<Longrightarrow> qtail q' = qtail q \<Longrightarrow> pushed q' = pushed q \<Longrightarrow> task_fits q' a k = task_fits q a k"
proof -
  assume a: "segments q' = segments q" "qhead q' = qhead q" "qtail q' = qtail q" "pushed q' = pushed q"
  have f: "front q' = front q" by (simp add: front_def a)
  have "outcome_fits q' b r = outcome_fits q b r" for b r by (cases r) (simp_all add: f a)
  then show ?thesis by (cases k) (simp_all add: a f bounds_fit_def slot_full_def)
qed

text \<open>Steps that leave the queue as it is.\<close>

lemma queue_own_task:
  assumes ok: "queue_ok q" and q': "segments q' = segments q" "qhead q' = qhead q" "qtail q' = qtail q" "pushed q' = pushed q"
    and t: "tasks q' = (tasks q)(t := k)" "\<And>u. u \<noteq> t \<Longrightarrow> asked q' u = asked q u"
    and a: "asked q' t = asked q t \<or> asked q' t = (front q, length (pushed q))"
    and fits: "task_fits q (asked q' t) k" and fill: "\<And>v p i. k \<noteq> PushFill v p i"
  shows "queue_ok q'"
proof (rule queue_keeps [OF ok _ _ t])
  show "shared_ok q'" using ok shared_cong [OF q'] by (simp add: queue_ok_def)
  show "task_fits q' (asked q' t) k" using fits fits_cong [OF q'] by simp
  fix u v p i assume "u \<noteq> t" "tasks q u = PushFill v p i"
  moreover have "task_fits q (asked q u) (tasks q u)" using ok by (simp add: queue_ok_def)
  ultimately show "slots (seg q' p) ! i = None" using q' by simp
next
  show "asked q' t = asked q t \<or> asked q' t = (front q', length (pushed q'))" using a q' by (simp add: front_def)
qed (use q' fill in simp_all)

lemma set_seg_ok:
  assumes ok: "shared_ok q" and p: "p < length (segments q)"
    and q': "segments q' = (segments q)[p := g]" "qhead q' = qhead q" "qtail q' = qtail q" "pushed q' = pushed q @ vs"
    and g: "base g = base (seg q p)" "capacity g = capacity (seg q p)" "next_segment g = next_segment (seg q p)" "length (slots g) = length (slots (seg q p))"
      "tail (seg q p) \<le> tail g" "head (seg q p) \<le> head g" "head g \<le> reserved g" "qtail q < p \<Longrightarrow> tail g = 0" "qhead q < p \<Longrightarrow> head g = 0"
      "\<And>j v. j < capacity g \<Longrightarrow> slots g ! j = Some v \<Longrightarrow> j < tail g \<and> v = pushed q' ! (base g + j)"
      "\<And>j. slots (seg q p) ! j \<noteq> None \<Longrightarrow> slots g ! j = slots (seg q p) ! j"
    and len: "length (pushed q') = base (seg q' (qtail q)) + reserved (seg q' (qtail q))"
  shows "shared_ok q' \<and> grows q q'"
proof
  note d = seg_fitsD [OF ok]
  have n: "length (segments q') = length (segments q)" by (simp add: q')
  have s: "seg q' i = (if i = p then g else seg q i)" for i using p by (simp add: q'(1) nth_list_update)
  have b: "base (seg q' i) = base (seg q i)" "capacity (seg q' i) = capacity (seg q i)" "tail (seg q i) \<le> tail (seg q' i)" for i
    using g by (simp_all add: s)
  have "seg_fits q' i" if i: "i < length (segments q)" for i
  proof -
    have "j < tail (seg q' i) \<and> v = pushed q' ! (base (seg q' i) + j)" if j: "j < capacity (seg q' i)" "slots (seg q' i) ! j = Some v" for j v
    proof (cases "i = p")
      case True
      then show ?thesis using g(10) j by (simp add: s)
    next
      case False
      then have f: "j < tail (seg q i)" "v = pushed q ! (base (seg q i) + j)" "j < capacity (seg q i)" using d(10) [OF i] j by (simp_all add: s)
      then have "base (seg q i) + j < length (pushed q)" using reserved_pushed(1) [OF ok i, of j] by (simp add: reserved_def)
      then show ?thesis using f False by (simp add: s q'(4) nth_append)
    qed
    moreover have "head (seg q' i) \<le> reserved (seg q' i)" using d(6) [OF i] g(7) by (simp add: s)
    moreover have "qtail q < i \<longrightarrow> tail (seg q' i) = 0" "qhead q < i \<longrightarrow> head (seg q' i) = 0" using d(7,9) [OF i] g(8,9) by (auto simp: s)
    moreover have "i < qhead q \<longrightarrow> head (seg q' i) = capacity (seg q' i)"
    proof
      assume h: "i < qhead q"
      then have "head (seg q i) = capacity (seg q i)" by (rule d(8) [OF i])
      then show "head (seg q' i) = capacity (seg q' i)" using g(2,6,7) by (auto simp: s reserved_def)
    qed
    moreover have "i + 1 < length (segments q) \<longrightarrow> base (seg q' (i + 1)) = base (seg q' i) + capacity (seg q' i) \<and> capacity (seg q' i) \<le> tail (seg q' i)"
      using d(4,5) [OF i] b [of i] b(1) [of "i + 1"] by fastforce
    moreover have "next_segment (seg q' i) = (if i + 1 < length (segments q') then Some (i + 1) else None)"
      using d(3) [OF i] g(3) n by (auto simp: s)
    moreover have "0 < capacity (seg q' i)" "length (slots (seg q' i)) = capacity (seg q' i)" using d(1,2) [OF i] g(2,4) by (auto simp: s)
    ultimately show ?thesis unfolding seg_fits_def Let_def n q'(2,3) by blast
  qed
  then show "shared_ok q'" using ok len b(1) [of 0] unfolding shared_ok_def n q'(2,3) by simp
  show "grows q q'" unfolding grows_def n q'(2,3,4) using b g(6,11) by (auto simp: s)
qed

lemma reserve_ok:
  assumes ok: "shared_ok q" and p: "p \<le> qtail q"
    and q': "segments q' = (segments q)[p := (seg q p)\<lparr>tail := tail (seg q p) + 1\<rparr>]" "qhead q' = qhead q" "qtail q' = qtail q"
      "pushed q' = (if tail (seg q p) < capacity (seg q p) then pushed q @ [v] else pushed q)"
  shows "shared_ok q' \<and> grows q q'" "tail (seg q p) < capacity (seg q p) \<Longrightarrow> length (pushed q) = base (seg q p) + tail (seg q p)"
    "tail (seg q p) < capacity (seg q p) \<Longrightarrow> slots (seg q p) ! tail (seg q p) = None"
proof -
  have l: "length (pushed q) = base (seg q (qtail q)) + reserved (seg q (qtail q))" "qtail q < length (segments q)" "p < length (segments q)"
    using ok p by (simp_all add: shared_ok_def)
  note d = seg_fitsD [OF ok l(3)]
  have pt: "p = qtail q" if "tail (seg q p) < capacity (seg q p)"
    using full_before [OF ok, of p "qtail q"] p l that by (cases "p = qtail q") auto
  show e: "length (pushed q) = base (seg q p) + tail (seg q p)" if "tail (seg q p) < capacity (seg q p)"
    using l pt [OF that] that by (simp add: reserved_def)
  show "slots (seg q p) ! tail (seg q p) = None" if "tail (seg q p) < capacity (seg q p)"
    using d(10) [OF that] by (cases "slots (seg q p) ! tail (seg q p)") auto
  obtain vs where vs: "pushed q' = pushed q @ vs" using q'(4) by (cases "tail (seg q p) < capacity (seg q p)") auto
  show "shared_ok q' \<and> grows q q'"
  proof (rule set_seg_ok [OF ok l(3) q'(1-3) vs])
    fix j v assume j: "j < capacity ((seg q p)\<lparr>tail := tail (seg q p) + 1\<rparr>)" "slots ((seg q p)\<lparr>tail := tail (seg q p) + 1\<rparr>) ! j = Some v"
    then have f: "j < tail (seg q p)" "v = pushed q ! (base (seg q p) + j)" using d(10) by auto
    then have "base (seg q p) + j < length (pushed q)" using reserved_pushed(1) [OF ok l(3), of j] j(1) by (simp add: reserved_def)
    then show "j < tail ((seg q p)\<lparr>tail := tail (seg q p) + 1\<rparr>) \<and> v = pushed q' ! (base ((seg q p)\<lparr>tail := tail (seg q p) + 1\<rparr>) + j)"
      using f by (simp add: vs nth_append)
  next
    show "length (pushed q') = base (seg q' (qtail q)) + reserved (seg q' (qtail q))"
    proof (cases "tail (seg q p) < capacity (seg q p)")
      case True
      then show ?thesis using l pt [OF True] by (simp add: q' reserved_def)
    next
      case False
      then show ?thesis using l by (cases "p = qtail q") (auto simp: q' reserved_def)
    qed
  qed (use d(6,9) p in \<open>auto simp: reserved_def\<close>)
qed

lemma fill_ok:
  assumes ok: "shared_ok q" and f: "task_fits q a (PushFill v p i)"
    and q': "segments q' = (segments q)[p := (seg q p)\<lparr>slots := (slots (seg q p))[i := Some v]\<rparr>]" "qhead q' = qhead q" "qtail q' = qtail q" "pushed q' = pushed q"
  shows "shared_ok q' \<and> grows q q'"
proof -
  have p: "p < length (segments q)" using ok f by (simp add: shared_ok_def)
  note d = seg_fitsD [OF ok p]
  show ?thesis
  proof (rule set_seg_ok [OF ok p q'(1-3), where vs = "[]"])
    fix j w assume "j < capacity ((seg q p)\<lparr>slots := (slots (seg q p))[i := Some v]\<rparr>)" "slots ((seg q p)\<lparr>slots := (slots (seg q p))[i := Some v]\<rparr>) ! j = Some w"
    then show "j < tail ((seg q p)\<lparr>slots := (slots (seg q p))[i := Some v]\<rparr>) \<and> w = pushed q' ! (base ((seg q p)\<lparr>slots := (slots (seg q p))[i := Some v]\<rparr>) + j)"
      using f d(2,10) by (cases "j = i") (auto simp: q')
  next
    show "length (pushed q') = base (seg q' (qtail q)) + reserved (seg q' (qtail q))"
      using ok by (cases "p = qtail q") (auto simp: q' shared_ok_def reserved_def)
  next
    fix j assume "slots (seg q p) ! j \<noteq> None"
    then show "slots ((seg q p)\<lparr>slots := (slots (seg q p))[i := Some v]\<rparr>) ! j = slots (seg q p) ! j"
      using f by (cases "j = i") auto
  qed (use d(6,7,9) in \<open>auto simp: reserved_def q'(4)\<close>)
qed

lemma take_ok:
  assumes ok: "shared_ok q" and f: "task_fits q a (PopTake p i)" and h: "head (seg q p) = i"
    and q': "segments q' = (segments q)[p := (seg q p)\<lparr>head := i + 1\<rparr>]" "qhead q' = qhead q" "qtail q' = qtail q" "pushed q' = pushed q"
  shows "shared_ok q' \<and> grows q q'" "contents q = pushed q ! front q # contents q'" "slots (seg q p) ! i = Some (pushed q ! front q)"
proof -
  have p: "p < length (segments q)" "qhead q < length (segments q)" using ok f by (simp_all add: shared_ok_def)
  note d = seg_fitsD [OF ok p(1)]
  have ph: "p = qhead q" using d(8) h f by (cases "p < qhead q") (auto simp: reserved_def)
  show "shared_ok q' \<and> grows q q'"
  proof (rule set_seg_ok [OF ok p(1) q'(1-3), where vs = "[]"])
    show "length (pushed q') = base (seg q' (qtail q)) + reserved (seg q' (qtail q))"
      using ok by (cases "p = qtail q") (auto simp: q' shared_ok_def reserved_def)
  qed (use d(6,7,9,10) f h ph in \<open>auto simp: reserved_def q'(4)\<close>)
  have fr: "front q = base (seg q p) + i" "front q' = front q + 1" using h p by (auto simp: front_def q' ph)
  have "front q < length (pushed q)" using reserved_pushed(1) [OF ok p(1), of i] f fr by simp
  then show "contents q = pushed q ! front q # contents q'" using fr by (simp add: contents_def q'(4) Cons_nth_drop_Suc)
  show "slots (seg q p) ! i = Some (pushed q ! front q)" using f d(10) fr by (auto simp: slot_full_def)
qed

lemma move_head_ok:
  assumes ok: "shared_ok q" and f: "task_fits q a (PopMove p n)" and h: "qhead q = p"
    and q': "segments q' = segments q" "qhead q' = n" "qtail q' = qtail q" "pushed q' = pushed q"
  shows "shared_ok q' \<and> grows q q' \<and> contents q' = contents q"
proof -
  have n: "n = p + 1" "n < length (segments q)" "head (seg q p) = capacity (seg q p)" using f by auto
  have "seg_fits q' i" if i: "i < length (segments q)" for i
  proof -
    have "i < n \<longrightarrow> head (seg q i) = capacity (seg q i)" using seg_fitsD(8) [OF ok i] n h by (cases "i = p") auto
    moreover have "n < i \<longrightarrow> head (seg q i) = 0" using seg_fitsD(9) [OF ok i] n h by auto
    moreover have "seg_fits q i" using ok i by (simp add: shared_ok_def)
    ultimately show ?thesis by (simp add: seg_fits_def Let_def q')
  qed
  then have "shared_ok q'" using ok n by (simp add: shared_ok_def q')
  moreover have "grows q q'" using n h by (simp add: grows_def q')
  moreover have "front q' = front q" using seg_fitsD(4,9) [OF ok] n h by (simp add: front_def q')
  ultimately show ?thesis by (simp add: contents_def q'(4))
qed

lemma move_tail_ok:
  assumes ok: "shared_ok q" and f: "task_fits q a (PushMove v p n)" and h: "qtail q = p"
    and q': "segments q' = segments q" "qhead q' = qhead q" "qtail q' = n" "pushed q' = pushed q"
  shows "shared_ok q' \<and> grows q q'"
proof -
  have n: "n = p + 1" "n < length (segments q)" "p < length (segments q)" using f by auto
  have "seg_fits q' i" if i: "i < length (segments q)" for i
  proof -
    have "n < i \<longrightarrow> tail (seg q i) = 0" using seg_fitsD(7) [OF ok i] n h by auto
    moreover have "seg_fits q i" using ok i by (simp add: shared_ok_def)
    ultimately show ?thesis by (simp add: seg_fits_def Let_def q')
  qed
  moreover have "length (pushed q) = base (seg q n) + reserved (seg q n)"
    using ok seg_fitsD(4,5) [OF ok n(3)] seg_fitsD(7) [OF ok n(2)] n h by (auto simp: shared_ok_def reserved_def)
  ultimately have "shared_ok q'" using ok n h by (simp add: shared_ok_def q')
  moreover have "grows q q'" using n h by (simp add: grows_def q')
  ultimately show ?thesis by simp
qed

lemma link_ok:
  assumes ok: "shared_ok q" and f: "task_fits q a (PushLink v p)" and h: "next_segment (seg q p) = None"
    and q': "segments q' = (segments q)[p := (seg q p)\<lparr>next_segment := Some (length (segments q))\<rparr>]
        @ [new_segment (min (capacity (seg q p) * 2) LARGEST_SEGMENT) (base (seg q p) + capacity (seg q p))]"
      "qhead q' = qhead q" "qtail q' = qtail q" "pushed q' = pushed q"
  shows "shared_ok q' \<and> grows q q' \<and> length (segments q) = p + 1"
proof -
  have l: "qtail q < length (segments q)" "qhead q < length (segments q)" using ok by (simp_all add: shared_ok_def)
  have p: "p < length (segments q)" using f l by simp
  note d = seg_fitsD [OF ok]
  have n: "length (segments q) = p + 1" "qtail q = p" using d(3) [OF p] h p f l by (auto split: if_splits)
  let ?new = "new_segment (min (capacity (seg q p) * 2) LARGEST_SEGMENT) (base (seg q p) + capacity (seg q p))"
  have s: "seg q' i = (if i = p then (seg q p)\<lparr>next_segment := Some (p + 1)\<rparr> else if i = p + 1 then ?new else seg q i)"
    if "i < p + 2" for i using that n by (auto simp: q' nth_append nth_list_update)
  have c: "0 < capacity (seg q p)" using d(1) [OF p] .
  have "seg_fits q' i" if i: "i < length (segments q')" for i
  proof (cases "i = p + 1")
    case True
    then show ?thesis using s [of i] n l c by (auto simp: seg_fits_def Let_def new_segment_def q' LARGEST_SEGMENT_def reserved_def)
  next
    case False
    then have i': "i < length (segments q)" "i < p + 2" using i n by (auto simp: q')
    note e = d [OF i'(1)]
    have "seg_fits q i" using ok i' by (simp add: shared_ok_def)
    show ?thesis
    proof (cases "i = p")
      case True
      then show ?thesis using e f s [of i] s [of "p + 1"] n by (auto simp: seg_fits_def Let_def q' new_segment_def reserved_def)
    next
      case F: False
      then have "i + 1 < length (segments q)" "i + 1 < p + 2" using i' n by auto
      then show ?thesis using e(1-9) e(10) s [of i] s [of "i + 1"] n F False by (auto simp: seg_fits_def Let_def q' reserved_def)
    qed
  qed
  moreover have "length (pushed q') = base (seg q' (qtail q')) + reserved (seg q' (qtail q'))"
    using ok s [of p] n by (simp add: q'(3,4) shared_ok_def reserved_def)
  moreover have "base (seg q' 0) = 0" using ok s [of 0] n by (auto simp: shared_ok_def)
  ultimately have "shared_ok q'" using l n by (simp add: shared_ok_def) (simp add: q')
  moreover have "grows q q'" using s n by (auto simp: grows_def q'(2-4)) (auto simp: q'(1))
  ultimately show ?thesis using n by simp
qed

lemma queue_goto_sel [simp]:
  "tasks (goto t k q) = (tasks q)(t := k)" "segments (goto t k q) = segments q" "qhead (goto t k q) = qhead q" "qtail (goto t k q) = qtail q"
  "pushed (goto t k q) = pushed q" "log (goto t k q) = log q" "begun (goto t k q) = begun q" "asked (goto t k q) = asked q" "dropped (goto t k q) = dropped q"
  by (simp_all add: goto_def)

lemma effect_sel [simp]:
  "tasks (effect t op r q) = tasks q" "segments (effect t op r q) = segments q" "qhead (effect t op r q) = qhead q" "qtail (effect t op r q) = qtail q"
  "pushed (effect t op r q) = pushed q" "log (effect t op r q) = log q @ [(t, op, r)]" "begun (effect t op r q) = begun q"
  "asked (effect t op r q) = asked q" "dropped (effect t op r q) = dropped q"
  by (simp_all add: effect_def)

lemma set_seg_sel [simp]:
  "tasks (set_seg p g q) = tasks q" "segments (set_seg p g q) = (segments q)[p := g]" "qhead (set_seg p g q) = qhead q" "qtail (set_seg p g q) = qtail q"
  "pushed (set_seg p g q) = pushed q" "log (set_seg p g q) = log q" "begun (set_seg p g q) = begun q" "asked (set_seg p g q) = asked q" "dropped (set_seg p g q) = dropped q"
  by (simp_all add: set_seg_def)

lemma queue_okD:
  assumes "queue_ok q"
  shows "shared_ok q" "task_fits q (asked q t) (tasks q t)" "tasks q t = PushFill v p i \<Longrightarrow> tasks q u = PushFill w p i \<Longrightarrow> t = u"
  using assms unfolding queue_ok_def by blast+

lemma push_step_ok:
  assumes ok: "queue_ok q" and step: "push_step t q = Some q'"
  shows "queue_ok q'"
proof -
  note sh = queue_okD(1) [OF ok] and f = queue_okD(2) [OF ok, of t] and fu = queue_okD(2) [OF ok]
  have l: "qtail q < length (segments q)" "qhead q < length (segments q)" using sh by (simp_all add: shared_ok_def)
  show ?thesis
  proof (cases "tasks q t")
    case (PushStart v)
    then show ?thesis using step by (intro queue_own_task [OF ok, of q' t "PushReserve v (qtail q)"]) (auto simp: push_step_def)
  next
    case (PushReserve v p)
    have p: "p \<le> qtail q" "p < length (segments q)" using f PushReserve l by auto
    let ?i = "tail (seg q p)"
    let ?k = "if ?i < capacity (seg q p) then PushFill v p ?i else PushNext v p"
    have q': "segments q' = (segments q)[p := (seg q p)\<lparr>tail := ?i + 1\<rparr>]" "qhead q' = qhead q" "qtail q' = qtail q"
      "pushed q' = (if ?i < capacity (seg q p) then pushed q @ [v] else pushed q)" "tasks q' = (tasks q)(t := ?k)" "asked q' = asked q"
      using step PushReserve by (auto simp: push_step_def Let_def split: if_splits)
    note r = reserve_ok [OF sh p(1) q'(1-4)]
    have at: "(pushed q @ [v]) ! (base (seg q p) + ?i) = v" if "?i < capacity (seg q p)" using r(2) [OF that] by (simp add: nth_append)
    show ?thesis
    proof (rule queue_keeps [OF ok _ _ q'(5)])
      show "task_fits q' (asked q' t) ?k"
        using p r(2,3) at by (auto simp: q')
      fix u w p' i assume u: "u \<noteq> t" "tasks q u = PushFill w p' i"
      show "slots (seg q' p') ! i = None" using fu [of u] u p by (cases "p' = p") (auto simp: q')
    next
      fix u w x p' i assume "?k = PushFill w p' i" "u \<noteq> t"
      then show "tasks q u \<noteq> PushFill x p' i" using fu [of u] by (auto split: if_splits)
    qed (use r(1) q' in auto)
  next
    case (PushFill v p i)
    have p: "p \<le> qtail q" "p < length (segments q)" using f PushFill l by auto
    have q': "segments q' = (segments q)[p := (seg q p)\<lparr>slots := (slots (seg q p))[i := Some v]\<rparr>]" "qhead q' = qhead q" "qtail q' = qtail q"
      "pushed q' = pushed q" "tasks q' = (tasks q)(t := Done Pushed)" "asked q' = asked q"
      using step PushFill by (auto simp: push_step_def Let_def)
    have r: "shared_ok q' \<and> grows q q'" using fill_ok [OF sh _ q'(1-4)] f PushFill by (metis)
    show ?thesis
    proof (rule queue_keeps [OF ok _ _ q'(5)])
      fix u w p' j assume u: "u \<noteq> t" "tasks q u = PushFill w p' j"
      then have "p' = p \<longrightarrow> j \<noteq> i" using queue_okD(3) [OF ok PushFill] by blast
      then show "slots (seg q' p') ! j = None" using fu [of u] u p by (cases "p' = p") (auto simp: q')
    qed (use r q' in auto)
  next
    case (PushNext v p)
    then have p: "p < length (segments q)" using f l by auto
    show ?thesis
    proof (cases "next_segment (seg q p)")
      case None
      then show ?thesis using step PushNext f by (intro queue_own_task [OF ok, of q' t "PushLink v p"]) (auto simp: push_step_def)
    next
      case (Some n)
      then have "n = p + 1" "n < length (segments q)" using seg_fitsD(3) [OF sh p] by (auto split: if_splits)
      then show ?thesis using step PushNext f Some by (intro queue_own_task [OF ok, of q' t "PushMove v p n"]) (auto simp: push_step_def)
    qed
  next
    case (PushLink v p)
    then have p: "p < length (segments q)" using f l by auto
    show ?thesis
    proof (cases "next_segment (seg q p)")
      case None
      have q': "segments q' = (segments q)[p := (seg q p)\<lparr>next_segment := Some (length (segments q))\<rparr>]
          @ [new_segment (min (capacity (seg q p) * 2) LARGEST_SEGMENT) (base (seg q p) + capacity (seg q p))]"
        "qhead q' = qhead q" "qtail q' = qtail q" "pushed q' = pushed q" "tasks q' = (tasks q)(t := PushMove v p (length (segments q)))" "asked q' = asked q"
        using step PushLink None by (auto simp: push_step_def Let_def)
      have r: "shared_ok q' \<and> grows q q' \<and> length (segments q) = p + 1"
        using link_ok [OF sh _ None q'(1-4)] f PushLink by metis
      show ?thesis
      proof (rule queue_keeps [OF ok _ _ q'(5)])
        fix u w p' i assume u: "u \<noteq> t" "tasks q u = PushFill w p' i"
        then have "p' < length (segments q)" using fu [of u] l by auto
        then show "slots (seg q' p') ! i = None" using fu [of u] u by (cases "p' = p") (auto simp: q' nth_append)
      qed (use r q' f PushLink in auto)
    next
      case (Some n)
      then have "n = p + 1" "n < length (segments q)" using seg_fitsD(3) [OF sh p] by (auto split: if_splits)
      then show ?thesis using step PushLink f Some by (intro queue_own_task [OF ok, of q' t "PushMove v p n"]) (auto simp: push_step_def Let_def)
    qed
  next
    case (PushMove v p n)
    show ?thesis
    proof (cases "qtail q = p")
      case True
      have q': "segments q' = segments q" "qhead q' = qhead q" "qtail q' = n" "pushed q' = pushed q" "tasks q' = (tasks q)(t := PushStart v)" "asked q' = asked q"
        using step PushMove True by (auto simp: push_step_def)
      have r: "shared_ok q' \<and> grows q q'" using move_tail_ok [OF sh _ True q'(1-4)] f PushMove by metis
      show ?thesis
      proof (rule queue_keeps [OF ok _ _ q'(5)])
        fix u w p' i assume u: "u \<noteq> t" "tasks q u = PushFill w p' i"
        then show "slots (seg q' p') ! i = None" using fu [of u] by (auto simp: q')
      qed (use r q' in auto)
    next
      case False
      then show ?thesis using step PushMove by (intro queue_own_task [OF ok, of q' t "PushStart v"]) (auto simp: push_step_def)
    qed
  qed (use step in \<open>auto simp: push_step_def\<close>)
qed

lemma pop_step_ok:
  assumes ok: "queue_ok q" and step: "pop_step t q = Some q'"
  shows "queue_ok q'"
proof -
  note sh = queue_okD(1) [OF ok] and f = queue_okD(2) [OF ok, of t] and fu = queue_okD(2) [OF ok]
  have l: "qtail q < length (segments q)" "qhead q < length (segments q)" using sh by (simp_all add: shared_ok_def)
  show ?thesis
  proof (cases "tasks q t")
    case PopStart
    then show ?thesis using step by (intro queue_own_task [OF ok, of q' t "PopHead (qhead q)"]) (auto simp: pop_step_def)
  next
    case (PopHead p)
    then show ?thesis using step f by (intro queue_own_task [OF ok, of q' t "PopPos p (head (seg q p))"]) (auto simp: pop_step_def)
  next
    case (PopPos p i)
    then have p: "p < length (segments q)" using f l by auto
    show ?thesis
    proof (cases "capacity (seg q p) \<le> i")
      case True
      show ?thesis
      proof (cases "next_segment (seg q p)")
        case None
        then show ?thesis using step PopPos True by (intro queue_own_task [OF ok, of q' t "Done Nothing"]) (auto simp: pop_step_def)
      next
        case (Some n)
        then have n: "n = p + 1" "n < length (segments q)" using seg_fitsD(3) [OF sh p] by (auto split: if_splits)
        have "head (seg q p) = capacity (seg q p)" using seg_fitsD(6) [OF sh p] f PopPos True by (auto simp: reserved_def)
        then show ?thesis using step PopPos True f Some n by (intro queue_own_task [OF ok, of q' t "PopMove p n"]) (auto simp: pop_step_def)
      qed
    next
      case False
      show ?thesis
      proof (cases "tail (seg q p) \<le> i")
        case True
        then show ?thesis using step PopPos False by (intro queue_own_task [OF ok, of q' t "Done Nothing"]) (auto simp: pop_step_def)
      next
        case F: False
        then show ?thesis using step PopPos False f by (intro queue_own_task [OF ok, of q' t "PopWait p i"]) (auto simp: pop_step_def reserved_def)
      qed
    qed
  next
    case (PopWait p i)
    then obtain v where "slots (seg q p) ! i = Some v" using step by (auto simp: pop_step_def split: option.splits)
    then show ?thesis using step PopWait f by (intro queue_own_task [OF ok, of q' t "PopTake p i"]) (auto simp: pop_step_def slot_full_def reserved_def)
  next
    case (PopTake p i)
    show ?thesis
    proof (cases "head (seg q p) = i")
      case True
      have q': "segments q' = (segments q)[p := (seg q p)\<lparr>head := i + 1\<rparr>]" "qhead q' = qhead q" "qtail q' = qtail q" "pushed q' = pushed q"
        "tasks q' = (tasks q)(t := PopCopy p i)" "asked q' = asked q"
        using step PopTake True by (auto simp: pop_step_def Let_def)
      have r: "shared_ok q' \<and> grows q q'" using take_ok(1) [OF sh _ True q'(1-4)] f PopTake by metis
      have p: "p < length (segments q)" using f PopTake l by auto
      show ?thesis
      proof (rule queue_keeps [OF ok _ _ q'(5)])
        fix u w p' j assume u: "u \<noteq> t" "tasks q u = PushFill w p' j"
        then show "slots (seg q' p') ! j = None" using fu [of u] p by (cases "p' = p") (auto simp: q')
      next
        show "task_fits q' (asked q' t) (PopCopy p i)" using f PopTake growsD(7) [OF _ p] r q' by auto
      qed (use r q' in auto)
    next
      case False
      then show ?thesis using step PopTake by (intro queue_own_task [OF ok, of q' t PopStart]) (auto simp: pop_step_def)
    qed
  next
    case (PopCopy p i)
    then obtain v where "slots (seg q p) ! i = Some v" using step by (auto simp: pop_step_def split: option.splits)
    then show ?thesis using step PopCopy f by (intro queue_own_task [OF ok, of q' t "Done (Popped v)"]) (auto simp: pop_step_def)
  next
    case (PopMove p n)
    show ?thesis
    proof (cases "qhead q = p")
      case True
      have q': "segments q' = segments q" "qhead q' = n" "qtail q' = qtail q" "pushed q' = pushed q"
        "tasks q' = (tasks q)(t := PopRetire p)" "asked q' = asked q"
        using step PopMove True by (auto simp: pop_step_def)
      have r: "shared_ok q' \<and> grows q q'" using move_head_ok [OF sh _ True q'(1-4)] f PopMove by metis
      show ?thesis
      proof (rule queue_keeps [OF ok _ _ q'(5)])
        fix u w p' j assume u: "u \<noteq> t" "tasks q u = PushFill w p' j"
        then show "slots (seg q' p') ! j = None" using fu [of u] by (auto simp: q')
      qed (use r q' f PopMove in auto)
    next
      case False
      then show ?thesis using step PopMove by (intro queue_own_task [OF ok, of q' t PopStart]) (auto simp: pop_step_def)
    qed
  qed (use step in \<open>auto simp: pop_step_def\<close>)
qed

lemma begin_op_ok: "queue_ok q \<Longrightarrow> queue_ok (begin_op op t q)"
  by (cases op) (auto intro!: queue_own_task [of q _ t "begin_task op"] simp: begin_op_def)

lemma queue_retire_ok: "queue_ok q \<Longrightarrow> pop_retire t q = Some (p, q') \<Longrightarrow> queue_ok q'"
  by (auto intro!: queue_own_task [of q _ t PopStart] simp: pop_retire_def split: task.splits)

lemma with_bounds_fits:
  assumes ok: "shared_ok q" and b: "bounds_fit q a h start" "snd a \<le> stop" "stop \<le> length (pushed q)"
  shows "task_fits q a (with_bounds op h start (max stop start))"
proof -
  define m where "m = max stop start"
  have h: "h < length (segments q)" "base (seg q h) \<le> start" "fst a \<le> start" "start \<le> front q"
    using ok b(1) by (auto simp: bounds_fit_def shared_ok_def)
  then have m: "start \<le> m" "m \<le> length (pushed q)" "snd a \<le> m" using b front_pushed [OF ok] by (auto simp: m_def)
  have count: "task_fits q a (Done (Count (m - start)))"
    unfolding task_fits.simps outcome_fits.simps by (intro exI [of _ start] exI [of _ m]) (use h m in simp)
  have "task_fits q a (with_bounds op h start m)"
  proof (cases op)
    case (Get i)
    have "k < m - start" if "position i (m - start) = Some k" for k using that by (auto simp: position_def Let_def split: if_splits)
    then show ?thesis using Get h m by (auto split: option.splits) 
  qed (use h m count in simp_all)
  then show ?thesis by (simp add: m_def)
qed

lemma bounds_step_ok:
  assumes ok: "queue_ok q" and step: "bounds_step t q = Some q'"
  shows "queue_ok q'"
proof -
  note sh = queue_okD(1) [OF ok] and f = queue_okD(2) [OF ok, of t]
  have l: "qtail q < length (segments q)" "qhead q < length (segments q)" using sh by (simp_all add: shared_ok_def)
  have a: "fst (asked q t) \<le> front q" "snd (asked q t) \<le> length (pushed q)" using ok by (simp_all add: queue_ok_def)
  have own: "queue_ok (goto t k q)" if "task_fits q (asked q t) k" "\<And>v p i. k \<noteq> PushFill v p i" for k
    using that by (intro queue_own_task [OF ok, of _ t k]) auto
  show ?thesis
  proof (cases "tasks q t")
    case (BoundsStart op)
    then show ?thesis using step own [of "BoundsHead op (qhead q)"] a by (auto simp: bounds_step_def front_def)
  next
    case (BoundsHead op h)
    have "snd (asked q t) \<le> base (seg q (qtail q)) + reserved (seg q (qtail q))" using a sh by (simp add: shared_ok_def)
    then show ?thesis using BoundsHead step own [of "BoundsTail op h (qtail q)"] f by (auto simp: bounds_step_def)
  next
    case (BoundsTail op h tl)
    then have h: "h \<le> qhead q" "h < length (segments q)" using f l by auto
    have "min (head (seg q h)) (capacity (seg q h)) = head (seg q h)" using seg_fitsD(6) [OF sh h(2)] by (simp add: reserved_def)
    then have "bounds_fit q (asked q t) h (base (seg q h) + min (head (seg q h)) (capacity (seg q h)))"
      using BoundsTail f before_front [OF sh h(1)] by (simp add: bounds_fit_def)
    then show ?thesis using BoundsTail step f own [of "BoundsEnd op h tl (base (seg q h) + min (head (seg q h)) (capacity (seg q h)))"]
      by (auto simp: bounds_step_def)
  next
    case (BoundsEnd op h tl start)
    then have "tl \<le> qtail q" "tl < length (segments q)" using f l by auto
    then have "base (seg q tl) + reserved (seg q tl) \<le> length (pushed q)" using within_pushed(1) [OF sh] by simp
    then show ?thesis using BoundsEnd step f own [of "BoundsCheck op h tl start (base (seg q tl) + reserved (seg q tl))"]
      by (auto simp: bounds_step_def)
  next
    case (BoundsCheck op h tl start stop)
    then show ?thesis using step f own [of "BoundsAgain op h tl start stop"] own [of "BoundsStart op"] by (auto simp: bounds_step_def split: if_splits)
  next
    case (BoundsAgain op h tl start stop)
    have "with_bounds op h start n \<noteq> PushFill v p i" for n v p i by (cases op) (auto split: option.splits)
    then show ?thesis using BoundsAgain step f with_bounds_fits [OF sh, of "asked q t" h start stop op]
        own [of "with_bounds op h start (max stop start)"] own [of "BoundsStart op"] by (auto simp: bounds_step_def split: if_splits)
  qed (use step in \<open>auto simp: bounds_step_def\<close>)
qed

text \<open>The segment of a position that was pushed is found, and what its slot holds is what was pushed there.\<close>

lemma located:
  assumes ok: "shared_ok q" and p: "p < length (segments q)" "base (seg q p) \<le> i"
  shows "i < base (seg q p) + capacity (seg q p) \<Longrightarrow> slots (seg q p) ! (i - base (seg q p)) = Some v \<Longrightarrow> v = pushed q ! i"
    "\<not> i < base (seg q p) + capacity (seg q p) \<Longrightarrow> next_segment (seg q p) = Some n \<Longrightarrow> n < length (segments q) \<and> base (seg q n) \<le> i"
    "\<not> i < base (seg q p) + capacity (seg q p) \<Longrightarrow> i < length (pushed q) \<Longrightarrow> next_segment (seg q p) \<noteq> None"
proof -
  note d = seg_fitsD [OF ok p(1)]
  show "v = pushed q ! i" if "i < base (seg q p) + capacity (seg q p)" "slots (seg q p) ! (i - base (seg q p)) = Some v"
    using d(10) [of "i - base (seg q p)" v] that p by auto
  show "n < length (segments q) \<and> base (seg q n) \<le> i" if "\<not> i < base (seg q p) + capacity (seg q p)" "next_segment (seg q p) = Some n"
    using d(3,4) that by (auto split: if_splits)
  assume i: "\<not> i < base (seg q p) + capacity (seg q p)" "i < length (pushed q)"
  have l: "length (pushed q) = base (seg q (qtail q)) + reserved (seg q (qtail q))" "qtail q < length (segments q)" using ok by (simp_all add: shared_ok_def)
  have "p < qtail q"
  proof (rule ccontr)
    assume "\<not> p < qtail q"
    then have "p = qtail q \<or> base (seg q (qtail q)) + capacity (seg q (qtail q)) \<le> base (seg q p)" using base_after [OF ok, of "qtail q" p] p(1) by (cases "p = qtail q") auto
    then show False using i l by (auto simp: reserved_def)
  qed
  then show "next_segment (seg q p) \<noteq> None" using d(3) l(2) by auto
qed

lemma look_step_ok:
  assumes ok: "queue_ok q" and step: "look_step t q = Some q'"
  shows "queue_ok q'"
proof -
  note sh = queue_okD(1) [OF ok] and f = queue_okD(2) [OF ok, of t]
  have own: "queue_ok (goto t k q)" if "task_fits q (asked q t) k" "\<And>v p i. k \<noteq> PushFill v p i" for k
    using that by (intro queue_own_task [OF ok, of _ t k]) auto
  show ?thesis
  proof (cases "tasks q t")
    case (GetAt p i)
    then have p: "p < length (segments q)" "base (seg q p) \<le> i" using f by auto
    show ?thesis
    proof (cases "i < base (seg q p) + capacity (seg q p)")
      case True
      then obtain v where "slots (seg q p) ! (i - base (seg q p)) = Some v" "q' = goto t (Done (Got v)) q"
        using step GetAt by (auto simp: look_step_def split: option.splits)
      then show ?thesis using own [of "Done (Got v)"] located(1) [OF sh p True] f GetAt by auto
    next
      case False
      then obtain n where "next_segment (seg q p) = Some n" "q' = goto t (GetAt n i) q"
        using step GetAt by (auto simp: look_step_def split: option.splits)
      then show ?thesis using own [of "GetAt n i"] located(2) [OF sh p False] f GetAt by auto
    qed
  next
    case (SnapAt p start i stop vs)
    then have p: "p < length (segments q)" "base (seg q p) \<le> i" using f by auto
    show ?thesis
    proof (cases "stop \<le> i")
      case True
      then have "i = stop" using f SnapAt by simp
      have "task_fits q (asked q t) (Done (Values vs))"
        unfolding task_fits.simps outcome_fits.simps by (intro exI [of _ start] exI [of _ stop]) (use f SnapAt \<open>i = stop\<close> in auto)
      then show ?thesis using own [of "Done (Values vs)"] True step SnapAt by (auto simp: look_step_def)
    next
      case F: False
      show ?thesis
      proof (cases "i < base (seg q p) + capacity (seg q p)")
        case True
        then obtain v where v: "slots (seg q p) ! (i - base (seg q p)) = Some v" "q' = goto t (SnapAt p start (i + 1) stop (vs @ [v])) q"
          using step SnapAt F by (auto simp: look_step_def split: option.splits)
        then show ?thesis using own [of "SnapAt p start (i + 1) stop (vs @ [v])"] located(1) [OF sh p True v(1)] f SnapAt F by auto
      next
        case False
        then obtain n where "next_segment (seg q p) = Some n" "q' = goto t (SnapAt n start i stop vs) q"
          using step SnapAt F by (auto simp: look_step_def split: option.splits)
        then show ?thesis using own [of "SnapAt n start i stop vs"] located(2) [OF sh p False] f SnapAt by auto
      qed
    qed
  qed (use step in \<open>auto simp: look_step_def\<close>)
qed

lemma queue_step_ok: "queue_ok q \<Longrightarrow> queue_step a t q = Some (r, q') \<Longrightarrow> queue_ok q'"
  by (cases a) (auto simp: plain_def split: if_splits intro: begin_op_ok push_step_ok pop_step_ok queue_retire_ok bounds_step_ok look_step_ok)

lemma push_step_grows:
  assumes ok: "queue_ok q" and step: "push_step t q = Some q'"
  shows "grows q q'"
proof -
  note sh = queue_okD(1) [OF ok] and f = queue_okD(2) [OF ok, of t]
  show ?thesis
  proof (cases "tasks q t")
    case (PushReserve v p)
    then show ?thesis using reserve_ok(1) [OF sh, of p q' v] step f by (auto simp: push_step_def Let_def split: if_splits)
  next
    case (PushFill v p i)
    then show ?thesis using fill_ok [OF sh, of "asked q t" v p i q'] step f by (auto simp: push_step_def Let_def)
  next
    case (PushLink v p)
    then show ?thesis using link_ok [OF sh, of "asked q t" v p q'] step f by (auto simp: push_step_def Let_def split: option.splits)
  next
    case (PushMove v p n)
    then show ?thesis using move_tail_ok [OF sh, of "asked q t" v p n q'] step f by (auto simp: push_step_def split: if_splits)
  qed (use step in \<open>auto simp: push_step_def split: option.splits\<close>)
qed

lemma pop_step_grows:
  assumes ok: "queue_ok q" and step: "pop_step t q = Some q'"
  shows "grows q q'"
proof -
  note sh = queue_okD(1) [OF ok] and f = queue_okD(2) [OF ok, of t]
  show ?thesis
  proof (cases "tasks q t")
    case (PopTake p i)
    then show ?thesis using take_ok(1) [OF sh, of "asked q t" p i q'] step f by (auto simp: pop_step_def Let_def split: if_splits)
  next
    case (PopMove p n)
    then show ?thesis using move_head_ok [OF sh, of "asked q t" p n q'] step f by (auto simp: pop_step_def split: if_splits)
  qed (use step in \<open>auto simp: pop_step_def split: option.splits if_splits\<close>)
qed

lemma queue_step_grows: "queue_ok q \<Longrightarrow> queue_step a t q = Some (r, q') \<Longrightarrow> grows q q'"
  by (cases a) (auto simp: plain_def begin_op_def pop_retire_def bounds_step_def look_step_def
    split: if_splits task.splits option.splits intro: push_step_grows pop_step_grows)

subsection \<open>Pushes and pops are linearizable\<close>

text \<open>The outcome that a push or pop will return which has taken effect, and the one that has not taken effect.\<close>

fun due :: "'v queue \<Rightarrow> 'v task \<Rightarrow> 'v outcome option" where
  "due q (Done Pushed) = Some Pushed"
| "due q (Done Nothing) = Some Nothing"
| "due q (Done (Popped v)) = Some (Popped v)"
| "due q (PushFill v p i) = Some Pushed"
| "due q (PopCopy p i) = Some (Popped (the (slots (seg q p) ! i)))"
| "due q _ = None"

fun pending :: "'v task \<Rightarrow> 'v op list" where
  "pending (PushStart v) = [Push v]"
| "pending (PushReserve v p) = [Push v]"
| "pending (PushNext v p) = [Push v]"
| "pending (PushLink v p) = [Push v]"
| "pending (PushMove v p n) = [Push v]"
| "pending PopStart = [Pop]"
| "pending (PopHead p) = [Pop]"
| "pending (PopPos p i) = [Pop]"
| "pending (PopWait p i) = [Pop]"
| "pending (PopTake p i) = [Pop]"
| "pending (PopMove p n) = [Pop]"
| "pending (PopRetire p) = [Pop]"
| "pending _ = []"

definition log_fits :: "'v queue \<Rightarrow> 'v task \<Rightarrow> 'v op list \<Rightarrow> ('v op \<times> 'v outcome) list \<Rightarrow> bool" where
  "log_fits q k ops es \<longleftrightarrow> ops = map fst es @ pending k \<and> (\<forall>r. due q k = Some r \<longrightarrow> es \<noteq> [] \<and> snd (last es) = r)"

definition log_ok :: "'v queue \<Rightarrow> bool" where
  "log_ok q \<longleftrightarrow> replay spec (log q) [] = Some (contents q) \<and> (\<forall>t. log_fits q (tasks q t) (begun q t) (own_log t (log q)))"

lemma due_grows:
  assumes "queue_ok q" "grows q q'"
  shows "due q' (tasks q u) = due q (tasks q u)"
proof (cases "tasks q u")
  case (PopCopy p i)
  have "task_fits q (asked q u) (tasks q u)" by (rule queue_okD(2) [OF assms(1)])
  then have "p < length (segments q)" "slots (seg q p) ! i \<noteq> None" using PopCopy assms(1) by (auto simp: slot_full_def queue_ok_def shared_ok_def)
  then show ?thesis using growsD(6) [OF assms(2)] PopCopy by simp
next
  case (Done r)
  then show ?thesis by (cases r) simp_all
qed simp_all

lemma queue_quiet_log:
  assumes l: "log_ok q" and ok: "queue_ok q" and step: "queue_step a t q = Some (r, q')"
    and q': "log q' = log q" "contents q' = contents q" "tasks q' = (tasks q)(t := k)"
    and b: "\<And>u. u \<noteq> t \<Longrightarrow> begun q' u = begun q u" "log_fits q' k (begun q' t) (own_log t (log q))"
  shows "log_ok q'"
  unfolding log_ok_def q'(1,2)
proof (intro conjI allI)
  fix u
  show "log_fits q' (tasks q' u) (begun q' u) (own_log u (log q))"
    using l b due_grows [OF ok queue_step_grows [OF ok step]] by (cases "u = t") (auto simp: log_ok_def log_fits_def q'(3))
qed (use l in \<open>simp add: log_ok_def\<close>)

lemma still_fits: "log_ok q \<Longrightarrow> pending k = pending (tasks q t) \<Longrightarrow> due q' k = None \<or> due q' k = due q (tasks q t) \<Longrightarrow>
    log_fits q' k (begun q t) (own_log t (log q))"
  by (auto simp: log_ok_def log_fits_def)

lemma effect_log:
  assumes l: "log_ok q" and ok: "queue_ok q" and step: "queue_step a t q = Some (r, q')"
    and q': "log q' = log q @ [(t, op, out)]" "spec op (contents q) = (out, contents q')" "tasks q' = (tasks q)(t := k)" "begun q' = begun q"
    and k: "pending (tasks q t) = [op]" "pending k = []" "due q' k = Some out"
  shows "log_ok q'"
  unfolding log_ok_def q'(1)
proof (intro conjI allI)
  show "replay spec (log q @ [(t, op, out)]) [] = Some (contents q')"
    using l q'(2) by (simp add: log_ok_def replay_append)
  fix u
  show "log_fits q' (tasks q' u) (begun q' u) (own_log u (log q @ [(t, op, out)]))"
    using l k due_grows [OF ok queue_step_grows [OF ok step]] by (cases "u = t") (auto simp: log_ok_def log_fits_def q'(3,4))
qed

lemma contents_cong: "segments q' = segments q \<Longrightarrow> qhead q' = qhead q \<Longrightarrow> pushed q' = pushed q \<Longrightarrow> contents q' = contents q"
  by (simp add: contents_def front_def)

lemma queue_log_step_ok:
  assumes l: "log_ok q" and ok: "queue_ok q" and step: "queue_step a t q = Some (r, q')"
  shows "log_ok q'"
proof -
  note quiet = queue_quiet_log [OF l ok step] and eff = effect_log [OF l ok step]
  note sh = queue_okD(1) [OF ok] and f = queue_okD(2) [OF ok, of t]
  have own: "log_ok q'" if "q' = goto t k q" "pending k = pending (tasks q t)" "due q' k = None \<or> due q' k = due q (tasks q t)" for k
    using that still_fits [OF l that(2,3)] by (intro quiet [of k]) (auto intro: contents_cong)
  have l0: "log_fits q (tasks q t) (begun q t) (own_log t (log q))" using l by (simp add: log_ok_def)
  show ?thesis
  proof (cases a)
    case (Begin op)
    obtain x where x: "tasks q t = Done x" "q' = begin_op op t q" using step Begin by (auto split: if_splits task.splits)
    then have "begun q t = map fst (own_log t (log q))" using l0 by (simp add: log_fits_def)
    then show ?thesis by (intro quiet [of "begin_task op"])
      (cases op; auto simp: x begin_op_def log_fits_def intro: contents_cong)+
  next
    case PushStep
    then have s: "push_step t q = Some q'" using step by (auto simp: plain_def)
    show ?thesis
    proof (cases "tasks q t")
      case (PushReserve v p)
      then have p: "p \<le> qtail q" using f by simp
      let ?i = "tail (seg q p)"
      have segs: "segments q' = (segments q)[p := (seg q p)\<lparr>tail := ?i + 1\<rparr>]" "qhead q' = qhead q"
        using s PushReserve by (auto simp: push_step_def Let_def split: if_splits)
      then have fr: "front q' = front q" using sh by (cases "p = qhead q") (auto simp: front_def shared_ok_def)
      show ?thesis
      proof (cases "?i < capacity (seg q p)")
        case True
        then show ?thesis using s PushReserve front_pushed [OF sh] fr
          by (intro eff [of "Push v" Pushed "PushFill v p ?i"]) (auto simp: push_step_def Let_def contents_def)
      next
        case False
        then have q': "q' = goto t (PushNext v p) (set_seg p ((seg q p)\<lparr>tail := ?i + 1\<rparr>) q)" using s PushReserve by (simp add: push_step_def Let_def)
        have "log_fits q' (PushNext v p) (begun q t) (own_log t (log q))" by (rule still_fits [OF l]) (simp_all add: PushReserve)
        then show ?thesis using fr by (intro quiet [of "PushNext v p"]) (simp_all add: contents_def, simp_all add: q')
      qed
    next
      case (PushFill v p i)
      then have segs: "segments q' = (segments q)[p := (seg q p)\<lparr>slots := (slots (seg q p))[i := Some v]\<rparr>]" "qhead q' = qhead q"
        using s by (auto simp: push_step_def Let_def)
      then have fr: "front q' = front q" using sh by (cases "p = qhead q") (auto simp: front_def shared_ok_def)
      have q': "q' = goto t (Done Pushed) (set_seg p ((seg q p)\<lparr>slots := (slots (seg q p))[i := Some v]\<rparr>) q)"
        using s PushFill by (simp add: push_step_def Let_def)
      have "log_fits q' (Done Pushed) (begun q t) (own_log t (log q))" by (rule still_fits [OF l]) (simp_all add: PushFill)
      then show ?thesis using fr by (intro quiet [of "Done Pushed"]) (simp_all add: contents_def, simp_all add: q')
    next
      case (PushLink v p)
      show ?thesis
      proof (cases "next_segment (seg q p)")
        case None
        have pl: "p < length (segments q)" "qhead q < length (segments q)" using sh f PushLink by (auto simp: shared_ok_def)
        have "segments q' = (segments q)[p := (seg q p)\<lparr>next_segment := Some (length (segments q))\<rparr>]
          @ [new_segment (min (capacity (seg q p) * 2) LARGEST_SEGMENT) (base (seg q p) + capacity (seg q p))]" "qhead q' = qhead q"
          using s PushLink None by (auto simp: push_step_def Let_def)
        then have "front q' = front q" using pl by (cases "p = qhead q") (auto simp: front_def nth_append)
        moreover have "log_fits q' (PushMove v p (length (segments q))) (begun q t) (own_log t (log q))"
          by (rule still_fits [OF l]) (simp_all add: PushLink)
        ultimately show ?thesis using s PushLink None
          by (intro quiet [of "PushMove v p (length (segments q))"]) (auto simp: push_step_def Let_def contents_def)
      next
        case (Some n)
        then show ?thesis using s PushLink own [of "PushMove v p n"] by (auto simp: push_step_def Let_def)
      qed
    next
      case (PushMove v p n)
      moreover have "log_fits q' (PushStart v) (begun q t) (own_log t (log q))" by (rule still_fits [OF l]) (simp_all add: PushMove)
      ultimately show ?thesis using s
        by (intro quiet [of "PushStart v"]) (auto simp: push_step_def intro: contents_cong)
    next
      case (PushStart v)
      then show ?thesis using s own [of "PushReserve v (qtail q)"] by (auto simp: push_step_def)
    next
      case (PushNext v p)
      then show ?thesis using s own [of "PushLink v p"] own [of "PushMove v p n" for n] by (auto simp: push_step_def split: option.splits)
    qed (use s in \<open>auto simp: push_step_def\<close>)
  next
    case PopStep
    then have s: "pop_step t q = Some q'" using step by (auto simp: plain_def)
    show ?thesis
    proof (cases "tasks q t")
      case PopStart
      then show ?thesis using s own [of "PopHead (qhead q)"] by (auto simp: pop_step_def)
    next
      case (PopHead p)
      then show ?thesis using s own [of "PopPos p (head (seg q p))"] by (auto simp: pop_step_def)
    next
      case (PopPos p i)
      have none: "log_ok q'" if "q' = goto t (Done Nothing) (effect t Pop Nothing q)" "contents q = []"
      proof -
        have "contents q' = []" using that by (simp add: contents_def front_def)
        then show ?thesis using that PopPos by (intro eff [of Pop Nothing "Done Nothing"]) auto
      qed
      show ?thesis
      proof (cases "capacity (seg q p) \<le> i")
        case True
        show ?thesis
        proof (cases "next_segment (seg q p)")
          case None
          then show ?thesis using s PopPos True f none empty_at_end [OF sh _ _ True None] by (auto simp: pop_step_def)
        next
          case (Some n)
          then show ?thesis using s PopPos True own [of "PopMove p n"] by (auto simp: pop_step_def)
        qed
      next
        case False
        show ?thesis
        proof (cases "tail (seg q p) \<le> i")
          case True
          then show ?thesis using s PopPos False f none empty_at_tail [OF sh, of p i] by (auto simp: pop_step_def)
        next
          case F: False
          then show ?thesis using s PopPos False own [of "PopWait p i"] by (auto simp: pop_step_def)
        qed
      qed
    next
      case (PopWait p i)
      then show ?thesis using s own [of "PopTake p i"] by (auto simp: pop_step_def split: option.splits)
    next
      case (PopTake p i)
      show ?thesis
      proof (cases "head (seg q p) = i")
        case True
        have q': "q' = goto t (PopCopy p i) (effect t Pop (Popped (pushed q ! front q)) (set_seg p ((seg q p)\<lparr>head := i + 1\<rparr>) q))"
          using s PopTake True by (auto simp: pop_step_def Let_def)
        have tk: "contents q = pushed q ! front q # contents q'" "slots (seg q p) ! i = Some (pushed q ! front q)"
          using take_ok(2,3) [OF sh, of "asked q t" p i q'] f PopTake True q' by auto
        have "p < length (segments q)" using f PopTake sh by (auto simp: shared_ok_def)
        then show ?thesis using tk PopTake by (intro eff [of Pop "Popped (pushed q ! front q)" "PopCopy p i"]) (auto simp: q')
      next
        case False
        then show ?thesis using s PopTake own [of PopStart] by (auto simp: pop_step_def Let_def)
      qed
    next
      case (PopCopy p i)
      then obtain v where v: "slots (seg q p) ! i = Some v" "q' = goto t (Done (Popped v)) q"
        using s by (auto simp: pop_step_def split: option.splits)
      then show ?thesis using PopCopy own [of "Done (Popped v)"] by auto
    next
      case (PopMove p n)
      show ?thesis
      proof (cases "qhead q = p")
        case True
        then have "contents q' = contents q" using move_head_ok [OF sh, of "asked q t" p n q'] s PopMove f by (auto simp: pop_step_def)
        moreover have "log_fits q' (PopRetire p) (begun q t) (own_log t (log q))" by (rule still_fits [OF l]) (simp_all add: PopMove)
        ultimately show ?thesis using s PopMove True
          by (intro quiet [of "PopRetire p"]) (auto simp: pop_step_def)
      next
        case False
        then show ?thesis using s PopMove own [of PopStart] by (auto simp: pop_step_def)
      qed
    qed (use s in \<open>auto simp: pop_step_def\<close>)
  next
    case RetireStep
    then obtain p where p: "tasks q t = PopRetire p" "q' = goto t PopStart q\<lparr>dropped := p # dropped q\<rparr>"
      using step by (auto simp: pop_retire_def split: task.splits)
    moreover have "log_fits q' PopStart (begun q t) (own_log t (log q))" by (rule still_fits [OF l]) (simp_all add: p)
    ultimately show ?thesis by (intro quiet [of PopStart]) (auto intro: contents_cong)
  next
    case BoundsStep
    then obtain k where k: "q' = goto t k q" "pending k = pending (tasks q t)" "due q' k = None"
    proof -
      have "due q' (with_bounds op h start n) = None \<and> pending (with_bounds op h start n) = []" for op h start n
        by (cases op) (auto split: option.splits)
      then show thesis using step BoundsStep that by (auto simp: bounds_step_def plain_def split: task.splits if_splits)
    qed
    then show ?thesis using own [of k] by simp
  next
    case LookStep
    then obtain k where "q' = goto t k q" "pending k = pending (tasks q t)" "due q' k = None"
      using step by (auto simp: look_step_def plain_def split: task.splits if_splits option.splits)
    then show ?thesis using own [of k] by simp
  qed
qed


lemma new_queue_ok: "queue_ok new_queue" "log_ok new_queue"
  by (simp_all add: queue_ok_def shared_ok_def seg_fits_def new_queue_def new_segment_def FIRST_SEGMENT_def reserved_def front_def
    log_ok_def contents_def log_fits_def)

lemma queue_run_ok: "queue_run as q = Some q' \<Longrightarrow> queue_ok q \<Longrightarrow> log_ok q \<Longrightarrow> queue_ok q' \<and> log_ok q'"
proof (induction as arbitrary: q)
  case (Cons b as)
  then show ?case using queue_step_ok [of q "fst b" "snd b"] queue_log_step_ok [of q "fst b" "snd b"]
    by (cases b) (auto split: option.splits)
qed simp

text \<open>C14: The pushes and pops of the queue are linearizable as first in, first out: all that took effect, in that order, have
  the outcomes they have on a list one after the other, and leave the values from the head of the queue; each that a thread
  began took effect once, in the order of the thread, before it returned that outcome.\<close>

theorem queue_is_linearizable:
  assumes "queue_run as new_queue = Some q"
  shows "replay spec (log q) [] = Some (contents q) \<and>
    (\<forall>t. begun q t = map fst (own_log t (log q)) @ pending (tasks q t)) \<and>
    (\<forall>t r. tasks q t = Done r \<longrightarrow> r \<in> insert Pushed (insert Nothing (range Popped)) \<longrightarrow>
       own_log t (log q) \<noteq> [] \<and> snd (last (own_log t (log q))) = r)"
proof -
  have l: "log_ok q" using queue_run_ok [OF assms new_queue_ok] by simp
  then have "log_fits q (tasks q t) (begun q t) (own_log t (log q))" for t by (simp add: log_ok_def)
  then have f: "begun q t = map fst (own_log t (log q)) @ pending (tasks q t)"
    "due q (tasks q t) = Some r \<Longrightarrow> own_log t (log q) \<noteq> [] \<and> snd (last (own_log t (log q))) = r" for t r
    unfolding log_fits_def by blast+
  have "due q (Done r) = Some r" if "r \<in> insert Pushed (insert Nothing (range Popped))" for r using that by auto
  then show ?thesis using l f by (metis log_ok_def)
qed

lemma two_pops: "\<exists>q. queue_run (push_acts 1 0 @ push_acts (2::nat) 0 @ pop_acts 1 @ pop_acts 2) new_queue = Some q \<and>
   tasks q 1 = Done (Popped 1) \<and> tasks q 2 = Done (Popped 2)"
  by (simp add: push_acts_def pop_acts_def replicate_6 new_queue_def new_segment_def FIRST_SEGMENT_def queue_defs Let_def front_def)

theorem queue_is_linearizable_witness:
  "\<exists>q. queue_run (push_acts 1 0 @ push_acts (2::nat) 0 @ pop_acts 1 @ pop_acts 2) new_queue = Some q \<and>
     replay spec (log q) [] = Some (contents q) \<and> snd (last (own_log 2 (log q))) = Popped 2"
  using two_pops queue_is_linearizable by blast

text \<open>C20: What \<open>snapshot\<close> and \<open>length\<close> return is a run of the values in the order of the queue which has all that was in it
  throughout: it begins no earlier than the head when the operation began and no later than the head now, and ends no
  earlier than the tail when it began; what \<open>get\<close> returns was pushed, and not popped when it began.\<close>

theorem observers_see_a_run_of_the_queue:
  assumes "queue_run as new_queue = Some q" "tasks q t = Done r"
  shows "case r of
      Values vs \<Rightarrow> \<exists>start stop. fst (asked q t) \<le> start \<and> start \<le> front q \<and> snd (asked q t) \<le> stop \<and> stop \<le> length (pushed q) \<and>
        vs = map ((!) (pushed q)) [start..<stop]
    | Count n \<Rightarrow> \<exists>start stop. fst (asked q t) \<le> start \<and> start \<le> front q \<and> snd (asked q t) \<le> stop \<and> stop \<le> length (pushed q) \<and> n = stop - start
    | Got v \<Rightarrow> \<exists>i. fst (asked q t) \<le> i \<and> i < length (pushed q) \<and> v = pushed q ! i
    | _ \<Rightarrow> True"
proof -
  have "outcome_fits q (asked q t) r" using queue_okD(2) [of q t] queue_run_ok [OF assms(1) new_queue_ok] assms(2) by simp
  then show ?thesis by (cases r) auto
qed


text \<open>A snapshot by thread 1, between whose loads of the head and of the tail thread 0 pops the one value and pushes another.\<close>

definition torn_snapshot :: "(nat queue_action \<times> nat) list" where
  "torn_snapshot = push_acts 1 0 @ (Begin Snapshot, 1) # replicate 3 (BoundsStep, 1) @ pop_acts 0 @ push_acts 2 0 @
     replicate 3 (BoundsStep, 1) @ replicate 3 (LookStep, 1)"

lemma replicate_3: "replicate 3 x = [x, x, x]" by (simp add: eval_nat_numeral)

lemma torn_run: "\<exists>q. queue_run torn_snapshot new_queue = Some q \<and> tasks q 1 = Done (Values [1, 2])"
  by (simp add: torn_snapshot_def push_acts_def pop_acts_def replicate_6 replicate_3 new_queue_def new_segment_def FIRST_SEGMENT_def
     queue_defs Let_def front_def contents_def reserved_def)


theorem observers_see_a_run_of_the_queue_witness:
  "\<exists>q start stop. queue_run torn_snapshot new_queue = Some q \<and> stop \<le> length (pushed q) \<and> [1, 2] = map ((!) (pushed q)) [start..<stop]"
proof -
  obtain q where q: "queue_run torn_snapshot new_queue = Some q" "tasks q 1 = Done (Values [1, 2])" using torn_run by blast
  have "\<exists>start stop. fst (asked q 1) \<le> start \<and> start \<le> front q \<and> snd (asked q 1) \<le> stop \<and> stop \<le> length (pushed q) \<and>
      [1, 2] = map ((!) (pushed q)) [start..<stop]"
    using observers_see_a_run_of_the_queue [OF q] unfolding outcome.case .
  then show ?thesis using q(1) by (elim exE conjE) (intro exI conjI)
qed

definition stalled_push :: "(nat queue_action \<times> nat) list" where
  "stalled_push = [(Begin (Push 1), 0), (PushStep, 0), (PushStep, 0), (Begin Pop, 1), (PopStep, 1), (PopStep, 1), (PopStep, 1)]"

text \<open>The queue is not lock-free: a pop waits, with no step of its own, for the thread that reserved the position at the head.\<close>

lemma pops_wait_for_a_push:
  "\<exists>q. queue_run stalled_push new_queue = Some q \<and> contents q = [1] \<and> busy q 1 \<and> (\<forall>a. queue_step a 1 q = None)"
proof -
  obtain q where q: "queue_run stalled_push new_queue = Some q" "contents q = [1]" "tasks q 1 = PopWait 0 0" "slots (seg q 0) ! 0 = None"
    by (simp add: stalled_push_def new_queue_def new_segment_def FIRST_SEGMENT_def queue_defs Let_def front_def contents_def)
  have "queue_step a 1 q = None" for a using q(3,4) by (cases a) (simp_all add: queue_defs)
  then show ?thesis using q by auto
qed

subsection \<open>The queue is not reclaimed safely\<close>

text \<open>Runs of the reclamation, and what other collections retire, beside the queue.\<close>

lemma joint_append: "joint_acts step busy (as @ bs) cs = (case joint_acts step busy as cs of None \<Rightarrow> None | Some cs' \<Rightarrow> joint_acts step busy bs cs')"
  by (induction as arbitrary: cs) (auto split: option.splits)

definition elsewhere_acts :: "nat \<Rightarrow> nat list \<Rightarrow> (('a, 'g) joint_action \<times> nat) list" where
  "elsewhere_acts t ks = concat (map (\<lambda>k. [(Elsewhere k, t), (Reclaim RetirePush, t)]) ks)"

definition reclaim_acts :: "(('g + nat) action \<times> nat) list \<Rightarrow> (('a, 'g) joint_action \<times> nat) list" where
  "reclaim_acts as = map (apfst Reclaim) as"

lemma elsewhere_run: "\<not> bz c t \<Longrightarrow> joint_acts step bz (elsewhere_acts t ks) (c, s) = map_option (Pair c) (acts (retire_acts t (map Inr ks)) s)"
proof (induction ks arbitrary: s)
  case (Cons k ks)
  have e: "retire_acts t (map Inr (k # ks)) = [(RetireLoad (Inr k), t), (RetirePush, t)] @ retire_acts t (map Inr ks)"
    "elsewhere_acts t (k # ks) = [(Elsewhere k, t), (Reclaim RetirePush, t)] @ elsewhere_acts t ks"
    by (simp_all add: retire_acts_def elsewhere_acts_def)
  show ?case unfolding e joint_append acts_append using Cons by (auto simp del: act.simps split: option.splits)
qed (simp add: elsewhere_acts_def retire_acts_def)

lemma reclaim_run:
  "list_all (\<lambda>(a, t). (case a of RetireLoad x \<Rightarrow> False | Unpin \<Rightarrow> False | _ \<Rightarrow> True)) as \<Longrightarrow>
    joint_acts step bz (reclaim_acts as) (c, s) = map_option (Pair c) (acts as s)"
proof (induction as arbitrary: s)
  case (Cons b as)
  obtain a t where b: "b = (a, t)" by fastforce
  have "joint_act step bz (Reclaim a) t (c, s) = map_option (Pair c) (act a t s)"
    using Cons.prems b by (simp del: act.simps split: action.splits)
  then show ?case using Cons b by (auto simp: reclaim_acts_def simp del: act.simps split: option.splits)
qed (simp add: reclaim_acts_def)

text \<open>One push and one pop of thread 1 within a pin of their own.\<close>

definition own_pin :: "nat \<Rightarrow> ('v queue_action \<times> nat) list \<Rightarrow> (('v queue_action, nat) joint_action \<times> nat) list" where
  "own_pin t as = [(Reclaim PinLoad, t), (Reclaim PinStore, t)] @ map (apfst Client) as @ [(Reclaim Unpin, t), (Reclaim CollectBegin, t)]"

text \<open>The first segment with \<open>k\<close> positions filled and \<open>j\<close> taken, by thread 1.\<close>

definition first_segment :: "nat \<Rightarrow> nat \<Rightarrow> nat segment" where
  "first_segment k j = \<lparr>head = j, tail = k, next_segment = None, capacity = 32, base = 0, slots = replicate k (Some 0) @ replicate (32 - k) None\<rparr>"

definition filled_queue :: "nat \<Rightarrow> nat \<Rightarrow> nat queue" where
  "filled_queue k j = \<lparr>qhead = 0, qtail = 0, segments = [first_segment k j],
     tasks = (\<lambda>_. Done Absent)(1 := if j > 0 then Done (Popped 0) else if k > 0 then Done Pushed else Done Absent), dropped = [], pushed = replicate k 0,
     begun = (\<lambda>_. [])(1 := replicate k (Push 0) @ replicate j Pop),
     log = replicate k (1, Push 0, Pushed) @ replicate j (1, Pop, Popped 0),
     asked = (\<lambda>_. (0, 0))(1 := if j > 0 then (j - 1, k) else (0, k - 1))\<rparr>"

definition idle_threads :: "(nat + nat) epochs" where
  "idle_threads = new_epochs\<lparr>participants := replicate 3 new_participant\<rparr>"

lemma one_push:
  assumes "k < 32"
  shows "joint_acts queue_step busy (own_pin 1 (push_acts 0 1)) (filled_queue k 0, idle_threads) = Some (filled_queue (k + 1) 0, idle_threads)"
proof -
  have r: "replicate (32 - k) (None :: nat option) = None # replicate (32 - Suc k) None" using assms by (simp add: Suc_diff_Suc flip: replicate_Suc)
  have "(replicate k (Some 0) @ None # ys)[k := Some 0] = replicate k (Some (0 :: nat)) @ Some 0 # ys" for ys
    using list_update_length [of "replicate k (Some 0)" None ys "Some (0 :: nat)"] unfolding length_replicate .
  then have u: "(replicate k (Some 0) @ None # ys)[k := Some 0] = Some (0 :: nat) # replicate k (Some 0) @ ys" for ys
    by (simp only: replicate_app_Cons_same)
  show ?thesis using assms
    by (simp add: own_pin_def push_acts_def filled_queue_def first_segment_def idle_threads_def replicate_3 run_simps queue_defs front_def r u
        replicate_append_same fun_eq_iff)
qed


lemma one_pop:
  assumes "j < 32"
  shows "joint_acts queue_step busy (own_pin 1 (pop_acts 1)) (filled_queue 32 j, idle_threads) = Some (filled_queue 32 (j + 1), idle_threads)"
  using assms
  by (simp add: own_pin_def pop_acts_def filled_queue_def first_segment_def idle_threads_def replicate_3 replicate_6 run_simps queue_defs front_def
        replicate_append_same fun_eq_iff nth_append)

lemma fill_run: "k \<le> 32 \<Longrightarrow> joint_acts queue_step busy (concat (replicate k (own_pin 1 (push_acts 0 1)))) (filled_queue 0 0, idle_threads) =
    Some (filled_queue k 0, idle_threads)"
  by (induction k) (simp_all add: joint_append one_push [simplified] flip: replicate_append_same)

lemma drain_run: "j \<le> 32 \<Longrightarrow> joint_acts queue_step busy (concat (replicate j (own_pin 1 (pop_acts 1)))) (filled_queue 32 0, idle_threads) =
    Some (filled_queue 32 j, idle_threads)"
  by (induction j) (simp_all add: joint_append one_pop [simplified] flip: replicate_append_same)


text \<open>Thread 0 finds the first segment full and links the next, but has not moved the tail yet; thread 1 finds the first
  segment used up, moves the head past it and retires it, with 63 things of other collections, and collects; thread 2 pins
  and loads the tail; thread 0 moves the tail and ends its push; thread 1 collects again.\<close>

definition stale_tail :: "((nat queue_action, nat) joint_action \<times> nat) list" where
  "stale_tail = [(Reclaim PinLoad, 0), (Reclaim PinStore, 0), (Client (Begin (Push 9)), 0), (Client PushStep, 0), (Client PushStep, 0),
       (Client PushStep, 0), (Client PushStep, 0)]
     @ [(Reclaim PinLoad, 1), (Reclaim PinStore, 1), (Client (Begin Pop), 1), (Client PopStep, 1), (Client PopStep, 1), (Client PopStep, 1),
       (Client PopStep, 1), (Client RetireStep, 1), (Reclaim RetirePush, 1), (Client PopStep, 1), (Client PopStep, 1), (Client PopStep, 1)]"

definition reuse :: "((nat queue_action, nat) joint_action \<times> nat) list" where
  "reuse = [(Reclaim Unpin, 1)] @ reclaim_acts (collect_acts 3 1)
     @ [(Reclaim PinLoad, 2), (Reclaim PinStore, 2), (Client (Begin (Push 5)), 2), (Client PushStep, 2)]
     @ [(Client PushStep, 0), (Client PushStep, 0), (Client PushStep, 0), (Client PushStep, 0), (Reclaim Unpin, 0), (Reclaim CollectBegin, 0)]
     @ [(Reclaim PinLoad, 1), (Reclaim PinStore, 1), (Reclaim Unpin, 1)] @ reclaim_acts (collect_acts 3 1)"

definition used_up :: "(nat \<Rightarrow> nat op list) \<Rightarrow> (nat \<times> nat op \<times> nat outcome) list \<Rightarrow> (nat \<Rightarrow> nat \<times> nat) \<Rightarrow> nat queue" where
  "used_up b l a = \<lparr>qhead = 0, qtail = 0, segments = [\<lparr>head = 32, tail = 32, next_segment = None, capacity = 32, base = 0,
     slots = replicate 32 (Some 0)\<rparr>], tasks = (\<lambda>_. Done Absent)(1 := Done (Popped 0)), dropped = [], pushed = replicate 32 0,
     begun = b, log = l, asked = a\<rparr>"

lemma filled_32: "\<exists>b l a. filled_queue 32 32 = used_up b l a"
  by (simp add: filled_queue_def first_segment_def used_up_def)

lemma stale_tail_run: "\<exists>q e. joint_acts queue_step busy stale_tail (used_up b l a, idle_threads) = Some (q, e) \<and>
   segments q = [\<lparr>head = 32, tail = 33, next_segment = Some 1, capacity = 32, base = 0, slots = replicate 32 (Some 0)\<rparr>, new_segment 64 32] \<and>
   qhead q = 1 \<and> qtail q = 0 \<and> tasks q 0 = PushMove 9 0 1 \<and> tasks q 1 = Done Nothing \<and> tasks q 2 = Done Absent \<and>
   epoch e = 0 \<and> held_list e = False \<and> retired e = [Inl 0] \<and> freed e = [] \<and>
   participants e = [\<lparr>state = 1, garbage = [], depth = 1, stage = Pinned, since = 0\<rparr>,
     \<lparr>state = 1, garbage = [(0, Inl 0)], depth = 1, stage = Pinned, since = 0\<rparr>, new_participant]"
  by (simp add: used_up_def stale_tail_def idle_threads_def replicate_3 run_simps queue_defs front_def new_segment_def LARGEST_SEGMENT_def)

lemma reuse_run:
  fixes q :: "nat queue"
  assumes "segments q = [\<lparr>head = 32, tail = 33, next_segment = Some 1, capacity = 32, base = 0, slots = replicate 32 (Some 0)\<rparr>, new_segment 64 32]"
   "qhead q = 1" "qtail q = 0" "tasks q 0 = PushMove 9 0 1" "tasks q 1 = Done Nothing" "tasks q 2 = Done Absent"
   "epoch e = 0" "held_list e = False" "retired e = xs" "freed e = []"
   "participants e = [\<lparr>state = 1, garbage = [], depth = 1, stage = Pinned, since = 0\<rparr>,
     \<lparr>state = 1, garbage = gs, depth = 1, stage = Pinned, since = 0\<rparr>, new_participant]"
   "length gs = 64" "(0, Inl 0) \<in> set gs"
  shows "\<exists>q' e'. joint_acts queue_step busy reuse (q, e) = Some (q', e') \<and> tasks q' 2 = PushReserve 5 0 \<and> is_pinned (part e' 2) \<and> Inl 0 \<in> set (freed e')"
  using assms
  by (simp add: reuse_def reclaim_acts_def collect_acts_def replicate_4 run_simps queue_defs front_def new_segment_def ready_def split_def comp_def)
    force

definition use_after_free :: "((nat queue_action, nat) joint_action \<times> nat) list" where
  "use_after_free = [(Reclaim Register, 0), (Reclaim Register, 1), (Reclaim Register, 2)] @
     concat (replicate 32 (own_pin 1 (push_acts 0 1))) @ concat (replicate 32 (own_pin 1 (pop_acts 1))) @
     stale_tail @ elsewhere_acts 1 [1..<64] @ reuse"

text \<open>C15: The reclamation does not save the queue: in a run of three threads a segment is freed that a thread, which is pinned,
  is about to write to. The segment was retired while the tail still pointed to it, so that a thread that pinned later
  found it there.\<close>

theorem freed_segment_in_use:
  "\<exists>q e. joint_acts queue_step busy use_after_free (new_queue, new_epochs) = Some (q, e) \<and>
    tasks q 2 = PushReserve 5 0 \<and> is_pinned (part e 2) \<and> Inl 0 \<in> set (freed e)"
proof -
  have start: "joint_acts queue_step busy [(Reclaim Register, 0), (Reclaim Register, 1), (Reclaim Register, 2)] (new_queue, new_epochs) =
      Some (filled_queue 0 0, idle_threads)"
    by (simp add: run_simps idle_threads_def filled_queue_def new_queue_def new_segment_def first_segment_def FIRST_SEGMENT_def replicate_3 fun_eq_iff)
  obtain b l a where u: "filled_queue 32 32 = used_up b l a" using filled_32 by blast
  obtain q e where r: "joint_acts queue_step busy stale_tail (used_up b l a, idle_threads) = Some (q, e)"
    and q: "segments q = [\<lparr>head = 32, tail = 33, next_segment = Some 1, capacity = 32, base = 0, slots = replicate 32 (Some 0)\<rparr>, new_segment 64 32]"
      "qhead q = 1" "qtail q = 0" "tasks q 0 = PushMove 9 0 1" "tasks q 1 = Done Nothing" "tasks q 2 = Done Absent"
    and e: "epoch e = 0" "held_list e = False" "retired e = [Inl 0]" "freed e = []"
      "participants e = [\<lparr>state = 1, garbage = [], depth = 1, stage = Pinned, since = 0\<rparr>,
        \<lparr>state = 1, garbage = [(0, Inl 0)], depth = 1, stage = Pinned, since = 0\<rparr>, new_participant]"
    using stale_tail_run by blast
  define e2 where "e2 = set_part 1 ((part e 1)\<lparr>garbage := garbage (part e 1) @ map (Pair (epoch e)) (map Inr [1..<64])\<rparr>) e
      \<lparr>retired := rev (map Inr [1..<64]) @ retired e, guards := guards e \<union> set (map Inr [1..<64]) \<times> pinned_threads e\<rparr>"
  have "acts (retire_acts 1 (map Inr [1..<64])) e = Some e2" unfolding e2_def
    by (rule retire_run) (auto simp: e distinct_map)
  moreover have "\<not> busy q 1" using q(5) by simp
  ultimately have els: "joint_acts queue_step busy (elsewhere_acts 1 [1..<64]) (q, e) = Some (q, e2)"
    by (simp add: elsewhere_run del: busy.simps upt_rec_numeral)
  have "\<exists>q' e'. joint_acts queue_step busy reuse (q, e2) = Some (q', e') \<and> tasks q' 2 = PushReserve 5 0 \<and> is_pinned (part e' 2) \<and> Inl 0 \<in> set (freed e')"
    by (rule reuse_run [OF q, where gs = "(0, Inl 0) # map (Pair 0 \<circ> Inr) [1..<64]"]) (use e in \<open>simp_all add: e2_def set_part_def del: upt_rec_numeral\<close>)
  moreover have "joint_acts queue_step busy use_after_free (new_queue, new_epochs) = joint_acts queue_step busy reuse (q, e2)"
    by (simp only: use_after_free_def joint_append start fill_run [of 32] drain_run [of 32] order_refl u r els option.case)
  ultimately show ?thesis by metis
qed

end
